(* ===== verification/Prelude.thy ===== *)
theory Prelude
  imports Main "HOL-Library.Word"
begin

text \<open>
  Shared vocabulary of the development: the machine types of the C sources, the error codes the
  modelled functions return, the \<open>WT_RET\<close> sequencing of \<^verbatim>\<open>src/src/include/error.h\<close>, byte strings and
  their reference lexicographic order, and the generic list and word lemmas the components share.

  Conventions used by every theory.
  \<^item> A C function that returns an \<^verbatim>\<open>int\<close> error code and stores results through pointers is a HOL
    function into \<open>wt_err + 'a\<close>: \<open>Inl e\<close> is a non-zero return value, \<open>Inr v\<close> is a return of 0
    with the stored results \<open>v\<close>.
  \<^item> \<^verbatim>\<open>uint8_t\<close>, \<^verbatim>\<open>uint32_t\<close>, \<^verbatim>\<open>uint64_t\<close> are words of that width, and \<^verbatim>\<open>int64_t\<close> is a 64-bit word read
    with \<open>sint\<close>. Lengths and array indexes (\<^verbatim>\<open>size_t\<close>) are natural numbers.
  \<^item> Memory that is read through a pointer is the list of the bytes from the pointer on; a read past
    the end of that list is the value \<open>OOB_READ\<close>, which no C return code corresponds to.
\<close>

unbundle bit_operations_syntax

type_synonym u8 = "8 word"
type_synonym u16 = "16 word"
type_synonym u32 = "32 word"
type_synonym u64 = "64 word"
type_synonym i64 = "64 word"
type_synonym bytes = "u8 list"

text \<open>The error codes of the modelled code; \<open>OOB_READ\<close> marks a read outside the object.\<close>

datatype wt_err =
    EINVAL | EBUSY | ENOMEM | ENOTSUP
  | WT_ERROR | WT_NOTFOUND | WT_PANIC | WT_ROLLBACK | WT_PREPARE_CONFLICT | WT_DUPLICATE_KEY
  | OOB_READ

type_synonym 'a result = "wt_err + 'a"

named_theorems wt_macros \<open>definitions that stand for the C sources' macros\<close>
named_theorems byte_simps \<open>facts on the bytes a packing function writes\<close>

subsection \<open>Error propagation\<close>

definition WT_RET :: "'a result \<Rightarrow> ('a \<Rightarrow> 'b result) \<Rightarrow> 'b result" where
  "WT_RET r f = (case r of Inl e \<Rightarrow> Inl e | Inr v \<Rightarrow> f v)"

lemma WT_RET_simps [simp]:
  "WT_RET (Inl e) f = Inl e"
  "WT_RET (Inr v) f = f v"
  by (simp_all add: WT_RET_def)

lemma WT_RET_eq_Inr [simp]: "WT_RET r f = Inr w \<longleftrightarrow> (\<exists>v. r = Inr v \<and> f v = Inr w)"
  by (cases r) simp_all

lemma WT_RET_eq_Inl: "WT_RET r f = Inl e \<longleftrightarrow> r = Inl e \<or> (\<exists>v. r = Inr v \<and> f v = Inl e)"
  by (cases r) simp_all

lemma WT_RET_cong [fundef_cong]:
  "r = s \<Longrightarrow> (\<And>v. s = Inr v \<Longrightarrow> f v = g v) \<Longrightarrow> WT_RET r f = WT_RET s g"
  by (cases s) simp_all

lemma WT_RET_assoc: "WT_RET (WT_RET r f) g = WT_RET r (\<lambda>v. WT_RET (f v) g)"
  by (cases r) simp_all

lemma WT_RET_split:
  "P (WT_RET r f) \<longleftrightarrow> (\<forall>e. r = Inl e \<longrightarrow> P (Inl e)) \<and> (\<forall>v. r = Inr v \<longrightarrow> P (f v))"
  by (cases r) simp_all

subsection \<open>The reference order on byte strings\<close>

text \<open>
  The order every packed representation aims at: the first differing byte decides, and a proper
  prefix is smaller. The results are -1, 0 and 1, as in the C comparison functions.
\<close>

fun lexcmp :: "bytes \<Rightarrow> bytes \<Rightarrow> int" where
  "lexcmp [] [] = 0"
| "lexcmp [] (b # bs) = -1"
| "lexcmp (a # as) [] = 1"
| "lexcmp (a # as) (b # bs) = (if a < b then -1 else if b < a then 1 else lexcmp as bs)"

lemma lexcmp_refl [simp]: "lexcmp xs xs = 0"
  by (induction xs) simp_all

lemma lexcmp_eq_0 [simp]: "lexcmp xs ys = 0 \<longleftrightarrow> xs = ys"
  by (induction xs ys rule: lexcmp.induct) auto

lemma lexcmp_range: "lexcmp xs ys \<in> {-1, 0, 1}"
  by (induction xs ys rule: lexcmp.induct) auto

lemma lexcmp_neg: "lexcmp ys xs = - lexcmp xs ys"
  by (induction xs ys rule: lexcmp.induct) auto

lemma lexcmp_trans: "lexcmp xs ys < 0 \<Longrightarrow> lexcmp ys zs < 0 \<Longrightarrow> lexcmp xs zs < 0"
proof (induction xs zs arbitrary: ys rule: lexcmp.induct)
  case 1
  then show ?case by (cases ys) simp_all
next
  case (2 b bs)
  then show ?case by simp
next
  case (3 a as)
  then show ?case by (cases ys) simp_all
next
  case (4 a as b bs)
  then show ?case by (cases ys) (auto split: if_splits)
qed

lemma lexcmp_append [simp]: "lexcmp (p @ xs) (p @ ys) = lexcmp xs ys"
  by (induction p) simp_all

lemma lexcmp_append_diff:
  "length xs = length ys \<Longrightarrow> xs \<noteq> ys \<Longrightarrow> lexcmp (xs @ us) (ys @ vs) = lexcmp xs ys"
  by (induction xs ys rule: list_induct2) auto

lemma lexcmp_Cons_less: "a < b \<Longrightarrow> lexcmp (a # as) (b # bs) = -1"
  by simp

lemma lexcmp_Cons_same: "lexcmp (a # as) (a # bs) = lexcmp as bs"
  by simp

text \<open>The three-way comparison of a linear order, with the same result values.\<close>

definition cmp :: "'a :: linorder \<Rightarrow> 'a \<Rightarrow> int" where
  "cmp a b = (if a < b then -1 else if a = b then 0 else 1)"

lemma cmp_mix:
  assumes "r < b" "s < (b :: nat)"
  shows "cmp (b * p + r) (b * q + s) = (if p < q then -1 else if q < p then 1 else cmp r s)"
proof -
  have *: "b * p + r < b * q + s" if "p < q" "r < b" for p q r s :: nat
    using mult_le_mono2 [of "Suc p" q b] that by simp
  show ?thesis
    using assms * [of p q r s] * [of q p s r] by (auto simp: cmp_def)
qed

lemma div_mod_less: "m < n \<Longrightarrow> m div k < n div k \<or> m div k = n div k \<and> m mod k < n mod (k :: nat)"
  by (metis div_le_mono div_mult_mod_eq le_neq_implies_less less_imp_le nat_add_left_cancel_less)

lemma tab_all: "n < k \<Longrightarrow> list_all P [0..<k] \<Longrightarrow> P n"
  by (simp add: list_all_iff)

subsection \<open>Words\<close>

lemma word_eq_zero_iff_unat: "x = 0 \<longleftrightarrow> unat x = 0"
  by (simp add: unat_eq_0)

lemma unat_minus_one_word: "x \<noteq> 0 \<Longrightarrow> unat (x - 1) = unat x - 1"
  by (simp add: unat_minus_one)

lemma unat_lt64: "unat (x :: u64) < 18446744073709551616"
  using unsigned_less [of x, where ?'a = nat] by simp

lemma unat_lt8: "unat (x :: u8) < 256"
  using unsigned_less [of x, where ?'a = nat] by simp

subsection \<open>Self-delimiting encodings\<close>

text \<open>
  The contract of an encoder and decoder pair: the encoder succeeds, and the decoder reads the value
  back from any stream that starts with its encoding and stops there.
\<close>

locale codec =
  fixes pack :: "'a \<Rightarrow> bytes result"
    and unpack :: "bytes \<Rightarrow> ('a \<times> bytes) result"
  assumes pack_total: "\<exists>bs. pack x = Inr bs"
    and unpack_pack: "pack x = Inr bs \<Longrightarrow> unpack (bs @ rest) = Inr (x, rest)"
begin

lemma unpack_pack_end: "pack x = Inr bs \<Longrightarrow> unpack bs = Inr (x, [])"
  using unpack_pack [of x bs "[]"] by simp

text \<open>No packed value is a proper prefix of another: a stream of packed values parses in one way.\<close>

lemma pack_prefix_free:
  assumes "pack x = Inr bs" "pack y = Inr cs" "bs @ r = cs @ s"
  shows "x = y \<and> bs = cs \<and> r = s"
proof -
  have "Inr (x, r) = (Inr (y, s) :: ('a \<times> bytes) result)"
    using unpack_pack [OF assms(1), of r] unpack_pack [OF assms(2), of s] assms(3) by simp
  with assms show ?thesis by simp
qed

lemma pack_inj: "pack x = Inr bs \<Longrightarrow> pack y = Inr bs \<Longrightarrow> x = y"
  using pack_prefix_free by blast

lemma pack_unpack: "\<exists>bs. pack x = Inr bs \<and> (\<forall>rest. unpack (bs @ rest) = Inr (x, rest))"
  using pack_total [of x] unpack_pack by blast

end

text \<open>
  An encoder and decoder that also take the length of the buffer, 0 for a buffer that is not limited:
  the size is announced, and the decoder rejects a limit that cuts the encoding off.
\<close>

locale limited_codec =
  fixes lpack :: "nat \<Rightarrow> 'a \<Rightarrow> bytes result"
    and lunpack :: "nat \<Rightarrow> bytes \<Rightarrow> ('a \<times> bytes) result"
    and size_of :: "'a \<Rightarrow> nat"
  assumes lpack_total: "\<exists>bs. lpack 0 x = Inr bs"
    and lpack_size: "lpack k x = Inr bs \<Longrightarrow> length bs = size_of x"
    and lunpack_lpack: "lpack k x = Inr bs \<Longrightarrow>
      lunpack l (bs @ rest) = (if l \<noteq> 0 \<and> l < size_of x then Inl EINVAL else Inr (x, rest))"

sublocale limited_codec \<subseteq> codec "lpack 0" "lunpack 0"
  by unfold_locales (simp_all add: lpack_total lunpack_lpack)

end
