(* ===== verification/Skiplist.thy ===== *)
theory Skiplist
  imports Prelude "HOL-Library.Sublist"
begin

text \<open>
  The skip lists of the block manager, \<^verbatim>\<open>src/src/block/block_ext.c\<close>: \<^verbatim>\<open>__block_off_srch\<close>,
  \<^verbatim>\<open>__block_size_srch\<close>, \<^verbatim>\<open>__block_off_srch_pair\<close> and \<^verbatim>\<open>__block_off_srch_last\<close> walk the same structure with
  different keys.

  A skip list is represented by its level-0 list, the elements in key order; an element of depth \<open>d\<close> is
  on the levels below \<open>d\<close>, so that its successor on level \<open>i\<close> is the next element of a depth greater
  than \<open>i\<close>. A pointer \<^verbatim>\<open>extp\<close> into an array of level-\<open>i\<close> pointers is represented by the elements behind the
  one that holds the array (all elements for the head): what it points to is the first of them on
  level \<open>i\<close>. The searches follow the loops of the source level by level; the theorems show that they
  find what a linear search finds, and that linking an element at the positions they return changes
  every level as inserting it into the represented list does.
\<close>

subsection \<open>Searches\<close>

abbreviation WT_SKIP_MAXDEPTH :: nat where
  "WT_SKIP_MAXDEPTH \<equiv> 10"

definition deref :: "('a \<Rightarrow> nat) \<Rightarrow> nat \<Rightarrow> 'a list \<Rightarrow> 'a list" where
  "deref depth i pos = dropWhile (\<lambda>e. \<not> i < depth e) pos"

lemma deref_length: "deref depth i pos = e # pos' \<Longrightarrow> length pos' < length pos"
  using length_dropWhile_le [of "\<lambda>e. \<not> i < depth e" pos] by (simp add: deref_def)

text \<open>
  The loop of \<^verbatim>\<open>__block_off_srch\<close> and \<^verbatim>\<open>__block_size_srch\<close> with \<open>n\<close> levels left to visit. The result lists
  the stack entries from the highest level down.
\<close>

function skip_srch_loop ::
  "('a \<Rightarrow> int) \<Rightarrow> ('a \<Rightarrow> nat) \<Rightarrow> nat \<Rightarrow> int \<Rightarrow> 'a list \<Rightarrow> 'a list list" where
  "skip_srch_loop key depth 0 k pos = []"
| "skip_srch_loop key depth (Suc i) k pos =
     (case deref depth i pos of
        e # pos' \<Rightarrow> if key e < k then skip_srch_loop key depth (Suc i) k pos'
                    else pos # skip_srch_loop key depth i k pos
      | [] \<Rightarrow> pos # skip_srch_loop key depth i k pos)"
  by pat_completeness auto
termination
  by (relation "measures [\<lambda>(key, depth, i, k, pos). i, \<lambda>(key, depth, i, k, pos). length pos]")
    (auto dest: deref_length)

definition skip_srch :: "('a \<Rightarrow> int) \<Rightarrow> ('a \<Rightarrow> nat) \<Rightarrow> int \<Rightarrow> 'a list \<Rightarrow> 'a list list" where
  "skip_srch key depth k head = rev (skip_srch_loop key depth WT_SKIP_MAXDEPTH k head)"

text \<open>The loop of \<^verbatim>\<open>__block_off_srch_pair\<close>: the best predecessor and successor seen so far.\<close>

function skip_pair_loop ::
  "('a \<Rightarrow> int) \<Rightarrow> ('a \<Rightarrow> nat) \<Rightarrow> nat \<Rightarrow> int \<Rightarrow> 'a list \<Rightarrow> 'a option \<Rightarrow> 'a option \<Rightarrow>
     'a option \<times> 'a option" where
  "skip_pair_loop key depth 0 k pos before after = (before, after)"
| "skip_pair_loop key depth (Suc i) k pos before after =
     (case deref depth i pos of
        [] \<Rightarrow> skip_pair_loop key depth i k pos before after
      | e # pos' \<Rightarrow> if key e < k then skip_pair_loop key depth (Suc i) k pos' (Some e) after
                    else skip_pair_loop key depth i k pos before (Some e))"
  by pat_completeness auto
termination
  by (relation "measures [\<lambda>(key, depth, i, k, pos, b, a). i, \<lambda>(key, depth, i, k, pos, b, a). length pos]")
    (auto dest: deref_length)

definition skip_srch_pair ::
  "('a \<Rightarrow> int) \<Rightarrow> ('a \<Rightarrow> nat) \<Rightarrow> int \<Rightarrow> 'a list \<Rightarrow> 'a option \<times> 'a option" where
  "skip_srch_pair key depth k head = skip_pair_loop key depth WT_SKIP_MAXDEPTH k head None None"

text \<open>The loop of \<^verbatim>\<open>__block_off_srch_last\<close>.\<close>

function skip_last_loop ::
  "('a \<Rightarrow> nat) \<Rightarrow> nat \<Rightarrow> 'a list \<Rightarrow> 'a option \<Rightarrow> 'a option \<times> 'a list list" where
  "skip_last_loop depth 0 pos lst = (lst, [])"
| "skip_last_loop depth (Suc i) pos lst =
     (case deref depth i pos of
        e # pos' \<Rightarrow> skip_last_loop depth (Suc i) pos' (Some e)
      | [] \<Rightarrow> (let (r, stack) = skip_last_loop depth i pos lst in (r, pos # stack)))"
  by pat_completeness auto
termination
  by (relation "measures [\<lambda>(depth, i, pos, l). i, \<lambda>(depth, i, pos, l). length pos]")
    (auto dest: deref_length)

definition skip_srch_last :: "('a \<Rightarrow> nat) \<Rightarrow> 'a list \<Rightarrow> 'a option \<times> 'a list list" where
  "skip_srch_last depth head =
     (let (r, stack) = skip_last_loop depth WT_SKIP_MAXDEPTH head None in (r, rev stack))"

subsection \<open>Linking and unlinking\<close>

text \<open>
  \<^verbatim>\<open>x->next[i] = *stack[i]; *stack[i] = x\<close> for the levels of \<open>x\<close>, and \<^verbatim>\<open>*stack[i] = x->next[i]\<close> for the
  element the stack points to: on the represented list both happen at the level-0 position.
\<close>

definition skip_link :: "'a list list \<Rightarrow> 'a \<Rightarrow> 'a list \<Rightarrow> 'a list" where
  "skip_link stack x head =
     (let pos = stack ! 0 in take (length head - length pos) head @ x # pos)"

definition skip_unlink :: "'a list list \<Rightarrow> 'a list \<Rightarrow> 'a list" where
  "skip_unlink stack head =
     (let pos = stack ! 0 in take (length head - length pos) head @ tl pos)"

definition level :: "('a \<Rightarrow> nat) \<Rightarrow> nat \<Rightarrow> 'a list \<Rightarrow> 'a list" where
  "level depth i xs = filter (\<lambda>e. i < depth e) xs"

subsection \<open>The searches find what a linear search finds\<close>

abbreviation ascending :: "('a \<Rightarrow> int) \<Rightarrow> 'a list \<Rightarrow> bool" where
  "ascending key \<equiv> sorted_wrt (\<lambda>a b. key a < key b)"

lemma deref_split:
  assumes "deref depth i pos = e # pos'"
  obtains skipped where "pos = skipped @ e # pos'" "\<forall>x \<in> set skipped. \<not> i < depth x" "i < depth e"
  using assms that [of "takeWhile (\<lambda>e. \<not> i < depth e) pos"] unfolding deref_def
  by (metis hd_dropWhile list.distinct(1) list.sel(1) set_takeWhileD takeWhile_dropWhile_id)

lemma dropWhile_lower:
  assumes "ascending key (skipped @ e # pos')" "key e < k"
  shows "dropWhile (\<lambda>x. key x < k) (skipped @ e # pos') = dropWhile (\<lambda>x. key x < k) pos'"
  using assms by (induction skipped) auto

lemma dropWhile_not_lower:
  assumes "ascending key (e # pos')" "\<not> key e < k"
  shows "dropWhile (\<lambda>x. key x < k) (e # pos') = e # pos'"
  using assms by simp

lemma deref_level: "deref depth i pos = [] \<longleftrightarrow> level depth i pos = []"
  by (simp add: deref_def level_def filter_empty_conv)

lemma level_dropWhile_skipped:
  assumes "\<forall>x \<in> set skipped. \<not> i < depth x" "\<not> key e < k"
  shows "level depth i (dropWhile (\<lambda>x. key x < k) (skipped @ e # pos')) = level depth i (e # pos')"
    and "level depth i (skipped @ e # pos') = level depth i (e # pos')"
  using assms by (induction skipped) (auto simp: level_def)

lemma level_dropWhile_empty: "level depth i pos = [] \<Longrightarrow> level depth i (dropWhile P pos) = []"
  by (auto simp: level_def filter_empty_conv dest: set_dropWhileD)

lemma length_skip_srch_loop [simp]: "length (skip_srch_loop key depth n k pos) = n"
  by (induction key depth n k pos rule: skip_srch_loop.induct) (auto split: list.splits)

text \<open>Every stack entry cuts its level where the linear search cuts the list.\<close>

lemma skip_srch_loop_levels:
  assumes "ascending key pos" "j < n"
  shows "level depth j (rev (skip_srch_loop key depth n k pos) ! j) =
     level depth j (dropWhile (\<lambda>x. key x < k) pos)"
  using assms
proof (induction key depth n k pos rule: skip_srch_loop.induct)
  case (2 key depth i k pos)
  have top: "level depth i pos = level depth i (dropWhile (\<lambda>x. key x < k) pos)"
    if "\<And>e pos'. deref depth i pos = e # pos' \<Longrightarrow> \<not> key e < k"
  proof (cases "deref depth i pos")
    case Nil
    then show ?thesis by (metis deref_level level_dropWhile_empty)
  next
    case (Cons e pos')
    then obtain skipped where s: "pos = skipped @ e # pos'" "\<forall>x \<in> set skipped. \<not> i < depth x"
      by (rule deref_split)
    show ?thesis
      unfolding s(1) using level_dropWhile_skipped [of skipped i depth key e k pos'] s(2) that [OF Cons] by simp
  qed
  have lower: ?case if "skip_srch_loop key depth (Suc i) k pos = pos # skip_srch_loop key depth i k pos"
      "\<And>e pos'. deref depth i pos = e # pos' \<Longrightarrow> \<not> key e < k"
      "j < i \<Longrightarrow> level depth j (rev (skip_srch_loop key depth i k pos) ! j) =
         level depth j (dropWhile (\<lambda>x. key x < k) pos)"
    using that top "2.prems"(2) by (auto simp: nth_append less_Suc_eq)
  show ?case
  proof (cases "deref depth i pos")
    case Nil
    with "2.IH"(1) "2.prems" show ?thesis by (intro lower) auto
  next
    case (Cons e pos')
    then obtain skipped where s: "pos = skipped @ e # pos'" by (rule deref_split)
    show ?thesis
    proof (cases "key e < k")
      case True
      have "ascending key pos'" using "2.prems"(1) by (simp add: s sorted_wrt_append)
      with "2.IH"(2) [OF Cons True] "2.prems"(2) True Cons dropWhile_lower [of key skipped e pos' k] "2.prems"(1) s
      show ?thesis by simp
    next
      case False
      with "2.IH"(3) [OF Cons False] "2.prems" Cons show ?thesis by (intro lower) auto
    qed
  qed
qed simp

lemma skip_srch_loop_suffix: "s \<in> set (skip_srch_loop key depth n k pos) \<Longrightarrow> suffix s pos"
proof (induction key depth n k pos rule: skip_srch_loop.induct)
  case (2 key depth i k pos)
  show ?case
  proof (cases "deref depth i pos")
    case Nil
    with "2.IH"(1) "2.prems" show ?thesis by auto
  next
    case (Cons e pos')
    then obtain skipped where "pos = skipped @ e # pos'" by (rule deref_split)
    then have "suffix pos' pos" by (simp add: suffix_def)
    with Cons "2.IH"(2,3) "2.prems" show ?thesis
      by (auto split: if_splits intro: suffix_order.trans)
  qed
qed simp

lemma level_0: "\<forall>x \<in> set xs. 0 < depth x \<Longrightarrow> level depth 0 xs = xs"
  by (simp add: level_def)

lemma deref_0: "\<forall>x \<in> set xs. 0 < depth x \<Longrightarrow> deref depth 0 xs = xs"
  by (cases xs) (auto simp: deref_def)

lemma skip_srch_0:
  assumes "ascending key xs" "\<forall>x \<in> set xs. 0 < depth x"
  shows "skip_srch key depth k xs ! 0 = dropWhile (\<lambda>x. key x < k) xs"
proof -
  let ?s = "skip_srch key depth k xs ! 0"
  have "?s \<in> set (skip_srch_loop key depth WT_SKIP_MAXDEPTH k xs)"
    unfolding skip_srch_def by (metis length_rev length_skip_srch_loop nth_mem set_rev zero_less_numeral)
  then have "suffix ?s xs" by (rule skip_srch_loop_suffix)
  then have "?s = level depth 0 ?s"
    using assms(2) by (intro level_0 [symmetric]) (auto dest: set_mono_suffix)
  also have "\<dots> = level depth 0 (dropWhile (\<lambda>x. key x < k) xs)"
    unfolding skip_srch_def by (rule skip_srch_loop_levels [OF assms(1)]) simp
  also have "\<dots> = dropWhile (\<lambda>x. key x < k) xs"
    using assms(2) by (intro level_0) (auto dest: set_dropWhileD)
  finally show ?thesis .
qed

lemma skip_pair_loop_correct:
  assumes "ascending key pos" "\<forall>x \<in> set pos. 0 < depth x" "0 < n"
  shows "skip_pair_loop key depth n k pos before after =
    (let lower = takeWhile (\<lambda>x. key x < k) pos; upper = dropWhile (\<lambda>x. key x < k) pos
     in (if lower = [] then before else Some (last lower), if upper = [] then after else Some (hd upper)))"
  using assms
proof (induction key depth n k pos before after rule: skip_pair_loop.induct)
  case (2 key depth i k pos before after)
  show ?case
  proof (cases "deref depth i pos")
    case Nil
    have "pos = []" if "i = 0" using Nil "2.prems"(2) that by (simp add: deref_0)
    with Nil "2.IH"(1) "2.prems" show ?thesis by (cases "i = 0") auto
  next
    case (Cons e pos')
    then obtain skipped where s: "pos = skipped @ e # pos'" by (rule deref_split)
    show ?thesis
    proof (cases "key e < k")
      case True
      have low: "\<forall>x \<in> set skipped. key x < k"
        using "2.prems"(1) True by (auto simp: s sorted_wrt_append)
      have "ascending key pos'" "\<forall>x \<in> set pos'. 0 < depth x"
        using "2.prems" by (auto simp: s sorted_wrt_append)
      then show ?thesis
        using "2.IH"(2) [OF Cons True] Cons True low by (simp add: s Let_def)
    next
      case False
      have "pos = e # pos'" if "i = 0" using Cons "2.prems"(2) that by (simp add: deref_0)
      moreover have "dropWhile (\<lambda>x. key x < k) pos \<noteq> []" using False by (auto simp: s)
      ultimately show ?thesis
        using "2.IH"(3) [OF Cons False] "2.prems" Cons False by (cases "i = 0") (auto simp: Let_def)
    qed
  qed
qed simp

lemma skip_last_loop_correct:
  assumes "\<forall>x \<in> set pos. 0 < depth x" "0 < n"
  shows "fst (skip_last_loop depth n pos lst) = (if pos = [] then lst else Some (last pos)) \<and>
     snd (skip_last_loop depth n pos lst) \<noteq> [] \<and> last (snd (skip_last_loop depth n pos lst)) = []"
  using assms
proof (induction depth n pos lst rule: skip_last_loop.induct)
  case (2 depth i pos lst)
  show ?case
  proof (cases "deref depth i pos")
    case Nil
    have "pos = []" if "i = 0" using Nil "2.prems"(1) that by (simp add: deref_0)
    with Nil "2.IH"(1) "2.prems" show ?thesis by (cases "i = 0") (auto simp: split_def Let_def)
  next
    case (Cons e pos')
    then obtain skipped where "pos = skipped @ e # pos'" by (rule deref_split)
    with "2.IH"(2) [OF Cons] "2.prems" Cons show ?thesis by auto
  qed
qed simp

lemma ascending_takeWhile: "ascending key xs \<Longrightarrow> takeWhile (\<lambda>x. key x < k) xs = filter (\<lambda>x. key x < k) xs"
  by (induction xs) (auto simp: filter_empty_conv intro!: filter_False [symmetric])

lemma ascending_dropWhile: "ascending key xs \<Longrightarrow> dropWhile (\<lambda>x. key x < k) xs = filter (\<lambda>x. \<not> key x < k) xs"
  by (induction xs) (auto simp: filter_id_conv intro!: filter_True [symmetric])

lemma rev_nth_0: "xs \<noteq> [] \<Longrightarrow> rev xs ! 0 = last xs"
  by (simp add: rev_nth last_conv_nth)

lemma take_cut: "take (length xs - length (dropWhile P xs)) xs = takeWhile P xs"
  by (metis add_diff_cancel_right' length_append takeWhile_dropWhile_id takeWhile_eq_take)

subsection \<open>The interface the extent lists use\<close>

text \<open>
  What a user of a skip list keeps up: elements in strictly ascending key order, each on at least the
  lowest and at most all levels. Under this invariant the searches are linear searches, and linking
  and unlinking at the stack they return is inserting into and removing from the sorted list.
\<close>

locale skiplist =
  fixes key :: "'a \<Rightarrow> int" and depth :: "'a \<Rightarrow> nat" and wf :: "'a list \<Rightarrow> bool"
  assumes wf_ascending: "wf xs \<Longrightarrow> ascending key xs"
    and wf_depth: "wf xs \<Longrightarrow> x \<in> set xs \<Longrightarrow> 0 < depth x \<and> depth x \<le> WT_SKIP_MAXDEPTH"
begin

lemma srch_0: "wf xs \<Longrightarrow> skip_srch key depth k xs ! 0 = dropWhile (\<lambda>x. key x < k) xs"
  using wf_ascending wf_depth by (intro skip_srch_0) auto

lemma srch_levels:
  "wf xs \<Longrightarrow> i < WT_SKIP_MAXDEPTH \<Longrightarrow>
   level depth i (skip_srch key depth k xs ! i) = level depth i (dropWhile (\<lambda>x. key x < k) xs)"
  unfolding skip_srch_def using wf_ascending by (intro skip_srch_loop_levels) auto

lemma srch_pair:
  "wf xs \<Longrightarrow> skip_srch_pair key depth k xs =
    (let lower = takeWhile (\<lambda>x. key x < k) xs; upper = dropWhile (\<lambda>x. key x < k) xs
     in (if lower = [] then None else Some (last lower), if upper = [] then None else Some (hd upper)))"
  unfolding skip_srch_pair_def using wf_ascending wf_depth by (intro skip_pair_loop_correct) auto

lemma srch_last:
  assumes "wf xs"
  shows "fst (skip_srch_last depth xs) = (if xs = [] then None else Some (last xs))"
    and "snd (skip_srch_last depth xs) ! 0 = []"
proof -
  have *: "fst (skip_last_loop depth WT_SKIP_MAXDEPTH xs None) = (if xs = [] then None else Some (last xs)) \<and>
     snd (skip_last_loop depth WT_SKIP_MAXDEPTH xs None) \<noteq> [] \<and>
     last (snd (skip_last_loop depth WT_SKIP_MAXDEPTH xs None)) = []"
    using wf_depth [OF assms] by (intro skip_last_loop_correct) auto
  then show "fst (skip_srch_last depth xs) = (if xs = [] then None else Some (last xs))"
    by (simp add: skip_srch_last_def split_def Let_def)
  show "snd (skip_srch_last depth xs) ! 0 = []"
    using * by (simp add: skip_srch_last_def split_def Let_def rev_nth_0)
qed

lemma link_srch:
  "wf xs \<Longrightarrow> skip_link (skip_srch key depth k xs) x xs =
     takeWhile (\<lambda>x. key x < k) xs @ x # dropWhile (\<lambda>x. key x < k) xs"
  by (simp add: skip_link_def srch_0 Let_def take_cut)

lemma unlink_srch:
  "wf xs \<Longrightarrow> skip_unlink (skip_srch key depth k xs) xs =
     takeWhile (\<lambda>x. key x < k) xs @ tl (dropWhile (\<lambda>x. key x < k) xs)"
  by (simp add: skip_unlink_def srch_0 Let_def take_cut)

text \<open>
  The pointer updates of every level: what level \<open>i\<close> becomes when an element of its depth is linked in
  front of the stack entry of that level is what level \<open>i\<close> of the new list is.
\<close>

lemma link_levels:
  assumes "wf xs" "i < WT_SKIP_MAXDEPTH"
  shows "level depth i (skip_link (skip_srch key depth k xs) x xs) =
    take (length (level depth i xs) - length (level depth i (skip_srch key depth k xs ! i))) (level depth i xs) @
    (if i < depth x then [x] else []) @ level depth i (skip_srch key depth k xs ! i)"
proof -
  have xs: "level depth i xs =
      level depth i (takeWhile (\<lambda>x. key x < k) xs) @ level depth i (dropWhile (\<lambda>x. key x < k) xs)"
    unfolding level_def by (simp flip: filter_append)
  show ?thesis
    unfolding link_srch [OF assms(1)] srch_levels [OF assms] by (subst xs, subst xs) (simp add: level_def)
qed

end

end
