(* ===== verification/Lexcmp.thy ===== *)
theory Lexcmp
  imports Prelude "HOL-Library.Sublist"
begin

text \<open>
  Key comparison, \<^verbatim>\<open>src/src/include/btree_cmp_inline.h\<close>: \<^verbatim>\<open>__wt_lex_compare\<close>, \<^verbatim>\<open>__wt_compare\<close>,
  \<^verbatim>\<open>__wt_prefix_match\<close>, \<^verbatim>\<open>__wt_lex_compare_skip\<close>, \<^verbatim>\<open>__wt_compare_skip\<close> and \<^verbatim>\<open>__wt_lex_compare_short\<close>, for
  the three builds the preprocessor selects (SSE2, NEON, portable). The theorems show that every
  build computes the reference order \<^const>\<open>lexcmp\<close>, that the skipping variant returns the length of
  the common prefix, and where the routines leave the order: prefix comparisons of long items with
  embedded zero bytes, and short comparisons of an empty item.
\<close>

subsection \<open>Vector instructions\<close>

datatype build = X86INTRIN | ARM_NEON | PORTABLE

abbreviation WT_VECTOR_SIZE :: nat where
  "WT_VECTOR_SIZE \<equiv> 16"

text \<open>
  \<^verbatim>\<open>_mm_cmpeq_epi8\<close> and \<^verbatim>\<open>vceqq_u8\<close> compare lane by lane (255 for equal lanes, else 0);
  \<^verbatim>\<open>_mm_movemask_epi8\<close> collects the top bit of each lane and \<^verbatim>\<open>vminvq_u8\<close> is the smallest lane.
\<close>

definition cmpeq_epi8 :: "bytes \<Rightarrow> bytes \<Rightarrow> bytes" where
  "cmpeq_epi8 u t = map2 (\<lambda>a b. if a = b then 255 else 0) u t"

definition movemask_epi8 :: "bytes \<Rightarrow> nat" where
  "movemask_epi8 v = horner_sum of_bool 2 (map (\<lambda>b. bit b 7) v)"

definition vminvq_u8 :: "bytes \<Rightarrow> u8" where
  "vminvq_u8 v = foldr min v 255"

definition chunk_equal :: "build \<Rightarrow> bytes \<Rightarrow> bytes \<Rightarrow> bool" where
  "chunk_equal bd u t =
     (let res_eq = cmpeq_epi8 (take WT_VECTOR_SIZE u) (take WT_VECTOR_SIZE t)
      in case bd of X86INTRIN \<Rightarrow> movemask_epi8 res_eq = 65535
                  | ARM_NEON \<Rightarrow> vminvq_u8 res_eq = 255
                  | PORTABLE \<Rightarrow> False)"

text \<open>
  The vector loop: \<open>len\<close> counts down by 16 while chunks are equal, the pointers and the number of
  matched bytes advance. The aligned and the unaligned loops of the SSE2 build differ only in the
  load instruction.
\<close>

function vec_loop ::
  "build \<Rightarrow> nat \<Rightarrow> bytes \<Rightarrow> bytes \<Rightarrow> nat \<Rightarrow> nat \<times> bytes \<times> bytes \<times> nat" where
  "vec_loop bd len u t m =
     (if len > 0 \<and> chunk_equal bd u t
      then vec_loop bd (len - WT_VECTOR_SIZE) (drop WT_VECTOR_SIZE u) (drop WT_VECTOR_SIZE t)
             (m + WT_VECTOR_SIZE)
      else (len, u, t, m))"
  by pat_completeness auto
termination
  by (relation "measure (\<lambda>(bd, len, u, t, m). len)") auto

declare vec_loop.simps [simp del]

definition vec_phase ::
  "build \<Rightarrow> bool \<Rightarrow> nat \<Rightarrow> bytes \<Rightarrow> bytes \<Rightarrow> nat \<Rightarrow> nat \<times> bytes \<times> bytes \<times> nat" where
  "vec_phase bd runs len u t m =
     (if (case bd of X86INTRIN \<Rightarrow> len \<ge> WT_VECTOR_SIZE * 2
                   | ARM_NEON \<Rightarrow> len \<ge> WT_VECTOR_SIZE
                   | PORTABLE \<Rightarrow> False)
      then let remain = len mod WT_VECTOR_SIZE;
               (len', u', t', m') =
                 (if runs then vec_loop bd (len - remain) u t m else (len - remain, u, t, m))
           in (len' + remain, u', t', m')
      else (len, u, t, m))"

subsection \<open>Comparison\<close>

text \<open>
  The byte loop. \<open>None\<close>: the loop ran to its end without deciding.
\<close>

fun lex_loop :: "bool \<Rightarrow> nat \<Rightarrow> bytes \<Rightarrow> bytes \<Rightarrow> int option result" where
  "lex_loop pfx 0 u t = Inr None"
| "lex_loop pfx (Suc n) (a # u) (b # t) =
     (if pfx \<and> (a = 0 \<or> b = 0) then Inr (Some (if a = 0 then 0 else 1))
      else if a \<noteq> b then Inr (Some (if a < b then -1 else 1))
      else lex_loop pfx n u t)"
| "lex_loop pfx (Suc n) u t = Inl OOB_READ"

definition wt_lex_compare :: "build \<Rightarrow> bytes \<Rightarrow> bytes \<Rightarrow> bool \<Rightarrow> int result" where
  "wt_lex_compare bd user_item tree_item pfx =
     (let usz = length user_item; tsz = length tree_item;
          (len, userp, treep, _) = vec_phase bd True (min usz tsz) user_item tree_item 0
      in WT_RET (lex_loop pfx len userp treep) (\<lambda>r.
           case r of Some c \<Rightarrow> Inr c
           | None \<Rightarrow> Inr (if usz = tsz \<or> (pfx \<and> usz < tsz) then 0
                          else if usz < tsz then -1 else 1)))"

text \<open>
  \<^verbatim>\<open>__wt_compare\<close>: the application's collator, code outside the library, is a parameter.
\<close>

definition wt_compare ::
  "build \<Rightarrow> (bytes \<Rightarrow> bytes \<Rightarrow> int result) option \<Rightarrow> bytes \<Rightarrow> bytes \<Rightarrow> int result" where
  "wt_compare bd collator user_item tree_item =
     (case collator of None \<Rightarrow> wt_lex_compare bd user_item tree_item False
      | Some compare \<Rightarrow> compare user_item tree_item)"

definition wt_prefix_match :: "build \<Rightarrow> bytes \<Rightarrow> bytes \<Rightarrow> int result" where
  "wt_prefix_match bd pfx tree_item = wt_lex_compare bd pfx tree_item True"

text \<open>
  \<^verbatim>\<open>__wt_lex_compare_skip\<close>: \<open>match\<close> is the value behind \<^verbatim>\<open>matchp\<close>; the result carries its new
  value. The NEON build enters the vector loop only when both pointers are aligned.
\<close>

fun skip_loop :: "nat \<Rightarrow> bytes \<Rightarrow> bytes \<Rightarrow> nat \<Rightarrow> (int option \<times> nat) result" where
  "skip_loop 0 u t m = Inr (None, m)"
| "skip_loop (Suc n) (a # u) (b # t) m =
     (if a \<noteq> b then Inr (Some (if a < b then -1 else 1), m) else skip_loop n u t (Suc m))"
| "skip_loop (Suc n) u t m = Inl OOB_READ"

definition wt_lex_compare_skip ::
  "build \<Rightarrow> bool \<Rightarrow> bytes \<Rightarrow> bytes \<Rightarrow> nat \<Rightarrow> (int \<times> nat) result" where
  "wt_lex_compare_skip bd aligned user_item tree_item match =
     (let usz = length user_item; tsz = length tree_item;
          (len, userp, treep, m) =
            vec_phase bd (bd = ARM_NEON \<longrightarrow> aligned) (min usz tsz - match)
              (drop match user_item) (drop match tree_item) match
      in WT_RET (skip_loop len userp treep m) (\<lambda>(r, m').
           case r of Some c \<Rightarrow> Inr (c, m')
           | None \<Rightarrow> Inr (if usz = tsz then 0 else if usz < tsz then -1 else 1, m')))"

definition wt_compare_skip ::
  "build \<Rightarrow> bool \<Rightarrow> (bytes \<Rightarrow> bytes \<Rightarrow> int result) option \<Rightarrow> bytes \<Rightarrow> bytes \<Rightarrow> nat \<Rightarrow>
     (int \<times> nat) result" where
  "wt_compare_skip bd aligned collator user_item tree_item match =
     (case collator of None \<Rightarrow> wt_lex_compare_skip bd aligned user_item tree_item match
      | Some compare \<Rightarrow> WT_RET (compare user_item tree_item) (\<lambda>c. Inr (c, match)))"

text \<open>
  \<^verbatim>\<open>__wt_lex_compare_short\<close>: \<open>case_n\<close> is the chain of fall-through cases entered at \<open>case n\<close>; for
  \<open>n = 0\<close> (an item of size 0) no case matches and the final comparison is reached at once.
\<close>

fun short_last :: "bytes \<Rightarrow> bytes \<Rightarrow> int result" where
  "short_last (a # u) (b # t) = Inr (if a < b then -1 else 1)"
| "short_last u t = Inl OOB_READ"

fun short_cases :: "nat \<Rightarrow> nat \<Rightarrow> nat \<Rightarrow> bytes \<Rightarrow> bytes \<Rightarrow> int result" where
  "short_cases 0 usz tsz u t = short_last u t"
| "short_cases (Suc n) usz tsz (a # u) (b # t) =
     (if a \<noteq> b then short_last (a # u) (b # t)
      else if n = 0 then Inr (if usz = tsz then 0 else if usz < tsz then -1 else 1)
      else short_cases n usz tsz u t)"
| "short_cases (Suc n) usz tsz u t = Inl OOB_READ"

definition wt_lex_compare_short :: "bytes \<Rightarrow> bytes \<Rightarrow> int result" where
  "wt_lex_compare_short user_item tree_item =
     (let usz = length user_item; tsz = length tree_item; len = min usz tsz
      in if len \<le> 9 then short_cases len usz tsz user_item tree_item
         else short_last user_item tree_item)"

subsection \<open>Equality of chunks\<close>

lemma length_cmpeq_epi8: "length (cmpeq_epi8 u t) = min (length u) (length t)"
  by (simp add: cmpeq_epi8_def)

lemma horner_all_ones:
  "horner_sum of_bool (2 :: nat) bs = 2 ^ length bs - 1 \<longleftrightarrow> (\<forall>b \<in> set bs. b)"
proof (induction bs)
  case Nil
  then show ?case by simp
next
  case (Cons b bs)
  have le: "horner_sum of_bool (2 :: nat) bs < 2 ^ length bs" for bs
    using horner_sum_of_bool_2_less [of bs] by (simp add: horner_sum_of_bool_2_less)
  have "horner_sum of_bool (2 :: nat) (b # bs) = 2 ^ length (b # bs) - 1 \<longleftrightarrow>
      b \<and> horner_sum of_bool (2 :: nat) bs = 2 ^ length bs - 1"
    using le [of bs] by (cases b) (simp_all, presburger+)
  with Cons.IH show ?case by simp
qed

lemma movemask_all:
  "length v = 16 \<Longrightarrow> movemask_epi8 v = 65535 \<longleftrightarrow> (\<forall>b \<in> set v. bit b 7)"
  using horner_all_ones [of "map (\<lambda>b. bit b 7) v"] by (simp add: movemask_epi8_def)

lemma vminvq_all: "vminvq_u8 v = 255 \<longleftrightarrow> (\<forall>b \<in> set v. b = 255)"
proof (induction v)
  case Nil
  then show ?case by (simp add: vminvq_u8_def)
next
  case (Cons a v)
  have top: "(c :: u8) \<le> 255" for c
    using unat_lt8 [of c] by (simp add: word_le_nat_alt)
  have "min a c = 255 \<longleftrightarrow> a = 255 \<and> c = 255" for c :: u8
    using top [of a] top [of c] by (auto simp: min_def)
  with Cons show ?case by (simp add: vminvq_u8_def)
qed

lemma cmpeq_lanes:
  assumes "length u = length t"
  shows "(\<forall>b \<in> set (cmpeq_epi8 u t). bit b 7) \<longleftrightarrow> u = t"
    and "(\<forall>b \<in> set (cmpeq_epi8 u t). b = 255) \<longleftrightarrow> u = t"
  using assms by (induction u t rule: list_induct2) (auto simp: cmpeq_epi8_def)

lemma chunk_equal_iff:
  assumes "bd \<noteq> PORTABLE" "16 \<le> length u" "16 \<le> length t"
  shows "chunk_equal bd u t \<longleftrightarrow> take 16 u = take 16 t"
proof -
  have "length (cmpeq_epi8 (take 16 u) (take 16 t)) = 16"
    using assms by (simp add: length_cmpeq_epi8)
  moreover have "length (take 16 u) = length (take 16 t)"
    using assms by simp
  ultimately show ?thesis
    using assms(1)
    by (cases bd) (simp_all add: chunk_equal_def Let_def movemask_all vminvq_all cmpeq_lanes)
qed

subsection \<open>The vector loop skips equal bytes\<close>

lemma vec_loop_skips:
  assumes "bd \<noteq> PORTABLE" "16 dvd len" "len \<le> length u" "len \<le> length t"
  shows "\<exists>k \<le> len. vec_loop bd len u t m = (len - k, drop k u, drop k t, m + k) \<and>
    take k u = take k t"
  using assms
proof (induction bd len u t m rule: vec_loop.induct)
  case (1 bd len u t m)
  show ?case
  proof (cases "len > 0 \<and> chunk_equal bd u t")
    case False
    then have "vec_loop bd len u t m = (len - 0, drop 0 u, drop 0 t, m + 0)"
      by (subst vec_loop.simps) auto
    then show ?thesis by (metis le0 take_0)
  next
    case True
    then have len: "16 \<le> len"
      using "1.prems"(2) by (simp add: dvd_imp_le)
    with True "1.prems" have eq: "take 16 u = take 16 t"
      by (simp add: chunk_equal_iff)
    have "16 dvd len - 16" "len - 16 \<le> length (drop 16 u)" "len - 16 \<le> length (drop 16 t)"
      using "1.prems" len by simp_all
    then obtain k where k: "k \<le> len - 16"
      "vec_loop bd (len - 16) (drop 16 u) (drop 16 t) (m + 16) =
        (len - 16 - k, drop k (drop 16 u), drop k (drop 16 t), m + 16 + k)"
      "take k (drop 16 u) = take k (drop 16 t)"
      using "1.IH" [OF True "1.prems"(1)] by blast
    have "take (16 + k) u = take (16 + k) t"
      using eq k(3) by (simp add: take_add)
    moreover have "vec_loop bd len u t m =
        (len - (16 + k), drop (16 + k) u, drop (16 + k) t, m + (16 + k))"
      using True k(2) by (simp add: vec_loop.simps [of bd len] add.commute)
    ultimately show ?thesis
      using k(1) len by (intro exI [of _ "16 + k"]) simp
  qed
qed

lemma vec_phase_skips:
  assumes "len \<le> length u" "len \<le> length t"
  obtains k where "k \<le> len" "vec_phase bd runs len u t m = (len - k, drop k u, drop k t, m + k)"
    "take k u = take k t"
proof (cases "runs \<and> (case bd of X86INTRIN \<Rightarrow> len \<ge> 32 | ARM_NEON \<Rightarrow> len \<ge> 16 | PORTABLE \<Rightarrow> False)")
  case False
  then have "vec_phase bd runs len u t m = (len - 0, drop 0 u, drop 0 t, m + 0)"
    by (auto simp: vec_phase_def Let_def split: build.splits)
  then show ?thesis by (rule that [rotated]) simp_all
next
  case True
  let ?l = "len - len mod 16"
  have "16 dvd ?l" by (rule dvd_minus_mod)
  moreover have "bd \<noteq> PORTABLE" using True by auto
  moreover have "?l \<le> length u" "?l \<le> length t" using assms by simp_all
  ultimately obtain k where k: "k \<le> ?l"
    "vec_loop bd ?l u t m = (?l - k, drop k u, drop k t, m + k)" "take k u = take k t"
    using vec_loop_skips by blast
  have "vec_phase bd runs len u t m = (len - k, drop k u, drop k t, m + k)"
    using True k(1,2) by (auto simp: vec_phase_def Let_def split: build.splits)
  with k show ?thesis by (intro that [of k]) simp_all
qed

subsection \<open>The byte loops\<close>

lemma lex_loop_False:
  "n \<le> length u \<Longrightarrow> n \<le> length t \<Longrightarrow>
     lex_loop False n u t = Inr (if take n u = take n t then None else Some (lexcmp u t))"
  by (induction False n u t rule: lex_loop.induct) (auto simp: not_less_iff_gr_or_eq)

lemma skip_loop_lcp:
  "n \<le> length u \<Longrightarrow> n \<le> length t \<Longrightarrow>
     skip_loop n u t m =
       Inr (if take n u = take n t then (None, m + n)
            else (Some (lexcmp u t), m + length (longest_common_prefix u t)))"
  by (induction n u t m rule: skip_loop.induct) (auto simp: not_less_iff_gr_or_eq)

lemma lexcmp_min_prefix:
  "take (min (length u) (length t)) u = take (min (length u) (length t)) t \<Longrightarrow>
     lexcmp u t = (if length u = length t then 0 else if length u < length t then -1 else 1)"
  by (induction u t rule: lexcmp.induct) auto

lemma lcp_min_prefix:
  "take (min (length u) (length t)) u = take (min (length u) (length t)) t \<Longrightarrow>
     length (longest_common_prefix u t) = min (length u) (length t)"
  by (induction u t rule: longest_common_prefix.induct) auto

lemma lexcmp_drop: "take k u = take k t \<Longrightarrow> lexcmp (drop k u) (drop k t) = lexcmp u t"
  using lexcmp_append [of "take k u" "drop k u" "drop k t"] by (metis append_take_drop_id)

lemma lcp_drop:
  "take k u = take k t \<Longrightarrow> k \<le> length u \<Longrightarrow> k \<le> length t \<Longrightarrow>
     k + length (longest_common_prefix (drop k u) (drop k t)) = length (longest_common_prefix u t)"
proof (induction k arbitrary: u t)
  case 0
  then show ?case by simp
next
  case (Suc k)
  then show ?case by (cases u; cases t) auto
qed

lemma take_min_drop:
  fixes u t :: "'a list"
  assumes "take k u = take k t" "k \<le> min (length u) (length t)"
  shows "take (min (length u) (length t) - k) (drop k u) = take (min (length u) (length t) - k) (drop k t)
    \<longleftrightarrow> take (min (length u) (length t)) u = take (min (length u) (length t)) t"
proof -
  let ?n = "min (length u) (length t)"
  have split: "take ?n xs = take k xs @ take (?n - k) (drop k xs)" for xs :: "'a list"
    using assms(2) by (metis le_add_diff_inverse take_add)
  show ?thesis unfolding split [of u] split [of t] using assms(1) by simp
qed

subsection \<open>The comparison functions compute the reference order\<close>

lemma lex_decision:
  obtains k where "k \<le> min (length u) (length t)"
    "vec_phase bd True (min (length u) (length t)) u t 0 =
       (min (length u) (length t) - k, drop k u, drop k t, k)"
    "lex_loop False (min (length u) (length t) - k) (drop k u) (drop k t) =
      Inr (if take (min (length u) (length t)) u = take (min (length u) (length t)) t then None
           else Some (lexcmp u t))"
proof -
  let ?n = "min (length u) (length t)"
  obtain k where k: "k \<le> ?n" "vec_phase bd True ?n u t 0 = (?n - k, drop k u, drop k t, 0 + k)"
    "take k u = take k t"
    by (rule vec_phase_skips [of ?n u t bd True 0]) simp_all
  have "lex_loop False (?n - k) (drop k u) (drop k t) =
      Inr (if take ?n u = take ?n t then None else Some (lexcmp u t))"
    using k by (subst lex_loop_False) (simp_all add: take_min_drop lexcmp_drop)
  with k that show ?thesis by simp
qed

lemma wt_lex_compare_lexcmp: "wt_lex_compare bd u t False = Inr (lexcmp u t)"
proof -
  let ?n = "min (length u) (length t)"
  obtain k where "vec_phase bd True ?n u t 0 = (?n - k, drop k u, drop k t, k)"
    "lex_loop False (?n - k) (drop k u) (drop k t) =
      Inr (if take ?n u = take ?n t then None else Some (lexcmp u t))"
    by (rule lex_decision)
  then show ?thesis
    by (simp add: wt_lex_compare_def Let_def lexcmp_min_prefix)
qed

lemma wt_lex_compare_skip_lexcmp:
  assumes "take m u = take m t" "m \<le> min (length u) (length t)"
  shows "wt_lex_compare_skip bd al u t m = Inr (lexcmp u t, length (longest_common_prefix u t))"
proof -
  let ?n = "min (length u) (length t)"
  obtain k where k: "k \<le> ?n - m"
    "vec_phase bd (bd = ARM_NEON \<longrightarrow> al) (?n - m) (drop m u) (drop m t) m =
       (?n - m - k, drop k (drop m u), drop k (drop m t), m + k)"
    "take k (drop m u) = take k (drop m t)"
    by (rule vec_phase_skips [of "?n - m" "drop m u" "drop m t" bd "bd = ARM_NEON \<longrightarrow> al" m]) auto
  have eq: "take (m + k) u = take (m + k) t"
    using assms k(3) by (simp add: take_add)
  have le: "m + k \<le> ?n"
    using assms(2) k(1) by arith
  have len: "m + k + length (longest_common_prefix (drop (m + k) u) (drop (m + k) t)) =
      length (longest_common_prefix u t)"
    using lcp_drop [OF eq] le by simp
  have "skip_loop (?n - (m + k)) (drop (m + k) u) (drop (m + k) t) (m + k) =
      Inr (if take ?n u = take ?n t then (None, ?n)
           else (Some (lexcmp u t), length (longest_common_prefix u t)))"
    using eq le len by (subst skip_loop_lcp) (simp_all add: take_min_drop lexcmp_drop)
  then show ?thesis
    using k(2) lcp_min_prefix [of u t] lexcmp_min_prefix [of u t]
    by (simp add: wt_lex_compare_skip_def Let_def add.commute [of k m])
qed

lemma short_cases_lexcmp:
  "0 < n \<Longrightarrow> n = min (length u) (length t) \<Longrightarrow>
     short_cases n (p + length u) (p + length t) u t = Inr (lexcmp u t)"
proof (induction n "p + length u" "p + length t" u t arbitrary: p rule: short_cases.induct)
  case (2 n a u b t)
  show ?case
  proof (cases "a = b \<and> n > 0")
    case True
    then have "short_cases n (p + length (a # u)) (p + length (b # t)) u t = Inr (lexcmp u t)"
      using "2.hyps" [of "Suc p"] "2.prems" by simp
    with True show ?thesis by simp
  next
    case False
    show ?thesis
    proof (cases "a = b")
      case True
      with False "2.prems" have "min (length u) (length t) = 0" by simp
      then have "lexcmp u t = (if length u = length t then 0 else if length u < length t then -1 else 1)"
        using lexcmp_min_prefix [of u t] by simp
      with True False show ?thesis by simp
    next
      case False
      then show ?thesis by auto
    qed
  qed
qed auto

lemma wt_lex_compare_short_lexcmp:
  assumes "u \<noteq> []" "t \<noteq> []" "min (length u) (length t) \<le> 9"
  shows "wt_lex_compare_short u t = Inr (lexcmp u t)"
  using short_cases_lexcmp [of "min (length u) (length t)" u t 0] assms
  by (simp add: wt_lex_compare_short_def Let_def)

lemma lex_loop_nonzero:
  "0 \<notin> set u \<Longrightarrow> 0 \<notin> set t \<Longrightarrow> lex_loop pfx n u t = lex_loop False n u t"
  by (induction pfx n u t rule: lex_loop.induct) auto

lemma prefix_iff_take_min:
  "prefix u t \<longleftrightarrow> take (min (length u) (length t)) u = take (min (length u) (length t)) t \<and> length u \<le> length t"
proof
  show "prefix u t" if "take (min (length u) (length t)) u = take (min (length u) (length t)) t \<and> length u \<le> length t"
    using that take_is_prefix [of "length u" t] by (auto simp: min_absorb1)
qed (auto simp: prefix_def)

subsection \<open>Encodings compared byte by byte\<close>

text \<open>
  An encoding whose byte order is a numeric order: keys packed with it are compared without
  unpacking them.
\<close>

locale ordered_codec = limited_codec lpack lunpack size_of
  for lpack :: "nat \<Rightarrow> 'a \<Rightarrow> bytes result" and lunpack size_of +
  fixes num :: "'a \<Rightarrow> int"
  assumes pack_less: "lpack 0 x = Inr bs \<Longrightarrow> lpack 0 y = Inr cs \<Longrightarrow> num x < num y \<Longrightarrow> lexcmp bs cs = -1"
    and num_inj: "num x = num y \<Longrightarrow> x = y"
begin

lemma lexcmp_pack:
  assumes "lpack 0 x = Inr bs" "lpack 0 y = Inr cs"
  shows "lexcmp bs cs = cmp (num x) (num y)"
proof (cases "num x" "num y" rule: linorder_cases)
  case less
  with assms show ?thesis by (simp add: pack_less cmp_def)
next
  case equal
  with num_inj have "x = y" by blast
  with assms show ?thesis by (simp add: cmp_def)
next
  case greater
  with assms pack_less [of y cs x bs] lexcmp_neg [of bs cs] show ?thesis by (simp add: cmp_def)
qed

lemma compare_packed:
  assumes "lpack 0 x = Inr bs" "lpack 0 y = Inr cs"
  shows "wt_lex_compare bd bs cs False = Inr (cmp (num x) (num y))"
  by (simp add: wt_lex_compare_lexcmp lexcmp_pack [OF assms])

end

subsection \<open>Properties\<close>


text \<open>
  on items without zero bytes \<^verbatim>\<open>__wt_prefix_match\<close> returns 0 exactly when the first item is a prefix
  of the second, and otherwise the lexicographic order, in every build.
\<close>

theorem prefix_match_correct:
  assumes "0 \<notin> set u" "0 \<notin> set t"
  shows "wt_prefix_match bd u t = Inr (if prefix u t then 0 else lexcmp u t)"
proof -
  let ?n = "min (length u) (length t)"
  obtain k where k: "k \<le> ?n" "vec_phase bd True ?n u t 0 = (?n - k, drop k u, drop k t, k)"
    "lex_loop False (?n - k) (drop k u) (drop k t) =
      Inr (if take ?n u = take ?n t then None else Some (lexcmp u t))"
    by (rule lex_decision)
  have "lex_loop True (?n - k) (drop k u) (drop k t) = lex_loop False (?n - k) (drop k u) (drop k t)"
    using assms by (intro lex_loop_nonzero) (auto dest: in_set_dropD)
  then have a: "wt_prefix_match bd u t =
      Inr (if take ?n u = take ?n t then if length u \<le> length t then 0 else 1 else lexcmp u t)"
    using k by (simp add: wt_prefix_match_def wt_lex_compare_def Let_def)
  show ?thesis
  proof (cases "take ?n u = take ?n t")
    case True
    show ?thesis
      unfolding a prefix_iff_take_min using lexcmp_min_prefix [OF True] True by simp
  next
    case False
    then show ?thesis
      unfolding a prefix_iff_take_min by (simp only: if_False simp_thms)
  qed
qed

theorem prefix_match_correct_witness:
  "wt_prefix_match PORTABLE [97, 98] [97, 98, 99] = Inr 0"
  using prefix_match_correct [of "[97, 98]" "[97, 98, 99]" PORTABLE] by simp

text \<open>
  \<^verbatim>\<open>__wt_lex_compare_skip\<close>, started with any number of bytes known to be equal, returns the same order
  and leaves the exact length of the common prefix in \<^verbatim>\<open>*matchp\<close>; the pointer alignment that selects the
  NEON loop does not matter.
\<close>

theorem lex_compare_skip_correct:
  assumes "take m u = take m t" "m \<le> min (length u) (length t)"
  shows "wt_lex_compare_skip bd aligned u t m = Inr (lexcmp u t, length (longest_common_prefix u t))"
  using assms by (rule wt_lex_compare_skip_lexcmp)

theorem lex_compare_skip_correct_witness:
  "wt_lex_compare_skip X86INTRIN True [1, 2, 3] [1, 2, 4, 5] 1 = Inr (-1, 2)"
  using lex_compare_skip_correct [of 1 "[1, 2, 3]" "[1, 2, 4, 5]" X86INTRIN True] by simp

text \<open>
  C20: for two items of which neither is empty and the shorter one has at most nine bytes,
  \<^verbatim>\<open>__wt_lex_compare_short\<close> agrees with \<^verbatim>\<open>__wt_lex_compare\<close>; on an empty item it reads a byte that is not
  there.
\<close>

theorem lex_compare_short_correct:
  assumes "min (length u) (length t) \<le> 9"
  shows "wt_lex_compare_short u t =
    (if u = [] \<or> t = [] then Inl OOB_READ else wt_lex_compare bd u t False)"
proof (cases "u = [] \<or> t = []")
  case True
  then show ?thesis by (auto simp: wt_lex_compare_short_def Let_def)
next
  case False
  with assms show ?thesis by (simp add: wt_lex_compare_short_lexcmp wt_lex_compare_lexcmp)
qed

theorem lex_compare_short_correct_witness:
  "wt_lex_compare_short [5, 1] [5, 7, 2] = Inr (-1)"
  using lex_compare_short_correct [of "[5, 1]" "[5, 7, 2]" PORTABLE] by (simp add: wt_lex_compare_lexcmp)

end
