(* ===== verification/Intpack.thy ===== *)
theory Intpack
  imports Lexcmp
begin

text \<open>
  Variable-length integer packing, \<^verbatim>\<open>src/src/include/intpack_inline.h\<close>.

  A packing function of the source writes at the position \<^verbatim>\<open>*pp\<close> and advances it; its model returns
  the bytes written from that position on. \<^verbatim>\<open>__wt_vpack_posint\<close> and \<^verbatim>\<open>__wt_vpack_negint\<close> OR the length
  into the marker byte their caller stored, so their models take that byte as the argument \<open>mark\<close>.
  An unpacking function takes the bytes from \<^verbatim>\<open>*pp\<close> on and returns the value with the bytes that follow.
  \<open>maxlen = 0\<close> means that the caller has not limited the buffer, as in the source.

  The theorems: packing then unpacking is the identity, for unsigned and signed values and with any
  bytes following; the packed length is what the size functions say; the byte order of packed
  values is the numeric order; and a failed call fails with the documented error. One value is packed
  without its size check.
\<close>

subsection \<open>Constants and macros\<close>

definition NEG_MULTI_MARKER :: u8 where [wt_macros]: "NEG_MULTI_MARKER = 0x10"
definition NEG_2BYTE_MARKER :: u8 where [wt_macros]: "NEG_2BYTE_MARKER = 0x20"
definition NEG_1BYTE_MARKER :: u8 where [wt_macros]: "NEG_1BYTE_MARKER = 0x40"
definition POS_1BYTE_MARKER :: u8 where [wt_macros]: "POS_1BYTE_MARKER = 0x80"
definition POS_2BYTE_MARKER :: u8 where [wt_macros]: "POS_2BYTE_MARKER = 0xc0"
definition POS_MULTI_MARKER :: u8 where [wt_macros]: "POS_MULTI_MARKER = 0xe0"

definition NEG_1BYTE_MIN :: int where [wt_macros]: "NEG_1BYTE_MIN = - (2 ^ 6)"
definition NEG_2BYTE_MIN :: int where [wt_macros]: "NEG_2BYTE_MIN = - (2 ^ 13) + NEG_1BYTE_MIN"
definition POS_1BYTE_MAX :: u64 where [wt_macros]: "POS_1BYTE_MAX = 2 ^ 6 - 1"
definition POS_2BYTE_MAX :: u64 where [wt_macros]: "POS_2BYTE_MAX = 2 ^ 13 + POS_1BYTE_MAX"

definition WT_INTPACK64_MAXSIZE :: nat where [wt_macros]: "WT_INTPACK64_MAXSIZE = 8 + 1"

definition GET_BITS :: "u64 \<Rightarrow> nat \<Rightarrow> nat \<Rightarrow> u64" where [wt_macros]:
  "GET_BITS x start end' = drop_bit end' (x AND (push_bit start 1 - 1))"

definition WT_SIZE_CHECK_PACK :: "nat \<Rightarrow> nat \<Rightarrow> 'a result \<Rightarrow> 'a result" where [wt_macros]:
  "WT_SIZE_CHECK_PACK l maxl k = (if maxl \<noteq> 0 \<and> l > maxl then Inl ENOMEM else k)"

definition WT_SIZE_CHECK_UNPACK :: "nat \<Rightarrow> nat \<Rightarrow> 'a result \<Rightarrow> 'a result" where [wt_macros]:
  "WT_SIZE_CHECK_UNPACK l maxl k = (if maxl \<noteq> 0 \<and> l > maxl then Inl EINVAL else k)"

text \<open>
  \<^verbatim>\<open>WT_LEADING_ZEROS\<close> in its portable form: the mask moves down one byte per iteration until it
  meets a set byte.
\<close>

function leading_zeros_loop :: "u64 \<Rightarrow> u64 \<Rightarrow> nat \<Rightarrow> nat" where
  "leading_zeros_loop x m i =
     (if x AND m = 0 \<and> i < 8 then leading_zeros_loop x (drop_bit 8 m) (Suc i) else i)"
  by pat_completeness auto
termination
  by (relation "measure (\<lambda>(x, m, i). 8 - i)") auto

declare leading_zeros_loop.simps [simp del]

definition WT_LEADING_ZEROS :: "u64 \<Rightarrow> nat" where
  "WT_LEADING_ZEROS x = leading_zeros_loop x (push_bit 56 0xff) 0"

text \<open>
  The form of a GNU build: \<^verbatim>\<open>__builtin_clzll\<close> counts the zero bits above the highest set bit.
\<close>

definition builtin_clzll :: "u64 \<Rightarrow> nat" where
  "builtin_clzll x = length (takeWhile (\<lambda>i. \<not> bit x i) (rev [0..<64]))"

definition WT_LEADING_ZEROS_gnuc :: "u64 \<Rightarrow> nat" where
  "WT_LEADING_ZEROS_gnuc x = (if x = 0 then 8 else builtin_clzll x div 8)"

subsection \<open>Packing\<close>

text \<open>The loop \<^verbatim>\<open>for (shift = (len - 1) << 3; len != 0; --len, shift -= 8) *p++ = (uint8_t)(x >> shift)\<close>.\<close>

fun put_bytes :: "nat \<Rightarrow> u64 \<Rightarrow> bytes" where
  "put_bytes 0 x = []"
| "put_bytes (Suc n) x = ucast (drop_bit (8 * n) x) # put_bytes n x"

definition wt_vpack_posint :: "u8 \<Rightarrow> nat \<Rightarrow> u64 \<Rightarrow> bytes result" where
  "wt_vpack_posint mark maxlen x =
     (let lz = WT_LEADING_ZEROS x; len = 8 - lz
      in WT_SIZE_CHECK_PACK (len + 1) maxlen
           (Inr ((mark OR (of_nat len AND 0xf)) # put_bytes len x)))"

definition wt_vpack_negint :: "u8 \<Rightarrow> nat \<Rightarrow> u64 \<Rightarrow> bytes result" where
  "wt_vpack_negint mark maxlen x =
     (let lz = WT_LEADING_ZEROS (NOT x); len = 8 - lz
      in WT_SIZE_CHECK_PACK (len + 1) maxlen
           (Inr ((mark OR (of_nat lz AND 0xf)) # put_bytes len x)))"

definition wt_vpack_uint :: "nat \<Rightarrow> u64 \<Rightarrow> bytes result" where
  "wt_vpack_uint maxlen x =
     WT_SIZE_CHECK_PACK 1 maxlen
      (if x \<le> POS_1BYTE_MAX then Inr [POS_1BYTE_MARKER OR ucast (GET_BITS x 6 0)]
       else if x \<le> POS_2BYTE_MAX then
         WT_SIZE_CHECK_PACK 2 maxlen
           (let x' = x - (POS_1BYTE_MAX + 1)
            in Inr [POS_2BYTE_MARKER OR ucast (GET_BITS x' 13 8), ucast (GET_BITS x' 8 0)])
       else if x = POS_2BYTE_MAX + 1 then Inr [POS_MULTI_MARKER OR 1, 0]
       else wt_vpack_posint POS_MULTI_MARKER maxlen (x - (POS_2BYTE_MAX + 1)))"

definition wt_vpack_int :: "nat \<Rightarrow> i64 \<Rightarrow> bytes result" where
  "wt_vpack_int maxlen x =
     WT_SIZE_CHECK_PACK 1 maxlen
      (if sint x < NEG_2BYTE_MIN then wt_vpack_negint NEG_MULTI_MARKER maxlen x
       else if sint x < NEG_1BYTE_MIN then
         WT_SIZE_CHECK_PACK 2 maxlen
           (let x' = x - word_of_int NEG_2BYTE_MIN
            in Inr [NEG_2BYTE_MARKER OR ucast (GET_BITS x' 13 8), ucast (GET_BITS x' 8 0)])
       else if sint x < 0 then
         (let x' = x - word_of_int NEG_1BYTE_MIN
          in Inr [NEG_1BYTE_MARKER OR ucast (GET_BITS x' 6 0)])
       else wt_vpack_uint maxlen x)"

subsection \<open>Unpacking\<close>

text \<open>The loop \<^verbatim>\<open>for (x = acc; len != 0; --len) x = (x << 8) | *p++\<close>.\<close>

fun get_bytes :: "nat \<Rightarrow> u64 \<Rightarrow> bytes \<Rightarrow> (u64 \<times> bytes) result" where
  "get_bytes 0 x bs = Inr (x, bs)"
| "get_bytes (Suc n) x (b # bs) = get_bytes n (push_bit 8 x OR ucast b) bs"
| "get_bytes (Suc n) x [] = Inl OOB_READ"

fun wt_vunpack_posint :: "nat \<Rightarrow> bytes \<Rightarrow> (u64 \<times> bytes) result" where
  "wt_vunpack_posint maxlen [] = Inl OOB_READ"
| "wt_vunpack_posint maxlen (b # bs) =
     (let len = unat (b AND 0xf)
      in WT_SIZE_CHECK_UNPACK (len + 1) maxlen (get_bytes len 0 bs))"

text \<open>
  In \<^verbatim>\<open>__wt_vunpack_negint\<close> the length is a \<^verbatim>\<open>uint8_t\<close> difference, which wraps for a corrupted byte.
\<close>

fun wt_vunpack_negint :: "nat \<Rightarrow> bytes \<Rightarrow> (u64 \<times> bytes) result" where
  "wt_vunpack_negint maxlen [] = Inl OOB_READ"
| "wt_vunpack_negint maxlen (b # bs) =
     (let len = unat ((8 :: u8) - (b AND 0xf))
      in WT_SIZE_CHECK_UNPACK (len + 1) maxlen (get_bytes len (-1) bs))"

fun wt_vunpack_uint :: "nat \<Rightarrow> bytes \<Rightarrow> (u64 \<times> bytes) result" where
  "wt_vunpack_uint maxlen [] = WT_SIZE_CHECK_UNPACK 1 maxlen (Inl OOB_READ)"
| "wt_vunpack_uint maxlen (b # bs) =
     WT_SIZE_CHECK_UNPACK 1 maxlen
      (let sw = b AND 0xf0
       in if sw = POS_1BYTE_MARKER \<or> sw = POS_1BYTE_MARKER OR 0x10 \<or>
             sw = POS_1BYTE_MARKER OR 0x20 \<or> sw = POS_1BYTE_MARKER OR 0x30
          then Inr (GET_BITS (ucast b) 6 0, bs)
          else if sw = POS_2BYTE_MARKER \<or> sw = POS_2BYTE_MARKER OR 0x10
          then WT_SIZE_CHECK_UNPACK 2 maxlen
            (case bs of [] \<Rightarrow> Inl OOB_READ
             | c # cs \<Rightarrow>
                 Inr ((push_bit 8 (GET_BITS (ucast b) 5 0) OR ucast c) + (POS_1BYTE_MAX + 1), cs))
          else if sw = POS_MULTI_MARKER
          then WT_RET (wt_vunpack_posint maxlen (b # bs))
                 (\<lambda>(x, cs). Inr (x + (POS_2BYTE_MAX + 1), cs))
          else Inl EINVAL)"

fun wt_vunpack_int :: "nat \<Rightarrow> bytes \<Rightarrow> (i64 \<times> bytes) result" where
  "wt_vunpack_int maxlen [] = WT_SIZE_CHECK_UNPACK 1 maxlen (Inl OOB_READ)"
| "wt_vunpack_int maxlen (b # bs) =
     WT_SIZE_CHECK_UNPACK 1 maxlen
      (let sw = b AND 0xf0
       in if sw = NEG_MULTI_MARKER then wt_vunpack_negint maxlen (b # bs)
          else if sw = NEG_2BYTE_MARKER \<or> sw = NEG_2BYTE_MARKER OR 0x10
          then WT_SIZE_CHECK_UNPACK 2 maxlen
            (case bs of [] \<Rightarrow> Inl OOB_READ
             | c # cs \<Rightarrow>
                 Inr ((push_bit 8 (GET_BITS (ucast b) 5 0) OR ucast c) + word_of_int NEG_2BYTE_MIN, cs))
          else if sw = NEG_1BYTE_MARKER \<or> sw = NEG_1BYTE_MARKER OR 0x10 \<or>
                  sw = NEG_1BYTE_MARKER OR 0x20 \<or> sw = NEG_1BYTE_MARKER OR 0x30
          then Inr (word_of_int NEG_1BYTE_MIN + GET_BITS (ucast b) 6 0, bs)
          else wt_vunpack_uint maxlen (b # bs))"

subsection \<open>Packed sizes\<close>

definition wt_vsize_posint :: "u64 \<Rightarrow> nat" where
  "wt_vsize_posint x = WT_INTPACK64_MAXSIZE - WT_LEADING_ZEROS x"

definition wt_vsize_negint :: "u64 \<Rightarrow> nat" where
  "wt_vsize_negint x = WT_INTPACK64_MAXSIZE - WT_LEADING_ZEROS (NOT x)"

definition wt_vsize_uint :: "u64 \<Rightarrow> nat" where
  "wt_vsize_uint x =
     (if x \<le> POS_1BYTE_MAX then 1
      else if x \<le> POS_2BYTE_MAX + 1 then 2
      else wt_vsize_posint (x - (POS_2BYTE_MAX + 1)))"

definition wt_vsize_int :: "i64 \<Rightarrow> nat" where
  "wt_vsize_int x =
     (if sint x < NEG_2BYTE_MIN then wt_vsize_negint x
      else if sint x < NEG_1BYTE_MIN then 2
      else if sint x < 0 then 1
      else wt_vsize_uint x)"

subsection \<open>The packed forms\<close>

text \<open>
  The bytes of a packed value, read off its numeric value: what the encodings above amount to. They
  are the reference definitions the proofs go through.
\<close>

definition multi_len :: "u64 \<Rightarrow> nat" where
  "multi_len y = (if y = 0 then 1 else 8 - WT_LEADING_ZEROS y)"

definition uint_bytes :: "u64 \<Rightarrow> bytes" where
  "uint_bytes x =
     (let n = unat x; y = x - 8256 in
      if n < 64 then [word_of_nat (128 + n)]
      else if n < 8256 then [word_of_nat (192 + (n - 64) div 256), word_of_nat ((n - 64) mod 256)]
      else word_of_nat (224 + multi_len y) # put_bytes (multi_len y) y)"

definition int_bytes :: "i64 \<Rightarrow> bytes" where
  "int_bytes x =
     (if sint x < - 8256 then
        let lz = WT_LEADING_ZEROS (NOT x) in word_of_nat (16 + lz) # put_bytes (8 - lz) x
      else if sint x < - 64 then
        let n = nat (sint x + 8256) in [word_of_nat (32 + n div 256), word_of_nat (n mod 256)]
      else if sint x < 0 then [word_of_nat (64 + nat (sint x + 64))]
      else uint_bytes x)"

subsection \<open>Bit-level facts\<close>

lemma mask_byte: "(0xff :: u64) = mask 8" by (simp add: mask_eq_exp_minus_1)

lemma GET_BITS_alt: "GET_BITS x s e = drop_bit e (take_bit s x)"
  by (simp add: GET_BITS_def take_bit_eq_mask mask_eq_exp_minus_1)

lemma unat_drop_bit_div: "unat (drop_bit k x) = unat x div 2 ^ k"
  using unat_drop_bit_eq[of k x]  by (simp add: drop_bit_eq_div del: unat_drop_bit_eq)

lemma drop_bit_eq_0_iff: "drop_bit k (x :: u64) = 0 \<longleftrightarrow> unat x < 2 ^ k"
  by (simp only: word_eq_zero_iff_unat unat_drop_bit_div) (simp add: div_eq_0_iff)

lemma unat_take_bit_mod: "unat (take_bit s (x::u64)) = unat x mod 2 ^ s"
  by (metis take_bit_eq_mod unsigned_take_bit_eq)

lemma unat_GET_BITS: "unat (GET_BITS x s e) = unat x mod 2 ^ s div 2 ^ e"
  by (simp only: GET_BITS_alt unat_drop_bit_div unat_take_bit_mod) 

lemma byte_test:
  assumes "i < 8" "drop_bit (64 - 8 * i) x = 0"
  shows "x AND drop_bit (8 * i) (push_bit 56 0xff) = 0 \<longleftrightarrow> drop_bit (56 - 8 * i) (x :: u64) = 0"
proof -
  have z: "\<not> bit x n" if "64 - 8 * i \<le> n" for n
  proof -
    have "bit (drop_bit (64 - 8 * i) x) (n - (64 - 8 * i)) = bit x n"
      using that by (simp add: bit_drop_bit_eq)
    with assms(2) show ?thesis by simp
  qed
  show ?thesis
  proof
    assume a: "x AND drop_bit (8 * i) (push_bit 56 0xff) = 0"
    have "\<not> bit x (56 - 8 * i + n)" if "n < 64" for n
    proof
      assume b: "bit x (56 - 8 * i + n)"
      then have "n < 8" using z [of "56 - 8 * i + n"] assms(1) by linarith
      then have "bit (x AND drop_bit (8 * i) (push_bit 56 0xff)) (56 - 8 * i + n)"
        using b assms(1) unfolding mask_byte by (simp add: bit_simps) 
      with a show False by simp
    qed
    then show "drop_bit (56 - 8 * i) x = 0"
      by (simp add: bit_eq_iff bit_simps)
  next
    assume a: "drop_bit (56 - 8 * i) x = 0"
    have "\<not> bit x n" if "56 - 8 * i \<le> n" for n
    proof -
      have "bit (drop_bit (56 - 8 * i) x) (n - (56 - 8 * i)) = bit x n"
        using that by (simp add: bit_drop_bit_eq)
      with a show ?thesis by simp
    qed
    then show "x AND drop_bit (8 * i) (push_bit 56 0xff) = 0"
      unfolding mask_byte by (auto simp add: bit_eq_iff bit_simps)
  qed
qed

lemma get_put:
  "get_bytes n acc (put_bytes n x @ rest) = Inr (push_bit (8 * n) acc OR take_bit (8 * n) x, rest)"
proof (induction n arbitrary: acc)
  case 0
  then show ?case by simp
next
  case (Suc n)
  have "push_bit (8 * n) (push_bit 8 acc OR ucast (ucast (drop_bit (8 * n) x) :: u8)) OR take_bit (8 * n) x
     = push_bit (8 * Suc n) acc OR take_bit (8 * Suc n) x"
    by (rule bit_word_eqI) (auto simp: bit_simps add.commute)
  with Suc show ?case by simp
qed


lemma lz_loop:
  assumes "i \<le> 8" "drop_bit (64 - 8 * i) x = 0"
  defines "lz \<equiv> leading_zeros_loop x (drop_bit (8 * i) (push_bit 56 0xff)) i"
  shows "lz \<le> 8 \<and> drop_bit (64 - 8 * lz) x = 0 \<and> (lz < 8 \<longrightarrow> drop_bit (56 - 8 * lz) x \<noteq> 0)"
  using assms(1,2) unfolding lz_def
proof (induction "8 - i" arbitrary: i)
  case 0
  then have i: "i = 8" by simp
  have "leading_zeros_loop x m 8 = 8" for m
    by (subst leading_zeros_loop.simps) simp
  with "0.prems" show ?case unfolding i by simp
next
  case (Suc k)
  then have i: "i < 8" by simp
  show ?case
  proof (cases "drop_bit (56 - 8 * i) x = 0")
    case False
    then have "leading_zeros_loop x (drop_bit (8 * i) (push_bit 56 0xff)) i = i"
      using byte_test [OF i Suc.prems(2)] by (subst leading_zeros_loop.simps) simp
    with Suc.prems False i show ?thesis by simp
  next
    case True
    have "leading_zeros_loop x (drop_bit (8 * i) (push_bit 56 0xff)) i =
        leading_zeros_loop x (drop_bit (8 * Suc i) (push_bit 56 0xff)) (Suc i)"
      using byte_test [OF i Suc.prems(2)] True i
      by (subst leading_zeros_loop.simps) (simp add: add.commute)
    with Suc.hyps(1) [of "Suc i"] Suc.hyps(2) True i show ?thesis by simp
  qed
qed

lemma leading_zeros_le: "WT_LEADING_ZEROS x \<le> 8"
  and leading_zeros_upper: "unat x < 2 ^ (64 - 8 * WT_LEADING_ZEROS x)"
  and leading_zeros_lower: "WT_LEADING_ZEROS x < 8 \<Longrightarrow> 2 ^ (56 - 8 * WT_LEADING_ZEROS x) \<le> unat x"
  using lz_loop [of 0 x] by (simp_all add: WT_LEADING_ZEROS_def drop_bit_eq_0_iff not_less)

subsection \<open>Packing and unpacking produce and read the packed forms\<close>

lemma first_byte_1: "n < 64 \<Longrightarrow> (0x80 :: u8) OR word_of_nat n = word_of_nat (128 + n) \<and>
   (word_of_nat (128 + n) :: u8) AND 0xf0 \<in> {0x80, 0x90, 0xa0, 0xb0} \<and>
   (0x40 :: u8) OR word_of_nat n = word_of_nat (64 + n) \<and>
   (word_of_nat (64 + n) :: u8) AND 0xf0 \<in> {0x40, 0x50, 0x60, 0x70}"
  by (erule tab_all) code_simp

lemma first_byte_2: "n < 32 \<Longrightarrow> (0xc0 :: u8) OR word_of_nat n = word_of_nat (192 + n) \<and>
   (word_of_nat (192 + n) :: u8) AND 0xf0 \<in> {0xc0, 0xd0} \<and>
   (0x20 :: u8) OR word_of_nat n = word_of_nat (32 + n) \<and>
   (word_of_nat (32 + n) :: u8) AND 0xf0 \<in> {0x20, 0x30}"
  by (erule tab_all) code_simp

lemma first_byte_multi: "n < 9 \<Longrightarrow> (0xe0 :: u8) OR (word_of_nat n AND 0xf) = word_of_nat (224 + n) \<and>
   (word_of_nat (224 + n) :: u8) AND 0xf0 = 0xe0 \<and> unat ((word_of_nat (224 + n) :: u8) AND 0xf) = n \<and>
   (0x10 :: u8) OR (word_of_nat n AND 0xf) = word_of_nat (16 + n) \<and>
   (word_of_nat (16 + n) :: u8) AND 0xf0 = 0x10 \<and> unat ((8 :: u8) - ((word_of_nat (16 + n) :: u8) AND 0xf)) = 8 - n"
  by (erule tab_all) code_simp

lemma ucast_GET_BITS: "(ucast (GET_BITS x s e) :: u8) = word_of_nat (unat x mod 2 ^ s div 2 ^ e)"
  by (metis of_nat_unat unat_GET_BITS)

lemma intpack_consts:
  "NEG_1BYTE_MIN = - 64" "NEG_2BYTE_MIN = - 8256" "POS_1BYTE_MAX = 63" "POS_2BYTE_MAX = 8255"
  by (simp_all add: NEG_1BYTE_MIN_def NEG_2BYTE_MIN_def POS_1BYTE_MAX_def POS_2BYTE_MAX_def)

lemmas intpack_markers =
  NEG_MULTI_MARKER_def NEG_2BYTE_MARKER_def NEG_1BYTE_MARKER_def
  POS_1BYTE_MARKER_def POS_2BYTE_MARKER_def POS_MULTI_MARKER_def

lemma size_check_1 [simp]:
  "WT_SIZE_CHECK_PACK 1 k r = r" "WT_SIZE_CHECK_UNPACK 1 k r = r"
  "WT_SIZE_CHECK_PACK (Suc 0) k r = r" "WT_SIZE_CHECK_UNPACK (Suc 0) k r = r"
  by (auto simp: WT_SIZE_CHECK_PACK_def WT_SIZE_CHECK_UNPACK_def)

lemmas intpack_unfold = size_check_1 intpack_consts intpack_markers WT_SIZE_CHECK_PACK_def WT_SIZE_CHECK_UNPACK_def

lemma leading_zeros_0: "WT_LEADING_ZEROS 0 = 8"
  using leading_zeros_le [of 0] leading_zeros_lower [of 0] by fastforce

lemma leading_zeros_lt: "y \<noteq> 0 \<Longrightarrow> WT_LEADING_ZEROS y < 8"
  using leading_zeros_le [of y] leading_zeros_upper [of y] by (cases "WT_LEADING_ZEROS y = 8") (auto simp: unat_eq_0)

lemma multi_len_bounds: "1 \<le> multi_len y" "multi_len y \<le> 8"
  "unat y < 256 ^ multi_len y" "1 < multi_len y \<Longrightarrow> 256 ^ (multi_len y - 1) \<le> unat y"
proof -
  show "1 \<le> multi_len y" "multi_len y \<le> 8" 
    using leading_zeros_lt [of y] by (auto simp: multi_len_def)
  have p: "(256 :: nat) ^ k = 2 ^ (8 * k)" for k
    by (simp add: power_mult)
  have "64 - 8 * WT_LEADING_ZEROS y = 8 * (8 - WT_LEADING_ZEROS y)" by simp
  then show "unat y < 256 ^ multi_len y"
    using leading_zeros_upper [of y] by (auto simp: multi_len_def p)
  have "56 - 8 * WT_LEADING_ZEROS y = 8 * (7 - WT_LEADING_ZEROS y)" by simp
  then show "1 < multi_len y \<Longrightarrow> 256 ^ (multi_len y - 1) \<le> unat y"
    using leading_zeros_lower [of y] by (auto simp: multi_len_def p split: if_splits)
qed


lemma unat_word_of_nat_small [simp]: "k < 2 ^ 64 \<Longrightarrow> unat (word_of_nat k :: u64) = k"
  by (simp add: unat_of_nat)

lemma unat_ge_sub: 
  assumes "k \<le> unat (x :: u64)" shows "unat (x - word_of_nat k) = unat x - k"
proof -
  have "unat (word_of_nat k :: u64) = k"
    using assms unat_lt64 [of x] by (intro unat_word_of_nat_small) simp
  with assms show ?thesis by (simp add: unat_sub word_le_nat_alt)
qed

lemma length_put_bytes [simp]: "length (put_bytes n x) = n"
  by (induction n) simp_all

lemma vpack_uint_bytes: "wt_vpack_uint k x =
    (if k \<noteq> 0 \<and> k < length (uint_bytes x) \<and> x \<noteq> POS_2BYTE_MAX + 1 then Inl ENOMEM else Inr (uint_bytes x))"
proof -
  consider "unat x < 64" | "64 \<le> unat x" "unat x < 8256" | "8256 \<le> unat x" by linarith
  then show ?thesis
  proof cases
    case 1
    with first_byte_1 [of "unat x"] show ?thesis
      by (simp add: wt_vpack_uint_def intpack_unfold word_le_nat_alt ucast_GET_BITS uint_bytes_def) auto
  next
    case 2
    with first_byte_2 [of "(unat x - 64) div 256"] unat_ge_sub [of 64 x] show ?thesis
      by (simp add: wt_vpack_uint_def intpack_unfold word_le_nat_alt ucast_GET_BITS uint_bytes_def Let_def) auto
  next
    case 3
    show ?thesis
    proof (cases "x = 8256")
      case True
      then show ?thesis
        by (simp add: wt_vpack_uint_def intpack_unfold uint_bytes_def multi_len_def) auto
    next
      case False
      then have "multi_len (x - 8256) = 8 - WT_LEADING_ZEROS (x - 8256)"
        by (simp add: multi_len_def)
      with 3 False first_byte_multi [of "multi_len (x - 8256)"] multi_len_bounds(2) [of "x - 8256"] show ?thesis
        by (simp add: wt_vpack_uint_def wt_vpack_posint_def intpack_unfold word_le_nat_alt uint_bytes_def Let_def)
    qed
  qed
qed

lemma GET_BITS_first:
  assumes "n < 64" shows
   "GET_BITS (ucast (word_of_nat (128 + n) :: u8)) 6 0 = word_of_nat n"
   "GET_BITS (ucast (word_of_nat (64 + n) :: u8)) 6 0 = word_of_nat n"
proof -
  have "(128 + n) mod 64 = n" "(64 + n) mod 64 = n"
    using assms mod_mult_self1 [of n 2 64] by (simp_all add: add.commute)
  with assms show "GET_BITS (ucast (word_of_nat (128 + n) :: u8)) 6 0 = word_of_nat n"
   "GET_BITS (ucast (word_of_nat (64 + n) :: u8)) 6 0 = word_of_nat n"
    by (simp_all add: word_unat_eq_iff unat_GET_BITS unat_of_nat unsigned_ucast_eq take_bit_eq_mod del: of_nat_add)
qed

lemma two_bytes:
  assumes "n < 32" "m < 256" shows
   "push_bit 8 (GET_BITS (ucast (word_of_nat (192 + n) :: u8)) 5 0) OR ucast (word_of_nat m :: u8) = word_of_nat (256 * n + m)" (is ?a)
   "push_bit 8 (GET_BITS (ucast (word_of_nat (32 + n) :: u8)) 5 0) OR ucast (word_of_nat m :: u8) = word_of_nat (256 * n + m)" (is ?b)
proof -
  have "(192 + n) mod 32 = n" "(32 + n) mod 32 = n"
    using assms mod_mult_self1 [of n 6 32] by (simp_all add: add.commute)
  with assms have *: "GET_BITS (ucast (word_of_nat (192 + n) :: u8)) 5 0 = word_of_nat n"
   "GET_BITS (ucast (word_of_nat (32 + n) :: u8)) 5 0 = word_of_nat n"
    by (simp_all add: word_unat_eq_iff unat_GET_BITS unat_of_nat unsigned_ucast_eq take_bit_eq_mod del: of_nat_add)
  have "push_bit 8 (word_of_nat n) OR ucast (word_of_nat m :: u8) = push_bit 8 (word_of_nat n) + (ucast (word_of_nat m :: u8) :: u64)"
    by (rule disjunctive_add_eq_or [symmetric]) (auto simp: bit_eq_iff bit_simps)
  also have "\<dots> = word_of_nat (256 * n + m)"
    using assms by (simp add: word_unat_eq_iff unat_word_ariths unat_of_nat push_bit_eq_mult unsigned_ucast_eq take_bit_eq_mod del: of_nat_add)
  finally show ?a ?b using * by simp_all
qed

lemma unpack_1: "n < 64 \<Longrightarrow> wt_vunpack_uint k (word_of_nat (128 + n) # bs) = Inr (word_of_nat n, bs)"
  using first_byte_1 [of n] GET_BITS_first [of n] 
  by (auto simp add: intpack_unfold Let_def)

lemma unpack_2: "n < 32 \<Longrightarrow> m < 256 \<Longrightarrow>
    wt_vunpack_uint k (word_of_nat (192 + n) # word_of_nat m # bs) =
      (if k = 1 then Inl EINVAL else Inr (word_of_nat (256 * n + m) + 64, bs))"
  using first_byte_2 [of n] two_bytes [of n m] 
  by (auto simp add: intpack_unfold Let_def simp del: of_nat_add of_nat_mult)

lemma unpack_3: "1 \<le> n \<Longrightarrow> n \<le> 8 \<Longrightarrow>
    wt_vunpack_uint k (word_of_nat (224 + n) # put_bytes n y @ bs) =
      (if k \<noteq> 0 \<and> k \<le> n then Inl EINVAL else Inr (take_bit (8 * n) y + 8256, bs))"
  using first_byte_multi [of n]
  by (auto simp add: intpack_unfold Let_def get_put  simp del: of_nat_add of_nat_mult)


lemma take_bit_multi_len: "take_bit (8 * multi_len y) y = y"
  using multi_len_bounds(3) [of y]
  by (simp add: word_unat_eq_iff unat_take_bit_mod power_mult)

lemma vunpack_uint_bytes: "wt_vunpack_uint k (uint_bytes x @ rest) =
    (if k \<noteq> 0 \<and> k < length (uint_bytes x) then Inl EINVAL else Inr (x, rest))"
proof -
  consider "unat x < 64" | "64 \<le> unat x" "unat x < 8256" | "8256 \<le> unat x" by linarith
  then show ?thesis
  proof cases
    case 1
    then show ?thesis
      by (simp add: uint_bytes_def unpack_1 del: wt_vunpack_uint.simps of_nat_add) auto
  next
    case 2
    then have "(unat x - 64) div 256 < 32" "word_of_nat (unat x - 64) + 64 = x" 
      using unat_ge_sub [of 64 x] by (auto simp add: word_unat_eq_iff)
    with 2 unpack_2 [of "(unat x - 64) div 256" "(unat x - 64) mod 256" k rest] show ?thesis
      by (simp add: uint_bytes_def Let_def del: wt_vunpack_uint.simps of_nat_add of_nat_mult)
  next
    case 3
    with unpack_3 [OF multi_len_bounds(1,2), where y = "x - 8256" and k = k and bs = rest] show ?thesis
      by (simp add: uint_bytes_def take_bit_multi_len Let_def del: wt_vunpack_uint.simps of_nat_add of_nat_mult)
  qed
qed

lemma lexcmp_put_bytes: "lexcmp (put_bytes n x) (put_bytes n y) = cmp (unat x mod 256 ^ n) (unat y mod 256 ^ n)"
proof (induction n)
  case 0
  then show ?case by (simp add: cmp_def)
next
  case (Suc n)
  have u: "unat (ucast (drop_bit (8 * n) z) :: u8) = unat z div 256 ^ n mod 256" for z :: u64
    by (simp add: unsigned_ucast_eq unat_drop_bit_div take_bit_eq_mod power_mult)
  have m: "unat z mod 256 ^ Suc n = 256 ^ n * (unat z div 256 ^ n mod 256) + unat z mod 256 ^ n" for z :: u64
    by (simp only: power_Suc2 mod_mult2_eq)
  show ?case
    unfolding m using Suc
    by (simp add: cmp_mix word_less_nat_alt u)
qed

lemma multi_len_mono: 
  assumes "unat y \<le> unat z" shows "multi_len y \<le> multi_len z"
proof (rule ccontr)
  assume *: "\<not> multi_len y \<le> multi_len z"
  then have "1 < multi_len y" using multi_len_bounds(1) [of z] by simp
  then have "256 ^ (multi_len y - 1) \<le> unat y" by (rule multi_len_bounds)
  moreover have "(256 :: nat) ^ multi_len z \<le> 256 ^ (multi_len y - 1)"
    using * by (intro power_increasing) auto
  ultimately show False using multi_len_bounds(3) [of z] assms by linarith
qed

lemma byte_less: "a < b \<Longrightarrow> b < 256 \<Longrightarrow> (word_of_nat a :: u8) < word_of_nat b"
  by (simp add: word_less_nat_alt unat_of_nat)

lemma lexcmp_Cons_lessI: "a < b \<Longrightarrow> b < 256 \<Longrightarrow> lexcmp (word_of_nat a # as) (word_of_nat b # bs) = -1"
  by (simp add: byte_less)

lemma lexcmp_uint_less:
  assumes "unat x < unat y" shows "lexcmp (uint_bytes x) (uint_bytes y) = -1"
proof -
  let ?x = "x - 8256" and ?y = "y - 8256"
  consider "unat x < 64" "unat y < 64" | "unat x < 64" "64 \<le> unat y" "unat y < 8256" 
   | "unat x < 8256" "8256 \<le> unat y" | "64 \<le> unat x" "unat y < 8256" | "8256 \<le> unat x"
    using assms by linarith
  then show ?thesis
  proof cases
    case 4
    let ?m = "unat x - 64" and ?n = "unat y - 64"
    have "?m div 256 < ?n div 256 \<or> ?m div 256 = ?n div 256 \<and> ?m mod 256 < ?n mod 256"
      using div_mod_less [of ?m ?n 256] 4 assms by simp
    moreover have "?n div 256 < 64" using 4 by auto
    ultimately show ?thesis using 4 assms
      by (auto simp: uint_bytes_def Let_def lexcmp_Cons_lessI lexcmp_Cons_same simp del: lexcmp.simps of_nat_add)
  next
    case 5
    then have l: "unat ?x < unat ?y"
      using assms unat_ge_sub [of 8256 x] unat_ge_sub [of 8256 y] by simp
    then have m: "multi_len ?x \<le> multi_len ?y" by (intro multi_len_mono) simp
    show ?thesis
    proof (cases "multi_len ?x = multi_len ?y")
      case True
      then have "lexcmp (put_bytes (multi_len ?x) ?x) (put_bytes (multi_len ?y) ?y) = -1"
        using l multi_len_bounds(3) [of ?x] multi_len_bounds(3) [of ?y] by (simp add: lexcmp_put_bytes cmp_def)
      with True 5 assms show ?thesis
        by (simp add: uint_bytes_def Let_def lexcmp_Cons_same del: lexcmp.simps of_nat_add)
    next
      case False
      with m 5 assms multi_len_bounds(2) [of ?y] show ?thesis
        by (simp add: uint_bytes_def Let_def lexcmp_Cons_lessI del: lexcmp.simps of_nat_add)
    qed
  qed (insert assms multi_len_bounds(2) [of ?y], 
     auto simp: uint_bytes_def Let_def lexcmp_Cons_lessI simp del: lexcmp.simps of_nat_add)
qed

lemma uint_of_sint: "uint (x + word_of_int k :: i64) = (sint x + k) mod 2 ^ 64"
proof -
  have "x + word_of_int k = word_of_int (sint x + k)" by simp
  then show ?thesis by (simp only: uint_word_of_int) simp
qed

lemma unat_sint_add: "0 \<le> sint (x :: i64) + k \<Longrightarrow> sint x + k < 2 ^ 64 \<Longrightarrow> unat (x + word_of_int k) = nat (sint x + k)"
  by (simp only: unat_eq_nat_uint uint_of_sint) simp

lemma sint_bounds64: "- (2 ^ 63) \<le> sint (x :: i64)" "sint (x :: i64) < 2 ^ 63"
  using sint_greater_eq [of x] sint_less [of x] by simp_all

lemma unat_not_neg: "sint (x :: i64) < 0 \<Longrightarrow> unat (NOT x) = nat (- sint x - 1)"
proof -
  assume "sint x < 0"
  moreover have "NOT x = word_of_int (- sint x - 1)" by (simp add: not_eq_complement)
  ultimately show ?thesis
    using sint_bounds64 [of x] by (simp only: unat_eq_nat_uint uint_word_of_int) simp
qed

lemma unat_nonneg: "0 \<le> sint (x :: i64) \<Longrightarrow> unat x = nat (sint x)"
  using unat_sint_add [of x 0] sint_bounds64 [of x] by simp

lemma unat_neg: "sint (x :: i64) < 0 \<Longrightarrow> unat x = nat (sint x + 2 ^ 64)"
  using uint_of_sint [of x 0] sint_bounds64 [of x] mod_pos_pos_trivial [of "sint x + 2 ^ 64" "2 ^ 64"]
  by (simp add: unat_eq_nat_uint)

lemma vpack_int_bytes: "wt_vpack_int k x =
    (if k \<noteq> 0 \<and> k < length (int_bytes x) \<and> x \<noteq> POS_2BYTE_MAX + 1 then Inl ENOMEM else Inr (int_bytes x))"
proof -
  consider "sint x < -8256" | "-8256 \<le> sint x" "sint x < -64" | "-64 \<le> sint x" "sint x < 0" | "0 \<le> sint x" by linarith
  then show ?thesis
  proof cases
    case 1
    with first_byte_multi [of "WT_LEADING_ZEROS (NOT x)"] leading_zeros_le [of "NOT x"] show ?thesis
      by (simp add: wt_vpack_int_def intpack_unfold wt_vpack_negint_def int_bytes_def Let_def) auto
  next
    case 2
    with unat_sint_add [of x 8256] first_byte_2 [of "nat (sint x + 8256) div 256"] show ?thesis
      by (simp add: wt_vpack_int_def intpack_unfold int_bytes_def Let_def ucast_GET_BITS) auto
  next
    case 3
    with unat_sint_add [of x 64] first_byte_1 [of "nat (sint x + 64)"] show ?thesis
      by (simp add: wt_vpack_int_def intpack_unfold int_bytes_def Let_def ucast_GET_BITS) auto
  qed (simp add: wt_vpack_int_def intpack_unfold int_bytes_def vpack_uint_bytes, auto)
qed

lemma unpack_neg_1: "n < 64 \<Longrightarrow> wt_vunpack_int k (word_of_nat (64 + n) # bs) = Inr (word_of_nat n - 64, bs)"
  using first_byte_1 [of n] GET_BITS_first [of n] 
  by (auto simp add: intpack_unfold Let_def)

lemma unpack_neg_2: "n < 32 \<Longrightarrow> m < 256 \<Longrightarrow>
    wt_vunpack_int k (word_of_nat (32 + n) # word_of_nat m # bs) =
      (if k = 1 then Inl EINVAL else Inr (word_of_nat (256 * n + m) - 8256, bs))"
  using first_byte_2 [of n] two_bytes [of n m] 
  by (auto simp add: intpack_unfold Let_def simp del: of_nat_add of_nat_mult)

lemma unpack_neg_3: "lz \<le> 7 \<Longrightarrow>
    wt_vunpack_int k (word_of_nat (16 + lz) # put_bytes (8 - lz) y @ bs) =
      (if k \<noteq> 0 \<and> k \<le> 8 - lz then Inl EINVAL
       else Inr (push_bit (8 * (8 - lz)) (-1) OR take_bit (8 * (8 - lz)) y, bs))"
  using first_byte_multi [of lz]
  by (auto simp add: intpack_unfold Let_def get_put  simp del: of_nat_add of_nat_mult)

lemma unpack_int_pos: "b AND 0xf0 \<notin> {0x10, 0x20, 0x30, 0x40, 0x50, 0x60, 0x70} \<Longrightarrow> wt_vunpack_int k (b # bs) = wt_vunpack_uint k (b # bs)"
  by (auto simp: intpack_unfold Let_def simp del: wt_vunpack_uint.simps)

lemma uint_bytes_first: "hd (uint_bytes x) AND 0xf0 \<in> {0x80, 0x90, 0xa0, 0xb0, 0xc0, 0xd0, 0xe0}"
  using first_byte_1 [of "unat x"] first_byte_2 [of "(unat x - 64) div 256"] first_byte_multi [of "multi_len (x - 8256)"]
   multi_len_bounds(2) [of "x - 8256"]
  by (auto simp: uint_bytes_def Let_def simp del: of_nat_add)


lemma sign_extend: "push_bit (8 * (8 - WT_LEADING_ZEROS (NOT x))) (-1) OR take_bit (8 * (8 - WT_LEADING_ZEROS (NOT x))) x = x"
proof -
  let ?k = "8 * (8 - WT_LEADING_ZEROS (NOT x))"
  have "drop_bit ?k (NOT x) = 0"
    using leading_zeros_upper [of "NOT x"] leading_zeros_le [of "NOT x"] by (simp add: drop_bit_eq_0_iff diff_mult_distrib2)
  then have "bit x n" if "?k \<le> n" "n < 64" for n
    using that by (auto simp: bit_eq_iff bit_simps dest!: spec [of _ "n - ?k"])
  then show ?thesis
    by (intro bit_word_eqI) (auto simp: bit_simps)
qed

lemma not_neg_8256: "sint (x :: i64) < - 8256 \<Longrightarrow> WT_LEADING_ZEROS (NOT x) \<le> 6"
proof (rule ccontr)
  assume "sint x < - 8256" "\<not> WT_LEADING_ZEROS (NOT x) \<le> 6"
  moreover have "(2 :: nat) ^ (64 - 8 * WT_LEADING_ZEROS (NOT x)) \<le> 2 ^ 8"
    using calculation(2) by (intro power_increasing) auto
  moreover have "8256 \<le> unat (NOT x)"
    using calculation(1) unat_not_neg [of x] by simp
  ultimately show False
    using leading_zeros_upper [of "NOT x"] by simp
qed

lemma vunpack_int_bytes: "wt_vunpack_int k (int_bytes x @ rest) =
    (if k \<noteq> 0 \<and> k < length (int_bytes x) then Inl EINVAL else Inr (x, rest))"
proof -
  consider "sint x < -8256" | "-8256 \<le> sint x" "sint x < -64" | "-64 \<le> sint x" "sint x < 0" | "0 \<le> sint x" by linarith
  then show ?thesis
  proof cases
    case 1
    with unpack_neg_3 [of "WT_LEADING_ZEROS (NOT x)" k x rest] not_neg_8256 [of x] sign_extend [of x] show ?thesis
      by (simp add: int_bytes_def Let_def del: wt_vunpack_int.simps of_nat_add)
  next
    case 2
    let ?n = "nat (sint x + 8256)"
    have "word_of_nat ?n - 8256 = x" using 2 by (simp add: of_nat_nat)
    moreover have "?n div 256 < 32" using 2 by (simp add: nat_less_iff less_mult_imp_div_less)
    ultimately show ?thesis
      using 2 unpack_neg_2 [of "?n div 256" "?n mod 256" k rest]
      by (simp add: int_bytes_def Let_def del: wt_vunpack_int.simps of_nat_add of_nat_nat)
  next
    case 3
    let ?n = "nat (sint x + 64)"
    have "word_of_nat ?n - 64 = x" using 3 by (simp add: of_nat_nat)
    then show ?thesis
      using 3 unpack_neg_1 [of ?n k rest]
      by (simp add: int_bytes_def Let_def del: wt_vunpack_int.simps of_nat_add of_nat_nat) auto
  next
    case 4
    obtain b bs where b: "uint_bytes x = b # bs" by (cases "uint_bytes x") (auto simp: uint_bytes_def Let_def split: if_splits)
    then have "wt_vunpack_int k (b # bs @ rest) = wt_vunpack_uint k (b # bs @ rest)"
      using uint_bytes_first [of x] by (intro unpack_int_pos) auto
    then show ?thesis
      using 4 b vunpack_uint_bytes [of k x rest] by (simp add: int_bytes_def del: wt_vunpack_int.simps wt_vunpack_uint.simps)
  qed
qed


lemma leading_zeros_antimono: 
  assumes "unat y \<le> unat z" shows "WT_LEADING_ZEROS z \<le> WT_LEADING_ZEROS y"
proof (rule ccontr)
  assume *: "\<not> WT_LEADING_ZEROS z \<le> WT_LEADING_ZEROS y"
  then have "2 ^ (56 - 8 * WT_LEADING_ZEROS y) \<le> unat y" 
    using leading_zeros_le [of z] by (intro leading_zeros_lower) simp
  moreover have "(2 :: nat) ^ (64 - 8 * WT_LEADING_ZEROS z) \<le> 2 ^ (56 - 8 * WT_LEADING_ZEROS y)"
    using * by (intro power_increasing) auto
  ultimately show False using leading_zeros_upper [of z] assms by linarith
qed

lemma unat_mod_high:
  assumes "sint x < 0" "unat (NOT x) < 256 ^ n" "n \<le> 8"
  shows "int (unat (x :: i64) mod 256 ^ n) = sint x + 256 ^ n"
proof -
  have "(2 :: int) ^ 64 = 256 ^ (8 - n) * 256 ^ n" using assms(3) by (simp flip: power_add)
  then have "(sint x + 2 ^ 64) mod 256 ^ n = sint x mod 256 ^ n" by (simp only: mod_mult_self1)
  moreover have "sint x mod 256 ^ n = (sint x + 256 ^ n) mod 256 ^ n" by simp
  moreover have "- sint x - 1 < 256 ^ n" using assms(1,2) unat_not_neg [of x] by (simp add: nat_less_iff)
  ultimately have "(sint x + 2 ^ 64) mod 256 ^ n = sint x + 256 ^ n"
    using assms(1) mod_pos_pos_trivial [of "sint x + 256 ^ n" "256 ^ n"] by linarith
  then show ?thesis
    using unat_neg [OF assms(1)] sint_bounds64 [of x] by (simp add: zmod_int)
qed

lemma lexcmp_negint_less:
  assumes "sint x < sint y" "sint y < -8256" shows "lexcmp (int_bytes x) (int_bytes y) = -1"
proof -
  let ?k = "WT_LEADING_ZEROS (NOT x)" and ?l = "WT_LEADING_ZEROS (NOT y)"
  have "?k \<le> ?l" using assms unat_not_neg [of x] unat_not_neg [of y] by (intro leading_zeros_antimono) simp
  moreover have "?l \<le> 8" by (rule leading_zeros_le)
  moreover have "lexcmp (put_bytes (8 - ?l) x) (put_bytes (8 - ?l) y) = -1" if "?k = ?l"
  proof -
    have *: "unat (NOT z) < 256 ^ (8 - WT_LEADING_ZEROS (NOT z))" for z :: u64
      using leading_zeros_upper [of "NOT z"] power_mult [of "2 :: nat" 8 "8 - WT_LEADING_ZEROS (NOT z)"]
      by (simp add: diff_mult_distrib2)
    have "unat x mod 256 ^ (8 - ?l) < unat y mod 256 ^ (8 - ?l)"
      using unat_mod_high [OF _ * [of x]] unat_mod_high [OF _ * [of y]] assms that by simp
    then show ?thesis by (simp add: lexcmp_put_bytes cmp_def)
  qed
  ultimately show ?thesis
    using assms by (cases "?k = ?l")
      (auto simp: int_bytes_def Let_def lexcmp_Cons_lessI lexcmp_Cons_same simp del: lexcmp.simps of_nat_add)
qed

lemma lexcmp_uint_bytes_first: "n < 128 \<Longrightarrow> lexcmp (word_of_nat n # bs) (uint_bytes x) = -1"
  using multi_len_bounds(2) [of "x - 8256"]
  by (auto simp: uint_bytes_def Let_def lexcmp_Cons_lessI simp del: lexcmp.simps of_nat_add)

lemma lexcmp_int_less:
  assumes "sint x < sint y" shows "lexcmp (int_bytes x) (int_bytes y) = -1"
proof -
  let ?m = "nat (sint x + 8256)" and ?n = "nat (sint y + 8256)"
  have l: "WT_LEADING_ZEROS (NOT x) \<le> 8" by (rule leading_zeros_le)
  consider "sint y < -8256" | "sint x < -8256" "-8256 \<le> sint y" | "-8256 \<le> sint x" "sint y < -64" 
     | "-8256 \<le> sint x" "sint x < -64" "-64 \<le> sint y" | "-64 \<le> sint x" using assms by linarith
  then show ?thesis
  proof cases
    case 1
    with assms show ?thesis by (rule lexcmp_negint_less)
  next
    case 3
    with assms have "?m div 256 < ?n div 256 \<or> ?m div 256 = ?n div 256 \<and> ?m mod 256 < ?n mod 256"
      by (intro div_mod_less) simp
    moreover have "?n div 256 < 64" using 3 by auto
    ultimately show ?thesis using 3 assms
      by (auto simp: int_bytes_def Let_def lexcmp_Cons_lessI lexcmp_Cons_same simp del: lexcmp.simps of_nat_add)
  next
    case 4
    have "?m div 256 < 32" using 4 by auto
    then show ?thesis using 4 assms
      by (auto simp: int_bytes_def Let_def lexcmp_Cons_lessI lexcmp_uint_bytes_first simp del: lexcmp.simps of_nat_add)
  next
    case 5
    then show ?thesis using assms unat_nonneg [of x] unat_nonneg [of y]
      by (auto simp: int_bytes_def Let_def lexcmp_Cons_lessI lexcmp_uint_bytes_first lexcmp_uint_less simp del: lexcmp.simps of_nat_add)
  qed (insert assms l, auto simp: int_bytes_def Let_def lexcmp_Cons_lessI lexcmp_uint_bytes_first simp del: lexcmp.simps of_nat_add)
qed

lemma vsize_uint_bytes: "wt_vsize_uint x = length (uint_bytes x)"
proof (cases "unat x < 8256 \<or> x = 8256")
  case True
  then show ?thesis
    by (auto simp: wt_vsize_uint_def uint_bytes_def multi_len_def intpack_consts word_le_nat_alt Let_def)
next
  case False
  then have "\<not> x \<le> 8256" "x - 8256 \<noteq> 0" using word_unat_eq_iff [of x 8256] by (auto simp: word_le_nat_alt)
  with False leading_zeros_lt [of "x - 8256"] show ?thesis
    by (auto simp: wt_vsize_uint_def wt_vsize_posint_def uint_bytes_def multi_len_def intpack_consts word_le_nat_alt
      WT_INTPACK64_MAXSIZE_def Let_def)
qed

lemma vsize_int_bytes: "wt_vsize_int x = length (int_bytes x)"
proof -
  have "9 - WT_LEADING_ZEROS (NOT x) = Suc (8 - WT_LEADING_ZEROS (NOT x))"
    using leading_zeros_le [of "NOT x"] by simp
  then show ?thesis
    by (simp add: wt_vsize_int_def int_bytes_def wt_vsize_negint_def vsize_uint_bytes intpack_consts
        WT_INTPACK64_MAXSIZE_def Let_def)
qed

lemma get_bytes_safe: "n \<le> length bs \<Longrightarrow> get_bytes n x bs \<noteq> Inl e"
  by (induction n x bs rule: get_bytes.induct) auto

lemma get_bytes_consumes: "get_bytes n x bs = Inr (v, rest) \<Longrightarrow> \<exists>p. bs = p @ rest \<and> length p = n"
proof (induction n x bs rule: get_bytes.induct)
  case (2 n x b bs)
  then obtain p where "bs = p @ rest" "length p = n" by auto
  then show ?case by (intro exI [of _ "b # p"]) simp
qed auto

lemma vunpack_uint_safe: "0 < k \<Longrightarrow> k \<le> length bs \<Longrightarrow> wt_vunpack_uint k bs \<noteq> Inl OOB_READ"
  by (cases bs) (auto simp: intpack_unfold Let_def get_bytes_safe split: list.splits simp: WT_RET_def split: sum.splits)
lemma vunpack_int_safe: "0 < k \<Longrightarrow> k \<le> length bs \<Longrightarrow> wt_vunpack_int k bs \<noteq> Inl OOB_READ"
  using vunpack_uint_safe [of k bs]
  by (cases bs) (auto simp: intpack_unfold Let_def get_bytes_safe split: list.splits simp del: wt_vunpack_uint.simps)

interpretation vuint: ordered_codec wt_vpack_uint wt_vunpack_uint wt_vsize_uint uint
proof unfold_locales
  fix x y :: u64 and bs cs rest :: bytes and k l :: nat
  show "\<exists>bs. wt_vpack_uint 0 x = Inr bs" by (simp add: vpack_uint_bytes)
  have bs: "bs = uint_bytes x" if "wt_vpack_uint k x = Inr bs" for k x bs
    using that by (simp add: vpack_uint_bytes split: if_splits)
  show "length bs = wt_vsize_uint x" if "wt_vpack_uint k x = Inr bs"
    using bs [OF that] by (simp add: vsize_uint_bytes)
  show "wt_vunpack_uint l (bs @ rest) = (if l \<noteq> 0 \<and> l < wt_vsize_uint x then Inl EINVAL else Inr (x, rest))"
    if "wt_vpack_uint k x = Inr bs"
    using bs [OF that] by (simp only: vunpack_uint_bytes vsize_uint_bytes)
  show "lexcmp bs cs = -1" if "wt_vpack_uint 0 x = Inr bs" "wt_vpack_uint 0 y = Inr cs" "uint x < uint y"
    using bs [OF that(1)] bs [OF that(2)] that(3) by (simp only: word_less_def [symmetric] word_less_nat_alt lexcmp_uint_less)
  show "x = y" if "uint x = uint y" using that by (rule word_uint_eqI)
qed

interpretation vint: ordered_codec wt_vpack_int wt_vunpack_int wt_vsize_int sint
proof unfold_locales
  fix x y :: u64 and bs cs rest :: bytes and k l :: nat
  show "\<exists>bs. wt_vpack_int 0 x = Inr bs" by (simp add: vpack_int_bytes)
  have bs: "bs = int_bytes x" if "wt_vpack_int k x = Inr bs" for k x bs
    using that by (simp add: vpack_int_bytes split: if_splits)
  show "length bs = wt_vsize_int x" if "wt_vpack_int k x = Inr bs"
    using bs [OF that] by (simp add: vsize_int_bytes)
  show "wt_vunpack_int l (bs @ rest) = (if l \<noteq> 0 \<and> l < wt_vsize_int x then Inl EINVAL else Inr (x, rest))"
    if "wt_vpack_int k x = Inr bs"
    using bs [OF that] by (simp only: vunpack_int_bytes vsize_int_bytes)
  show "lexcmp bs cs = -1" if "wt_vpack_int 0 x = Inr bs" "wt_vpack_int 0 y = Inr cs" "sint x < sint y"
    using bs [OF that(1)] bs [OF that(2)] that(3) by (simp only: lexcmp_int_less)
  show "x = y" if "sint x = sint y" using that by (rule signed_word_eqI)
qed

lemma vsize_uint_le: "wt_vsize_uint x \<le> WT_INTPACK64_MAXSIZE"
  using multi_len_bounds(2) [of "x - 8256"] 
  by (simp add: vsize_uint_bytes uint_bytes_def Let_def WT_INTPACK64_MAXSIZE_def)
lemma vsize_int_le: "wt_vsize_int x \<le> WT_INTPACK64_MAXSIZE"
  using vsize_uint_le [of x] by (simp add: wt_vsize_int_def wt_vsize_negint_def WT_INTPACK64_MAXSIZE_def)

lemma takeWhile_shorter: "i \<in> set xs \<Longrightarrow> \<not> P i \<Longrightarrow> length (takeWhile P xs) < length xs"
  by (induction xs) auto

lemma builtin_clzll_bounds:
  assumes "x \<noteq> 0"
  shows "builtin_clzll x < 64" "2 ^ (63 - builtin_clzll x) \<le> unat x" "unat x < 2 ^ (64 - builtin_clzll x)"
proof -
  define ix where "ix = rev [0..<64 :: nat]"
  have "\<And>i. i < 64 \<Longrightarrow> ix ! i = 63 - i" "length ix = 64" "set ix = {0..<64}"
    by (simp_all add: ix_def rev_nth)
  note ix = this
  let ?P = "\<lambda>i. \<not> bit x i"
  define k where "k = length (takeWhile ?P ix)"
  have c: "builtin_clzll x = k" by (simp only: builtin_clzll_def ix_def k_def)
  have "\<exists>i < 64. bit x i" using assms by (auto simp: bit_eq_iff)
  then have k: "k < 64" using takeWhile_shorter [of _ "ix" ?P] ix(2,3) by (auto simp: k_def)
  then show "builtin_clzll x < 64" by (simp only: c)
  have b: "bit x (63 - k)"
    using nth_length_takeWhile [of ?P "ix"] ix(1) [OF k] ix(2) k by (simp add: k_def)
  have z: "\<not> bit x n" if "64 - k \<le> n" for n
  proof (cases "n < 64")
    case True
    then have n: "63 - n < length (takeWhile ?P ix)" using that unfolding k_def by linarith
    then have "takeWhile ?P ix ! (63 - n) = n"
      using takeWhile_nth [OF n] ix(1) [of "63 - n"] True by simp
    then show ?thesis
      using set_takeWhileD [of n ?P "ix"] nth_mem [OF n] by simp
  qed (auto dest: bit_imp_le_length)
  show "unat x < 2 ^ (64 - builtin_clzll x)"
    unfolding c by (rule drop_bit_eq_0_iff [THEN iffD1], rule bit_word_eqI) (simp add: bit_drop_bit_eq z)
  have "bit (drop_bit (63 - k) x) 0"
    using b by (simp only: bit_drop_bit_eq comp_apply add_0_right)
  then have "drop_bit (63 - k) x \<noteq> 0" by auto
  then show "2 ^ (63 - builtin_clzll x) \<le> unat x" unfolding c by (simp add: drop_bit_eq_0_iff not_less)
qed

subsection \<open>Properties\<close>

text \<open>
  C15: every unsigned 64-bit value packs into exactly the number of bytes \<^verbatim>\<open>__wt_vsize_uint\<close> announces,
  at most nine, and unpacking those bytes, whatever follows them, gives the value back and stops right
  behind them.
\<close>

theorem vuint_roundtrip:
  "\<exists>bs. wt_vpack_uint 0 x = Inr bs \<and> length bs = wt_vsize_uint x \<and> length bs \<le> WT_INTPACK64_MAXSIZE \<and>
        (\<forall>rest. wt_vunpack_uint 0 (bs @ rest) = Inr (x, rest))"
proof -
  obtain bs where bs: "wt_vpack_uint 0 x = Inr bs" using vuint.pack_total by blast
  show ?thesis
    using bs vuint.lpack_size [OF bs] vuint.unpack_pack [OF bs] vsize_uint_le [of x] by (intro exI [of _ bs]) simp
qed

text \<open>
  C16: the same for signed values: packing, the announced size, and unpacking agree on every 64-bit
  integer, negative ones included.
\<close>

theorem vint_roundtrip:
  "\<exists>bs. wt_vpack_int 0 x = Inr bs \<and> length bs = wt_vsize_int x \<and> length bs \<le> WT_INTPACK64_MAXSIZE \<and>
        (\<forall>rest. wt_vunpack_int 0 (bs @ rest) = Inr (x, rest))"
proof -
  obtain bs where bs: "wt_vpack_int 0 x = Inr bs" using vint.pack_total by blast
  show ?thesis
    using bs vint.lpack_size [OF bs] vint.unpack_pack [OF bs] vsize_int_le [of x] by (intro exI [of _ bs]) simp
qed

text \<open>
  comparing packed unsigned values byte by byte, with the comparison of \<^verbatim>\<open>btree_cmp_inline.h\<close> in
  any of its builds, is comparing the values.
\<close>

theorem vuint_order:
  "wt_vpack_uint 0 x = Inr a \<Longrightarrow> wt_vpack_uint 0 y = Inr b \<Longrightarrow>
   wt_lex_compare bd a b False = Inr (cmp (uint x) (uint y))"
  by (rule vuint.compare_packed)

theorem vuint_order_witness:
  "wt_lex_compare X86INTRIN [0xc0, 0x24] [0xe1, 0x01] False = Inr (-1)"
proof -
  have "wt_vpack_uint 0 100 = Inr [0xc0, 0x24]" "wt_vpack_uint 0 8257 = Inr [0xe1, 0x01]" by code_simp+
  from vuint_order [OF this] show ?thesis by (simp add: cmp_def)
qed

text \<open>
  C17: comparing packed signed values byte by byte is comparing the values as signed integers, across
  the negative and the non-negative encodings.
\<close>

theorem vint_order:
  "wt_vpack_int 0 x = Inr a \<Longrightarrow> wt_vpack_int 0 y = Inr b \<Longrightarrow>
   wt_lex_compare bd a b False = Inr (cmp (sint x) (sint y))"
  by (rule vint.compare_packed)

theorem vint_order_witness:
  "wt_lex_compare ARM_NEON [0x16, 0xd8, 0xf0] [0x7f] False = Inr (-1)"
proof -
  have "wt_vpack_int 0 (-10000) = Inr [0x16, 0xd8, 0xf0]" "wt_vpack_int 0 (-1) = Inr [0x7f]" by code_simp+
  from vint_order [OF this] show ?thesis by (simp add: cmp_def)
qed

text \<open>
  C18: with a limit \<open>k\<close> on the buffer, packing fails with \<^verbatim>\<open>ENOMEM\<close> exactly when the value needs more than
  \<open>k\<close> bytes, and otherwise produces the unlimited packing. The one value 8256 escapes the check: its
  branch writes two bytes without comparing them with the limit.
\<close>

theorem vuint_limit:
  "wt_vpack_uint k x =
     (if k \<noteq> 0 \<and> k < wt_vsize_uint x \<and> x \<noteq> POS_2BYTE_MAX + 1 then Inl ENOMEM else wt_vpack_uint 0 x)"
  by (simp add: vpack_uint_bytes vsize_uint_bytes)

text \<open>
  unpacking with a limit that is not zero and does not exceed the buffer never reads behind the
  buffer, on any bytes, corrupted ones included (the length field of a corrupted negative integer
  wraps to a large value).
\<close>

theorem vunpack_in_bounds:
  "0 < k \<Longrightarrow> k \<le> length bs \<Longrightarrow> wt_vunpack_uint k bs \<noteq> Inl OOB_READ \<and> wt_vunpack_int k bs \<noteq> Inl OOB_READ"
  by (simp add: vunpack_uint_safe vunpack_int_safe)

theorem vunpack_in_bounds_witness:
  "wt_vunpack_uint 2 [0x1f, 0] \<noteq> Inl OOB_READ \<and> wt_vunpack_int 2 [0x1f, 0] \<noteq> Inl OOB_READ"
  by (rule vunpack_in_bounds) simp_all

text \<open>
  counting the leading zero bytes with the compiler's count of leading zero bits, as the GNU build
  does, gives the same number as the portable byte loop.
\<close>

theorem leading_zeros_builds_agree: "WT_LEADING_ZEROS_gnuc x = WT_LEADING_ZEROS x"
proof (cases "x = 0")
  case True
  then show ?thesis by (simp add: WT_LEADING_ZEROS_gnuc_def leading_zeros_0)
next
  case False
  let ?k = "builtin_clzll x" and ?l = "WT_LEADING_ZEROS x"
  have "2 ^ (56 - 8 * ?l) \<le> unat x" using False by (intro leading_zeros_lower leading_zeros_lt)
  then have "(2 :: nat) ^ (56 - 8 * ?l) < 2 ^ (64 - ?k)"
    using builtin_clzll_bounds(3) [OF False] by (rule order_le_less_trans)
  moreover have "(2 :: nat) ^ (63 - ?k) < 2 ^ (64 - 8 * ?l)"
    using builtin_clzll_bounds(2) [OF False] leading_zeros_upper [of x] by (rule order_le_less_trans)
  ultimately have "56 - 8 * ?l < 64 - ?k" "63 - ?k < 64 - 8 * ?l" by simp_all
  moreover have "?k \<le> 63" "8 * ?l \<le> 56"
    using leading_zeros_lt [OF False] builtin_clzll_bounds(1) [OF False] by simp_all
  ultimately have "8 * ?l \<le> ?k" "?k < 8 * Suc ?l" by (simp_all add: less_diff_conv)
  then have "?k div 8 = ?l" by (auto intro: div_nat_eqI)
  with False show ?thesis by (simp add: WT_LEADING_ZEROS_gnuc_def)
qed

end
