(* ===== verification/Block_Addr.thy ===== *)
theory Block_Addr
  imports Intpack
begin

text \<open>
  Address and checkpoint cookies, \<^verbatim>\<open>src/src/block/block_addr.c\<close>, and the offset and size pairs of a
  written extent list, \<^verbatim>\<open>src/src/include/block_inline.h\<close>.

  A cookie is what the btree stores to find a block: offset and size counted in allocation units,
  the checksum, and an object ID when it is not zero. The functions that move a pointer through a
  buffer are modelled on the bytes from that pointer on; reading a byte that is not there is
  \<^const>\<open>OOB_READ\<close>. \<^verbatim>\<open>WT_ASSERT\<close> compiles to nothing in a production build and is not part of the model:
  that its condition holds on packed cookies is part of the theorems. The four addresses of a
  checkpoint (the root and the places the three extent lists were written to) are records of the
  same type; the other fields of the extent lists are in theory \<open>Extlist\<close>.
\<close>

subsection \<open>Data\<close>

record wt_block =
  allocsize :: u32
  has_objects :: bool
  blk_objectid :: u32
  blk_size :: int

record blk_addr =
  addr_objectid :: u32
  addr_offset :: i64
  addr_size :: u32
  addr_checksum :: u32

record wt_block_ckpt =
  ckpt_version :: u8
  ckpt_root :: blk_addr
  ckpt_alloc :: blk_addr
  ckpt_avail :: blk_addr
  ckpt_discard :: blk_addr
  ckpt_file_size :: i64
  ckpt_ckpt_size :: u64

definition WT_BLOCK_COOKIE_FILEID :: u8 where [wt_macros]: "WT_BLOCK_COOKIE_FILEID = 0x01"
definition WT_BLOCK_INVALID_OFFSET :: u64 where [wt_macros]: "WT_BLOCK_INVALID_OFFSET = 0"
definition WT_BM_CHECKPOINT_VERSION :: u8 where [wt_macros]: "WT_BM_CHECKPOINT_VERSION = 1"

subsection \<open>Address cookies\<close>

definition block_addr_unpack :: "'b wt_block_scheme \<Rightarrow> bytes \<Rightarrow> nat \<Rightarrow> (blk_addr \<times> bytes) result" where
  "block_addr_unpack block pp asize =
     WT_RET (wt_vunpack_uint 0 pp) (\<lambda>(off, p1).
     WT_RET (wt_vunpack_uint 0 p1) (\<lambda>(s, p2).
     WT_RET (wt_vunpack_uint 0 p2) (\<lambda>(c, p3).
     WT_RET
      (if asize \<noteq> 0 \<and> length pp - length p3 < asize
       then case p3 of [] \<Rightarrow> Inl OOB_READ
            | flags # p4 \<Rightarrow>
                if flags AND WT_BLOCK_COOKIE_FILEID \<noteq> 0 then wt_vunpack_uint 0 p4
                else Inr (0, p4)
       else Inr (0, p3)) (\<lambda>(i, p5).
     Inr (if s = 0
          then \<lparr>addr_objectid = 0, addr_offset = 0, addr_size = 0, addr_checksum = 0\<rparr>
          else \<lparr>addr_objectid = ucast i,
                addr_offset = (off + 1) * ucast (allocsize block),
                addr_size = ucast s * allocsize block,
                addr_checksum = ucast c\<rparr>, p5)))))"

definition wt_block_addr_pack :: "'b wt_block_scheme \<Rightarrow> u32 \<Rightarrow> i64 \<Rightarrow> u32 \<Rightarrow> u32 \<Rightarrow> bytes result" where
  "wt_block_addr_pack block objectid offset sz checksum =
     (let (i, off, s, c) =
        (if sz = 0 then (0, WT_BLOCK_INVALID_OFFSET, 0, 0)
         else (ucast objectid, offset div ucast (allocsize block) - 1,
               ucast (sz div allocsize block), ucast checksum))
      in WT_RET (wt_vpack_uint 0 off) (\<lambda>b1.
         WT_RET (wt_vpack_uint 0 s) (\<lambda>b2.
         WT_RET (wt_vpack_uint 0 c) (\<lambda>b3.
         if i \<noteq> 0 \<and> has_objects block
         then WT_RET (wt_vpack_uint 0 i) (\<lambda>b4. Inr (b1 @ b2 @ b3 @ [WT_BLOCK_COOKIE_FILEID] @ b4))
         else Inr (b1 @ b2 @ b3)))))"

definition wt_block_addr_unpack :: "'b wt_block_scheme \<Rightarrow> bytes \<Rightarrow> nat \<Rightarrow> blk_addr result" where
  "wt_block_addr_unpack block p asize =
     WT_RET (block_addr_unpack block p asize) (\<lambda>(a, _). Inr a)"

text \<open>
  The check of \<^verbatim>\<open>__wt_block_addr_invalid\<close> in a production build: an address of this object must lie
  inside the file.
\<close>

definition wt_block_addr_invalid :: "'b wt_block_scheme \<Rightarrow> bytes \<Rightarrow> nat \<Rightarrow> unit result" where
  "wt_block_addr_invalid block addr asize =
     WT_RET (wt_block_addr_unpack block addr asize) (\<lambda>a.
       if addr_objectid a = blk_objectid block \<and>
          sint (addr_offset a + ucast (addr_size a)) > blk_size block
       then Inl EINVAL else Inr ())"

subsection \<open>Checkpoint cookies\<close>

definition block_ckpt_unpack :: "'b wt_block_scheme \<Rightarrow> bytes \<Rightarrow> nat \<Rightarrow> wt_block_ckpt result" where
  "block_ckpt_unpack block ckpt csize =
     (case ckpt of [] \<Rightarrow> Inl OOB_READ
      | version # p0 \<Rightarrow>
        if version \<noteq> WT_BM_CHECKPOINT_VERSION then Inl WT_ERROR
        else
          WT_RET (block_addr_unpack block p0 0) (\<lambda>(root, p1).
          WT_RET (block_addr_unpack block p1 0) (\<lambda>(alloc, p2).
          WT_RET (block_addr_unpack block p2 0) (\<lambda>(avail, p3).
          WT_RET (block_addr_unpack block p3 0) (\<lambda>(discard, p4).
          WT_RET (wt_vunpack_uint 0 p4) (\<lambda>(fsize, p5).
          WT_RET (wt_vunpack_uint 0 p5) (\<lambda>(cksize, p6).
          WT_RET
            (if length ckpt - length p6 \<noteq> csize
             then case p6 of [] \<Rightarrow> Inl OOB_READ
                  | flags # p7 \<Rightarrow>
                      if flags AND WT_BLOCK_COOKIE_FILEID \<noteq> 0
                      then WT_RET (wt_vunpack_uint 0 p7) (\<lambda>(a, _). Inr (ucast a))
                      else Inr 0
             else Inr 0) (\<lambda>objectid :: u32.
          Inr \<lparr>ckpt_version = version,
               ckpt_root = root\<lparr>addr_objectid := objectid\<rparr>,
               ckpt_alloc = alloc\<lparr>addr_objectid := objectid\<rparr>,
               ckpt_avail = avail\<lparr>addr_objectid := objectid\<rparr>,
               ckpt_discard = discard\<lparr>addr_objectid := objectid\<rparr>,
               ckpt_file_size = fsize,
               ckpt_ckpt_size = cksize\<rparr>))))))))"

definition wt_block_ckpt_unpack :: "'b wt_block_scheme \<Rightarrow> bytes \<Rightarrow> nat \<Rightarrow> wt_block_ckpt result" where
  "wt_block_ckpt_unpack = block_ckpt_unpack"

definition wt_block_ckpt_decode :: "'b wt_block_scheme \<Rightarrow> bytes \<Rightarrow> nat \<Rightarrow> wt_block_ckpt result" where
  "wt_block_ckpt_decode = block_ckpt_unpack"

definition wt_block_ckpt_pack :: "'b wt_block_scheme \<Rightarrow> wt_block_ckpt \<Rightarrow> bool \<Rightarrow> bytes result" where
  "wt_block_ckpt_pack block ci skip_avail =
     (let pack = (\<lambda>a. wt_block_addr_pack block 0 (addr_offset a) (addr_size a) (addr_checksum a))
      in if ckpt_version ci \<noteq> WT_BM_CHECKPOINT_VERSION then Inl WT_ERROR
         else
          WT_RET (pack (ckpt_root ci)) (\<lambda>b1.
          WT_RET (pack (ckpt_alloc ci)) (\<lambda>b2.
          WT_RET (if skip_avail then wt_block_addr_pack block 0 0 0 0 else pack (ckpt_avail ci)) (\<lambda>b3.
          WT_RET (pack (ckpt_discard ci)) (\<lambda>b4.
          WT_RET (wt_vpack_uint 0 (ckpt_file_size ci)) (\<lambda>b5.
          WT_RET (wt_vpack_uint 0 (ckpt_ckpt_size ci)) (\<lambda>b6.
          WT_RET
            (if blk_objectid block \<noteq> 0
             then WT_RET (wt_vpack_uint 0 (ucast (blk_objectid block)))
                    (\<lambda>b. Inr (WT_BLOCK_COOKIE_FILEID # b))
             else Inr []) (\<lambda>b7.
          Inr (ckpt_version ci # b1 @ b2 @ b3 @ b4 @ b5 @ b6 @ b7)))))))))"

subsection \<open>Extent list pairs\<close>

definition wt_extlist_write_pair :: "i64 \<Rightarrow> i64 \<Rightarrow> bytes result" where
  "wt_extlist_write_pair off sz =
     WT_RET (wt_vpack_uint 0 off) (\<lambda>b1. WT_RET (wt_vpack_uint 0 sz) (\<lambda>b2. Inr (b1 @ b2)))"

definition wt_extlist_read_pair :: "bytes \<Rightarrow> ((i64 \<times> i64) \<times> bytes) result" where
  "wt_extlist_read_pair p =
     WT_RET (wt_vunpack_uint 0 p) (\<lambda>(off, p1).
     WT_RET (wt_vunpack_uint 0 p1) (\<lambda>(sz, p2). Inr ((off, sz), p2)))"

subsection \<open>Addresses the block manager hands out\<close>

text \<open>
  An address is storable when it is the empty one, or when its offset and size are multiples of the
  allocation size and the offset is behind the first allocation unit, the file's description block.
\<close>

definition storable :: "'b wt_block_scheme \<Rightarrow> blk_addr \<Rightarrow> bool" where
  "storable block a \<longleftrightarrow>
     allocsize block \<noteq> 0 \<and>
     (addr_size a \<noteq> 0 \<longrightarrow>
        unat (allocsize block) dvd unat (addr_offset a) \<and>
        unat (allocsize block) dvd unat (addr_size a) \<and>
        unat (allocsize block) \<le> unat (addr_offset a))"

text \<open>The address a cookie stands for: the components of an empty address are not stored.\<close>

definition stored :: "'b wt_block_scheme \<Rightarrow> blk_addr \<Rightarrow> blk_addr" where
  "stored block a =
     (if addr_size a = 0
      then \<lparr>addr_objectid = 0, addr_offset = 0, addr_size = 0, addr_checksum = 0\<rparr>
      else a\<lparr>addr_objectid := (if has_objects block then addr_objectid a else 0)\<rparr>)"

definition empty_addr :: blk_addr where
  "empty_addr = \<lparr>addr_objectid = 0, addr_offset = 0, addr_size = 0, addr_checksum = 0\<rparr>"

definition stored_ckpt :: "'b wt_block_scheme \<Rightarrow> wt_block_ckpt \<Rightarrow> bool \<Rightarrow> wt_block_ckpt" where
  "stored_ckpt block ci skip_avail =
     (let st = (\<lambda>a. (stored block a)\<lparr>addr_objectid := blk_objectid block\<rparr>)
      in ci\<lparr>ckpt_root := st (ckpt_root ci), ckpt_alloc := st (ckpt_alloc ci),
            ckpt_avail := st (if skip_avail then empty_addr else ckpt_avail ci),
            ckpt_discard := st (ckpt_discard ci)\<rparr>)"

subsection \<open>Round trips\<close>

lemma div_mult_word: "unat d dvd unat x \<Longrightarrow> x div d * d = (x :: 'a :: len word)"
  by (simp add: word_unat_eq_iff unat_word_ariths(2) unat_div)

lemma unat_ucast_32_64 [simp]: "unat (ucast (x :: u32) :: u64) = unat x"
  using unsigned_less [of x, where ?'a = nat]
  by (simp add: unsigned_ucast_eq take_bit_nat_eq_self)

lemma ucast_32_64 [simp]: "(ucast (ucast (x :: u32) :: u64) :: u32) = x"
  by (rule bit_word_eqI) (simp add: bit_simps)

lemma ucast_32_64_eq_0 [simp]: "(ucast (x :: u32) :: u64) = 0 \<longleftrightarrow> x = 0"
  by (metis unat_ucast_32_64 word_eq_zero_iff_unat)

lemma stored_roundtrip:
  assumes "storable block a" "addr_size a \<noteq> 0"
  shows "addr_offset a div ucast (allocsize block) * ucast (allocsize block) = addr_offset a"
    and "addr_size a div allocsize block * allocsize block = addr_size a"
    and "addr_size a div allocsize block \<noteq> 0"
proof -
  show "addr_size a div allocsize block * allocsize block = addr_size a"
    using assms by (simp add: storable_def div_mult_word)
  then show "addr_size a div allocsize block \<noteq> 0"
    using assms(2) by auto
qed (use assms in \<open>simp add: storable_def div_mult_word\<close>)

text \<open>The three fixed components are read off the front of a cookie.\<close>

lemma unpack_triplet:
  assumes "wt_vpack_uint 0 off = Inr b1" "wt_vpack_uint 0 s = Inr b2" "wt_vpack_uint 0 c = Inr b3"
  shows "block_addr_unpack block (b1 @ b2 @ b3 @ rest) n =
    WT_RET
      (if n \<noteq> 0 \<and> length (b1 @ b2 @ b3) < n
       then case rest of [] \<Rightarrow> Inl OOB_READ
            | flags # p4 \<Rightarrow> if flags AND WT_BLOCK_COOKIE_FILEID \<noteq> 0 then wt_vunpack_uint 0 p4 else Inr (0, p4)
       else Inr (0, rest)) (\<lambda>(i, p5).
     Inr (if s = 0 then \<lparr>addr_objectid = 0, addr_offset = 0, addr_size = 0, addr_checksum = 0\<rparr>
          else \<lparr>addr_objectid = ucast i, addr_offset = (off + 1) * ucast (allocsize block),
                addr_size = ucast s * allocsize block, addr_checksum = ucast c\<rparr>, p5))"
  by (simp add: block_addr_unpack_def vuint.unpack_pack [OF assms(1)] vuint.unpack_pack [OF assms(2)]
      vuint.unpack_pack [OF assms(3)] del: wt_vunpack_uint.simps)

text \<open>An address cookie is read back as the address that is stored, also when more cookies follow.\<close>

lemma addr_unpack_pack:
  assumes st: "storable block a"
    and pk: "wt_block_addr_pack block (addr_objectid a) (addr_offset a) (addr_size a) (addr_checksum a) = Inr bs"
  shows "block_addr_unpack block bs (length bs) = Inr (stored block a, [])"
    and "addr_objectid a = 0 \<Longrightarrow> block_addr_unpack block (bs @ rest) 0 = Inr (stored block a, rest)"
proof -
  let ?off = "if addr_size a = 0 then 0 else addr_offset a div ucast (allocsize block) - 1"
  let ?s = "if addr_size a = 0 then 0 else ucast (addr_size a div allocsize block) :: u64"
  let ?c = "if addr_size a = 0 then 0 else ucast (addr_checksum a) :: u64"
  let ?i = "if addr_size a = 0 then 0 else ucast (addr_objectid a) :: u64"
  obtain b1 b2 b3 b4 where b: "wt_vpack_uint 0 ?off = Inr b1" "wt_vpack_uint 0 ?s = Inr b2"
    "wt_vpack_uint 0 ?c = Inr b3" "wt_vpack_uint 0 ?i = Inr b4"
    using vuint.pack_total by meson
  have bs: "bs = b1 @ b2 @ b3 @ (if ?i \<noteq> 0 \<and> has_objects block then WT_BLOCK_COOKIE_FILEID # b4 else [])"
    using pk b by (auto simp: wt_block_addr_pack_def Let_def WT_BLOCK_INVALID_OFFSET_def split: if_splits)
  note r = unpack_triplet [OF b(1-3)] unpack_triplet [OF b(1-3), of _ "[]", simplified append_Nil2]
    vuint.unpack_pack_end [OF b(4)]
  have e: "addr_size a = 0 \<or> addr_size a \<noteq> 0 \<and>
      addr_offset a div ucast (allocsize block) * ucast (allocsize block) = addr_offset a \<and>
      addr_size a div allocsize block * allocsize block = addr_size a \<and> addr_size a div allocsize block \<noteq> 0"
    using stored_roundtrip [OF st] by auto
  show "block_addr_unpack block bs (length bs) = Inr (stored block a, [])"
    using e unfolding bs 
    by (elim disjE; cases "has_objects block"; cases "addr_objectid a = 0") (simp_all add: r stored_def WT_BLOCK_COOKIE_FILEID_def del: wt_vunpack_uint.simps)
  show "addr_objectid a = 0 \<Longrightarrow> block_addr_unpack block (bs @ rest) 0 = Inr (stored block a, rest)"
    using e unfolding bs 
    by (elim disjE) (simp_all add: r stored_def del: wt_vunpack_uint.simps)
qed

interpretation extpair: codec "\<lambda>(off, sz). wt_extlist_write_pair off sz" wt_extlist_read_pair
proof unfold_locales
  fix x :: "i64 \<times> i64" and bs rest
  obtain off sz where x: "x = (off, sz)" by (cases x)
  obtain b1 b2 where b: "wt_vpack_uint 0 off = Inr b1" "wt_vpack_uint 0 sz = Inr b2"
    using vuint.pack_total by meson
  show "\<exists>bs. (case x of (off, sz) \<Rightarrow> wt_extlist_write_pair off sz) = Inr bs"
    by (simp add: x b wt_extlist_write_pair_def)
  show "wt_extlist_read_pair (bs @ rest) = Inr (x, rest)"
    if "(case x of (off, sz) \<Rightarrow> wt_extlist_write_pair off sz) = Inr bs"
    using that b by (auto simp: x wt_extlist_write_pair_def wt_extlist_read_pair_def
        vuint.unpack_pack [OF b(1)] vuint.unpack_pack [OF b(2)] simp del: wt_vunpack_uint.simps)
qed

lemma addr_pack_total: "\<exists>bs. bs \<noteq> [] \<and> wt_block_addr_pack block i off sz c = Inr bs"
  by (auto simp: wt_block_addr_pack_def Let_def vpack_uint_bytes uint_bytes_def)

text \<open>One address of a checkpoint cookie: packed without an object ID, and read back that way.\<close>

lemma ckpt_addr:
  assumes "storable block a"
  shows "\<exists>bs. wt_block_addr_pack block 0 (addr_offset a) (addr_size a) (addr_checksum a) = Inr bs \<and>
    (\<forall>rest. block_addr_unpack block (bs @ rest) 0 = Inr ((stored block a)\<lparr>addr_objectid := 0\<rparr>, rest))"
proof -
  obtain bs where "wt_block_addr_pack block 0 (addr_offset a) (addr_size a) (addr_checksum a) = Inr bs"
    using addr_pack_total by blast
  moreover have "storable block (a\<lparr>addr_objectid := 0\<rparr>)"
    using assms by (simp add: storable_def)
  moreover have "stored block (a\<lparr>addr_objectid := 0\<rparr>) = (stored block a)\<lparr>addr_objectid := 0\<rparr>"
    by (simp add: stored_def)
  ultimately show ?thesis
    using addr_unpack_pack(2) [of block "a\<lparr>addr_objectid := 0\<rparr>"] by simp
qed

lemma ckpt_unpack_pack:
  assumes "storable block (ckpt_root ci)" "storable block (ckpt_alloc ci)"
    "storable block (ckpt_avail ci)" "storable block (ckpt_discard ci)"
    "ckpt_version ci = WT_BM_CHECKPOINT_VERSION"
  shows "\<exists>bs. wt_block_ckpt_pack block ci skip = Inr bs \<and>
    wt_block_ckpt_unpack block bs (length bs) = Inr (stored_ckpt block ci skip)"
proof -
  let ?av = "if skip then empty_addr else ckpt_avail ci"
  have av: "storable block ?av" using assms by (simp add: storable_def empty_addr_def)
  obtain b1 where b1: "wt_block_addr_pack block 0 (addr_offset (ckpt_root ci)) (addr_size (ckpt_root ci)) (addr_checksum (ckpt_root ci)) = Inr b1"
    "\<And>rest. block_addr_unpack block (b1 @ rest) 0 = Inr ((stored block (ckpt_root ci))\<lparr>addr_objectid := 0\<rparr>, rest)"
    using ckpt_addr [OF assms(1)] by blast
  obtain b2 where b2: "wt_block_addr_pack block 0 (addr_offset (ckpt_alloc ci)) (addr_size (ckpt_alloc ci)) (addr_checksum (ckpt_alloc ci)) = Inr b2"
    "\<And>rest. block_addr_unpack block (b2 @ rest) 0 = Inr ((stored block (ckpt_alloc ci))\<lparr>addr_objectid := 0\<rparr>, rest)"
    using ckpt_addr [OF assms(2)] by blast
  obtain b3 where "wt_block_addr_pack block 0 (addr_offset ?av) (addr_size ?av) (addr_checksum ?av) = Inr b3"
    and b3: "\<And>rest. block_addr_unpack block (b3 @ rest) 0 = Inr ((stored block ?av)\<lparr>addr_objectid := 0\<rparr>, rest)"
    using ckpt_addr [OF av] by blast
  then have b3': "(if skip then wt_block_addr_pack block 0 0 0 0
      else wt_block_addr_pack block 0 (addr_offset (ckpt_avail ci)) (addr_size (ckpt_avail ci)) (addr_checksum (ckpt_avail ci))) = Inr b3"
    by (cases skip) (simp_all add: empty_addr_def)
  obtain b4 where b4: "wt_block_addr_pack block 0 (addr_offset (ckpt_discard ci)) (addr_size (ckpt_discard ci)) (addr_checksum (ckpt_discard ci)) = Inr b4"
    "\<And>rest. block_addr_unpack block (b4 @ rest) 0 = Inr ((stored block (ckpt_discard ci))\<lparr>addr_objectid := 0\<rparr>, rest)"
    using ckpt_addr [OF assms(4)] by blast
  obtain b5 where b5: "wt_vpack_uint 0 (ckpt_file_size ci) = Inr b5" "\<And>rest. wt_vunpack_uint 0 (b5 @ rest) = Inr (ckpt_file_size ci, rest)"
    using vuint.pack_unpack by blast
  obtain b6 where b6: "wt_vpack_uint 0 (ckpt_ckpt_size ci) = Inr b6" "\<And>rest. wt_vunpack_uint 0 (b6 @ rest) = Inr (ckpt_ckpt_size ci, rest)"
    using vuint.pack_unpack by blast
  obtain b7 where b7: "wt_vpack_uint 0 (ucast (blk_objectid block)) = Inr b7" "\<And>rest. wt_vunpack_uint 0 (b7 @ rest) = Inr (ucast (blk_objectid block), rest)"
    using vuint.pack_unpack by blast
  let ?tail = "if blk_objectid block \<noteq> 0 then WT_BLOCK_COOKIE_FILEID # b7 else []"
  let ?bs = "ckpt_version ci # b1 @ b2 @ b3 @ b4 @ b5 @ b6 @ ?tail"
  have "wt_block_ckpt_pack block ci skip = Inr ?bs"
    using assms(5) by (simp add: wt_block_ckpt_pack_def Let_def b1(1) b2(1) b3' b4(1) b5(1) b6(1) b7(1))
  moreover have "wt_block_ckpt_unpack block ?bs (length ?bs) = Inr (stored_ckpt block ci skip)"
    using assms(5) b7(2) [of "[]"]
    by (simp add: wt_block_ckpt_unpack_def block_ckpt_unpack_def b1(2) b2(2) b3 b4(2) b5(2) b6(2)
      stored_ckpt_def Let_def WT_BLOCK_COOKIE_FILEID_def)
  ultimately show ?thesis by blast
qed

lemma sint_eq_uint64: "uint (w :: i64) < 2 ^ 63 \<Longrightarrow> sint w = uint w"
proof -
  assume "uint w < 2 ^ 63"
  moreover have "- (2 ^ 63) \<le> uint w" using uint_ge_0 [of w] by (rule order_trans [rotated]) simp
  ultimately show ?thesis by (simp add: sint_uint signed_take_bit_int_eq_self)
qed

lemma sint_add_ucast:
  assumes "uint (x :: i64) + uint (y :: u32) < 2 ^ 63"
  shows "sint (x + ucast y) = uint x + uint y"
proof -
  have "uint (ucast y :: i64) = uint y"
    by (metis of_nat_unat unat_ucast_32_64 uint_nat)
  then have "uint (x + ucast y) = uint x + uint y"
    using assms by (simp add: uint_plus_if')
  with assms show ?thesis by (simp add: sint_eq_uint64)
qed

subsection \<open>Properties\<close>

text \<open>
  a storable block address survives its cookie: packing succeeds, and unpacking the cookie with its
  size consumes all of it and gives the address back, with object ID 0 when the file has no objects and
  as the empty address when the size is zero.
\<close>

theorem addr_cookie_roundtrip:
  assumes "storable block a"
  shows "\<exists>bs. wt_block_addr_pack block (addr_objectid a) (addr_offset a) (addr_size a) (addr_checksum a) = Inr bs \<and>
     block_addr_unpack block bs (length bs) = Inr (stored block a, [])"
  using addr_pack_total addr_unpack_pack(1) [OF assms] by blast

theorem addr_cookie_roundtrip_witness:
  "\<exists>bs. wt_block_addr_pack \<lparr>allocsize = 4096, has_objects = True, blk_objectid = 1, blk_size = 65536\<rparr>
       7 8192 4096 99 = Inr bs \<and>
     block_addr_unpack \<lparr>allocsize = 4096, has_objects = True, blk_objectid = 1, blk_size = 65536\<rparr> bs (length bs) =
       Inr (\<lparr>addr_objectid = 7, addr_offset = 8192, addr_size = 4096, addr_checksum = 99\<rparr>, [])"
proof -
  have "storable \<lparr>allocsize = 4096, has_objects = True, blk_objectid = 1, blk_size = 65536\<rparr>
      \<lparr>addr_objectid = 7, addr_offset = 8192, addr_size = 4096, addr_checksum = 99\<rparr>"
    by (simp add: storable_def)
  from addr_cookie_roundtrip [OF this] show ?thesis by (simp add: stored_def)
qed

text \<open>
  C21: a checkpoint cookie is read back as the checkpoint that was packed: root, allocated, available and
  discarded list addresses, file size and checkpoint size, every address with the object ID of the
  block handle; with \<open>skip_avail\<close> the available list is read back as empty.
\<close>

theorem ckpt_cookie_roundtrip:
  assumes "ckpt_version ci = WT_BM_CHECKPOINT_VERSION"
    and "storable block (ckpt_root ci)" "storable block (ckpt_alloc ci)"
    and "storable block (ckpt_avail ci)" "storable block (ckpt_discard ci)"
  shows "\<exists>bs. wt_block_ckpt_pack block ci skip = Inr bs \<and>
     wt_block_ckpt_unpack block bs (length bs) = Inr (stored_ckpt block ci skip)"
  using assms by (intro ckpt_unpack_pack)

theorem ckpt_cookie_roundtrip_witness:
  "\<exists>bs. wt_block_ckpt_pack \<lparr>allocsize = 512, has_objects = False, blk_objectid = 3, blk_size = 65536\<rparr>
       \<lparr>ckpt_version = 1,
        ckpt_root = \<lparr>addr_objectid = 3, addr_offset = 1024, addr_size = 512, addr_checksum = 5\<rparr>,
        ckpt_alloc = \<lparr>addr_objectid = 3, addr_offset = 2048, addr_size = 512, addr_checksum = 6\<rparr>,
        ckpt_avail = empty_addr, ckpt_discard = empty_addr,
        ckpt_file_size = 65536, ckpt_ckpt_size = 1024\<rparr> False = Inr bs \<and>
     wt_block_ckpt_unpack \<lparr>allocsize = 512, has_objects = False, blk_objectid = 3, blk_size = 65536\<rparr> bs (length bs) =
     Inr \<lparr>ckpt_version = 1,
        ckpt_root = \<lparr>addr_objectid = 3, addr_offset = 1024, addr_size = 512, addr_checksum = 5\<rparr>,
        ckpt_alloc = \<lparr>addr_objectid = 3, addr_offset = 2048, addr_size = 512, addr_checksum = 6\<rparr>,
        ckpt_avail = empty_addr\<lparr>addr_objectid := 3\<rparr>, ckpt_discard = empty_addr\<lparr>addr_objectid := 3\<rparr>,
        ckpt_file_size = 65536, ckpt_ckpt_size = 1024\<rparr>"
  using ckpt_cookie_roundtrip [of
      "\<lparr>ckpt_version = 1,
        ckpt_root = \<lparr>addr_objectid = 3, addr_offset = 1024, addr_size = 512, addr_checksum = 5\<rparr>,
        ckpt_alloc = \<lparr>addr_objectid = 3, addr_offset = 2048, addr_size = 512, addr_checksum = 6\<rparr>,
        ckpt_avail = empty_addr, ckpt_discard = empty_addr,
        ckpt_file_size = 65536, ckpt_ckpt_size = 1024\<rparr>"
      "\<lparr>allocsize = 512, has_objects = False, blk_objectid = 3, blk_size = 65536\<rparr>" False]
  by (simp add: storable_def stored_ckpt_def stored_def empty_addr_def WT_BM_CHECKPOINT_VERSION_def)

text \<open>
  a cookie is reported invalid exactly when it addresses this object and the block ends behind the
  end of the file.
\<close>

theorem addr_invalid_iff:
  assumes "storable block a" "addr_size a \<noteq> 0" "uint (addr_offset a) + uint (addr_size a) < 2 ^ 63"
    and "wt_block_addr_pack block (addr_objectid a) (addr_offset a) (addr_size a) (addr_checksum a) = Inr bs"
  shows "wt_block_addr_invalid block bs (length bs) =
    (if addr_objectid (stored block a) = blk_objectid block \<and>
        uint (addr_offset a) + uint (addr_size a) > blk_size block then Inl EINVAL else Inr ())"
proof -
  have "sint (addr_offset a + ucast (addr_size a)) = uint (addr_offset a) + uint (addr_size a)"
    using assms(3) by (intro sint_add_ucast)
  then show ?thesis
    using assms by (simp add: wt_block_addr_invalid_def wt_block_addr_unpack_def addr_unpack_pack(1) stored_def)
qed

theorem addr_invalid_iff_witness:
  "wt_block_addr_invalid \<lparr>allocsize = 512, has_objects = False, blk_objectid = 0, blk_size = 2048\<rparr>
     [0x82, 0x82, 0x85] 3 = Inl EINVAL"
  using addr_invalid_iff [of "\<lparr>allocsize = 512, has_objects = False, blk_objectid = 0, blk_size = 2048\<rparr>"
      "\<lparr>addr_objectid = 0, addr_offset = 1536, addr_size = 1024, addr_checksum = 5\<rparr>" "[0x82, 0x82, 0x85]"]
  by (simp add: storable_def stored_def wt_block_addr_pack_def vpack_uint_bytes uint_bytes_def numeral_3_eq_3)

text \<open>
  an offset and size pair of a written extent list is read back unchanged and the reader stops
  behind it, whatever follows.
\<close>

theorem extlist_pair_roundtrip:
  "\<exists>bs. wt_extlist_write_pair off sz = Inr bs \<and>
        (\<forall>rest. wt_extlist_read_pair (bs @ rest) = Inr ((off, sz), rest))"
  using extpair.pack_unpack [of "(off, sz)"] by simp

end
