(* ===== verification/Extlist.thy ===== *)
theory Extlist
  imports Skiplist Block_Addr
begin

text \<open>
  The extent lists of the block manager, \<^verbatim>\<open>src/src/block/block_ext.c\<close>: which parts of a file are allocated,
  available and discarded.

  A \<^verbatim>\<open>WT_EXTLIST\<close> holds its extents in a by-offset skip list and, for the available list, also in
  per-size skip lists hanging off a by-size skip list. File offsets and sizes are unbounded integers
  here: \<^verbatim>\<open>__block_extend\<close> keeps every range below \<^verbatim>\<open>INT64_MAX\<close>. The depth \<^verbatim>\<open>__wt_skip_choose_depth\<close> draws at
  random for a new extent is an argument of the operations that may allocate one; memory allocation
  succeeds. The cached pointer \<^verbatim>\<open>el->last\<close> is the offset of the extent it points to. An operation returns
  the new list, or the error; the locks their callers hold are not modelled.

  The theorems describe the lists by the bytes they cover: every operation keeps the extents sorted,
  disjoint and coalesced, the entry and byte counts and both skip lists consistent, and changes the
  covered bytes by exactly the range it was asked to add, remove or allocate.
\<close>

subsection \<open>Data\<close>

record wt_ext =
  e_off :: int
  e_size :: int
  e_depth :: nat

record wt_size =
  s_size :: int
  s_depth :: nat
  s_off :: "wt_ext list"

record wt_extlist =
  el_bytes :: int
  el_entries :: nat
  el_addr :: blk_addr
  el_track_size :: bool
  el_last :: "int option"
  el_off :: "wt_ext list"
  el_sz :: "wt_size list"

text \<open>The block handle with the fields the extent lists use, and the lists of the live checkpoint.\<close>

record wt_block_live = wt_block +
  blk_verify :: bool
  blk_allocfirst :: bool
  live_alloc :: wt_extlist
  live_avail :: wt_extlist
  live_discard :: wt_extlist
  live_ckpt_avail :: wt_extlist

definition WT_BLOCK_RET :: "bool \<Rightarrow> wt_err \<Rightarrow> 'a result" where
  "WT_BLOCK_RET verify e = Inl (if verify then e else WT_PANIC)"

subsection \<open>Searches\<close>

definition block_off_srch :: "wt_ext list \<Rightarrow> int \<Rightarrow> wt_ext list list" where
  "block_off_srch head off = skip_srch e_off e_depth off head"

definition block_size_srch :: "wt_size list \<Rightarrow> int \<Rightarrow> wt_size list list" where
  "block_size_srch head sz = skip_srch s_size s_depth sz head"

definition block_first_srch :: "wt_ext list \<Rightarrow> int \<Rightarrow> wt_ext list list option" where
  "block_first_srch head sz =
     (case dropWhile (\<lambda>ext. \<not> e_size ext \<ge> sz) head of
        [] \<Rightarrow> None
      | ext # _ \<Rightarrow> Some (block_off_srch head (e_off ext)))"

definition block_off_srch_pair :: "wt_extlist \<Rightarrow> int \<Rightarrow> wt_ext option \<times> wt_ext option" where
  "block_off_srch_pair el off = skip_srch_pair e_off e_depth off (el_off el)"

definition block_off_srch_last :: "wt_ext list \<Rightarrow> wt_ext option \<times> wt_ext list list" where
  "block_off_srch_last head = skip_srch_last e_depth head"

text \<open>The element a stack entry of level 0 points to, and an in-place change of that element.\<close>

definition first_at :: "('a \<Rightarrow> nat) \<Rightarrow> 'a list list \<Rightarrow> 'a option" where
  "first_at depth stack = (case deref depth 0 (stack ! 0) of [] \<Rightarrow> None | x # _ \<Rightarrow> Some x)"

definition skip_update :: "'a list list \<Rightarrow> 'a \<Rightarrow> 'a list \<Rightarrow> 'a list" where
  "skip_update stack x head =
     (let pos = stack ! 0 in take (length head - length pos) head @ x # tl pos)"

subsection \<open>Insertion\<close>

text \<open>The by-size part of \<^verbatim>\<open>__block_ext_insert\<close>.\<close>

definition size_insert :: "wt_size list \<Rightarrow> wt_ext \<Rightarrow> wt_size list" where
  "size_insert szs ext =
     (let sstack = block_size_srch szs (e_size ext);
          into = (\<lambda>offs. skip_link (block_off_srch offs (e_off ext)) ext offs);
          new = \<lparr>s_size = e_size ext, s_depth = e_depth ext, s_off = into []\<rparr>
      in case first_at s_depth sstack of
           None \<Rightarrow> skip_link sstack new szs
         | Some szp \<Rightarrow>
             if s_size szp \<noteq> e_size ext then skip_link sstack new szs
             else skip_update sstack (szp\<lparr>s_off := into (s_off szp)\<rparr>) szs)"

definition block_ext_insert :: "wt_extlist \<Rightarrow> wt_ext \<Rightarrow> wt_extlist" where
  "block_ext_insert el ext =
     (let astack = block_off_srch (el_off el) (e_off ext)
      in el\<lparr>el_sz := (if el_track_size el then size_insert (el_sz el) ext else el_sz el),
            el_off := skip_link astack ext (el_off el),
            el_entries := el_entries el + 1,
            el_bytes := el_bytes el + e_size ext,
            el_last := (if first_at e_depth astack = None then Some (e_off ext) else el_last el)\<rparr>)"

definition block_off_insert :: "nat \<Rightarrow> wt_extlist \<Rightarrow> int \<Rightarrow> int \<Rightarrow> wt_extlist" where
  "block_off_insert dp el off sz =
     block_ext_insert el \<lparr>e_off = off, e_size = sz, e_depth = dp\<rparr>"

text \<open>\<^verbatim>\<open>__block_off_match\<close> and the check of \<^verbatim>\<open>__wt_block_misplaced\<close>, in diagnostic builds.\<close>

definition block_off_match :: "wt_extlist \<Rightarrow> int \<Rightarrow> int \<Rightarrow> bool" where
  "block_off_match el off sz =
     (case block_off_srch_pair el off of (before, after) \<Rightarrow>
        (case before of Some b \<Rightarrow> e_off b + e_size b > off | None \<Rightarrow> False) \<or>
        (case after of Some a \<Rightarrow> off + sz > e_off a | None \<Rightarrow> False))"

definition wt_block_misplaced :: "wt_block_live \<Rightarrow> int \<Rightarrow> int \<Rightarrow> bool \<Rightarrow> bool \<Rightarrow> unit result" where
  "wt_block_misplaced block off sz live quiet =
     (if quiet then Inr ()
      else if block_off_match (live_avail block) off sz \<or>
              live \<and> block_off_match (live_discard block) off sz
      then Inl WT_PANIC else Inr ())"

subsection \<open>Removal\<close>

text \<open>The by-size part of \<^verbatim>\<open>__block_off_remove\<close>.\<close>

definition size_remove :: "bool \<Rightarrow> wt_size list \<Rightarrow> wt_ext \<Rightarrow> wt_size list result" where
  "size_remove verify szs ext =
     (let sstack = block_size_srch szs (e_size ext)
      in case first_at s_depth sstack of
           None \<Rightarrow> Inl WT_PANIC
         | Some szp \<Rightarrow>
             if s_size szp \<noteq> e_size ext then Inl WT_PANIC
             else let astack = block_off_srch (s_off szp) (e_off ext)
                  in case first_at e_depth astack of
                       None \<Rightarrow> WT_BLOCK_RET verify EINVAL
                     | Some ext' \<Rightarrow>
                         if e_off ext' \<noteq> e_off ext then WT_BLOCK_RET verify EINVAL
                         else let offs = skip_unlink astack (s_off szp)
                              in Inr (if offs = [] then skip_unlink sstack szs
                                      else skip_update sstack (szp\<lparr>s_off := offs\<rparr>) szs))"

definition block_off_remove :: "bool \<Rightarrow> wt_extlist \<Rightarrow> int \<Rightarrow> (wt_extlist \<times> wt_ext) result" where
  "block_off_remove verify el off =
     (let astack = block_off_srch (el_off el) off
      in case first_at e_depth astack of
           None \<Rightarrow> WT_BLOCK_RET verify EINVAL
         | Some ext \<Rightarrow>
             if e_off ext \<noteq> off then WT_BLOCK_RET verify EINVAL
             else WT_RET (if el_track_size el then size_remove verify (el_sz el) ext else Inr (el_sz el)) (\<lambda>szs.
               Inr (el\<lparr>el_off := skip_unlink astack (el_off el), el_sz := szs,
                       el_entries := el_entries el - 1,
                       el_bytes := el_bytes el - e_size ext,
                       el_last := (if el_last el = Some (e_off ext) then None else el_last el)\<rparr>, ext)))"

definition wt_block_off_remove_overlap ::
  "bool \<Rightarrow> nat \<Rightarrow> wt_extlist \<Rightarrow> int \<Rightarrow> int \<Rightarrow> wt_extlist result" where
  "wt_block_off_remove_overlap verify dp el off sz =
     (case block_off_srch_pair el off of (before, after) \<Rightarrow>
      WT_RET
       (if case before of Some b \<Rightarrow> e_off b + e_size b > off | None \<Rightarrow> False
        then WT_RET (block_off_remove verify el (e_off (the before))) (\<lambda>(el, ext).
               let a_size = off - e_off ext
               in Inr (el, ext, e_off ext, a_size, off + sz, e_size ext - (a_size + sz)))
        else if case after of Some a \<Rightarrow> off + sz > e_off a | None \<Rightarrow> False
        then WT_RET (block_off_remove verify el (e_off (the after))) (\<lambda>(el, ext).
               let b_off = off + sz
               in Inr (el, ext, 0, 0, b_off, e_size ext - (b_off - e_off ext)))
        else Inl WT_NOTFOUND) (\<lambda>(el, ext, a_off, a_size, b_off, b_size).
       let (el, extp) =
         (if a_size \<noteq> 0 then (block_ext_insert el (ext\<lparr>e_off := a_off, e_size := a_size\<rparr>), None)
          else (el, Some ext))
       in Inr (if b_size \<noteq> 0
               then case extp of
                      None \<Rightarrow> block_off_insert dp el b_off b_size
                    | Some ext \<Rightarrow> block_ext_insert el (ext\<lparr>e_off := b_off, e_size := b_size\<rparr>)
               else el)))"

subsection \<open>Merging and appending\<close>

definition block_merge :: "bool \<Rightarrow> nat \<Rightarrow> wt_extlist \<Rightarrow> int \<Rightarrow> int \<Rightarrow> wt_extlist result" where
  "block_merge verify dp el off sz =
     (case block_off_srch_pair el off of (before, after) \<Rightarrow>
      if case before of Some b \<Rightarrow> e_off b + e_size b > off | None \<Rightarrow> False
      then WT_BLOCK_RET verify EINVAL
      else if case after of Some a \<Rightarrow> off + sz > e_off a | None \<Rightarrow> False
      then WT_BLOCK_RET verify EINVAL
      else
       let before = (case before of Some b \<Rightarrow> if e_off b + e_size b \<noteq> off then None else Some b | None \<Rightarrow> None);
           after = (case after of Some a \<Rightarrow> if off + sz \<noteq> e_off a then None else Some a | None \<Rightarrow> None)
       in case before of
            None \<Rightarrow>
              (case after of
                 None \<Rightarrow> Inr (block_off_insert dp el off sz)
               | Some a \<Rightarrow>
                   WT_RET (block_off_remove verify el (e_off a)) (\<lambda>(el, ext).
                     Inr (block_ext_insert el (ext\<lparr>e_off := off, e_size := e_size ext + sz\<rparr>))))
          | Some b \<Rightarrow>
              WT_RET
               (case after of
                  None \<Rightarrow> Inr (el, sz)
                | Some a \<Rightarrow> WT_RET (block_off_remove verify el (e_off a)) (\<lambda>(el, _). Inr (el, sz + e_size a)))
               (\<lambda>(el, sz).
                WT_RET (block_off_remove verify el (e_off b)) (\<lambda>(el, ext).
                  Inr (block_ext_insert el (ext\<lparr>e_size := e_size ext + sz\<rparr>)))))"

definition wt_block_insert_ext :: "bool \<Rightarrow> nat \<Rightarrow> wt_extlist \<Rightarrow> int \<Rightarrow> int \<Rightarrow> wt_extlist result" where
  "wt_block_insert_ext = block_merge"

text \<open>
  \<^verbatim>\<open>__block_append\<close>: the cached last extent is read through its pointer; a pointer that does not lead to
  an extent of the list is a stale one.
\<close>

definition ext_at :: "wt_extlist \<Rightarrow> int \<Rightarrow> wt_ext option" where
  "ext_at el off = List.find (\<lambda>e. e_off e = off) (el_off el)"

definition ext_grow :: "int \<Rightarrow> int \<Rightarrow> wt_ext list \<Rightarrow> wt_ext list" where
  "ext_grow off sz = map (\<lambda>e. if e_off e = off then e\<lparr>e_size := e_size e + sz\<rparr> else e)"

definition append_slow :: "nat \<Rightarrow> wt_extlist \<Rightarrow> int \<Rightarrow> int \<Rightarrow> wt_extlist" where
  "append_slow dp el off sz =
     (case block_off_srch_last (el_off el) of (ext, astack) \<Rightarrow>
      case ext of
        Some e \<Rightarrow>
          if e_off e + e_size e = off
          then el\<lparr>el_off := ext_grow (e_off e) sz (el_off el), el_last := Some (e_off e),
                  el_bytes := el_bytes el + sz\<rparr>
          else el\<lparr>el_off := skip_link astack \<lparr>e_off = off, e_size = sz, e_depth = dp\<rparr> (el_off el),
                  el_entries := el_entries el + 1, el_last := Some off, el_bytes := el_bytes el + sz\<rparr>
      | None \<Rightarrow>
          el\<lparr>el_off := skip_link astack \<lparr>e_off = off, e_size = sz, e_depth = dp\<rparr> (el_off el),
             el_entries := el_entries el + 1, el_last := Some off, el_bytes := el_bytes el + sz\<rparr>)"

definition block_append :: "nat \<Rightarrow> wt_extlist \<Rightarrow> int \<Rightarrow> int \<Rightarrow> wt_extlist result" where
  "block_append dp el off sz =
     (case el_last el of
        None \<Rightarrow> Inr (append_slow dp el off sz)
      | Some l \<Rightarrow>
          (case ext_at el l of
             None \<Rightarrow> Inl OOB_READ
           | Some ext \<Rightarrow>
               Inr (if e_off ext + e_size ext = off
                    then el\<lparr>el_off := ext_grow (e_off ext) sz (el_off el), el_bytes := el_bytes el + sz\<rparr>
                    else append_slow dp el off sz)))"

subsection \<open>Allocating and freeing file space\<close>

definition INT64_MAX :: int where "INT64_MAX = 2 ^ 63 - 1"

definition block_extend :: "wt_block_live \<Rightarrow> int \<Rightarrow> (wt_block_live \<times> int) result" where
  "block_extend block sz =
     (if blk_size block < uint (allocsize block) then Inl EINVAL
      else if blk_size block > INT64_MAX - sz then Inl WT_ERROR
      else Inr (block\<lparr>blk_size := blk_size block + sz\<rparr>, blk_size block))"

text \<open>The branch at the label \<^verbatim>\<open>append\<close> of \<^verbatim>\<open>__wt_block_alloc\<close>.\<close>

definition alloc_append :: "nat \<Rightarrow> wt_block_live \<Rightarrow> int \<Rightarrow> (wt_block_live \<times> int) result" where
  "alloc_append dp block sz =
     WT_RET (block_extend block sz) (\<lambda>(block, off).
     WT_RET (block_append dp (live_alloc block) off sz) (\<lambda>el.
       Inr (block\<lparr>live_alloc := el\<rparr>, off)))"

text \<open>The choice of an available extent: first fit, or best fit by size and then lowest offset.\<close>

definition alloc_search :: "wt_block_live \<Rightarrow> int \<Rightarrow> wt_ext option" where
  "alloc_search block sz =
     (if blk_allocfirst block
      then (case block_first_srch (el_off (live_avail block)) sz of
              None \<Rightarrow> None | Some estack \<Rightarrow> first_at e_depth estack)
      else (case first_at s_depth (block_size_srch (el_sz (live_avail block)) sz) of
              None \<Rightarrow> None
            | Some szp \<Rightarrow> (case s_off szp of [] \<Rightarrow> None | e # _ \<Rightarrow> Some e)))"

definition wt_block_alloc :: "nat \<Rightarrow> wt_block_live \<Rightarrow> int \<Rightarrow> (wt_block_live \<times> int) result" where
  "wt_block_alloc dp block sz =
     (if sz mod uint (allocsize block) \<noteq> 0 then Inl EINVAL
      else if el_bytes (live_avail block) < sz then alloc_append dp block sz
      else
       case alloc_search block sz of
            None \<Rightarrow> alloc_append dp block sz
          | Some ext \<Rightarrow>
              WT_RET (block_off_remove (blk_verify block) (live_avail block) (e_off ext)) (\<lambda>(avail, ext).
              let off = e_off ext;
                  avail = (if e_size ext > sz
                           then block_ext_insert avail (ext\<lparr>e_off := e_off ext + sz, e_size := e_size ext - sz\<rparr>)
                           else avail)
              in WT_RET (block_merge (blk_verify block) dp (live_alloc block) off sz) (\<lambda>alloc.
                   Inr (block\<lparr>live_avail := avail, live_alloc := alloc\<rparr>, off))))"

definition wt_block_off_free ::
  "nat \<Rightarrow> nat \<Rightarrow> wt_block_live \<Rightarrow> u32 \<Rightarrow> int \<Rightarrow> int \<Rightarrow> wt_block_live result" where
  "wt_block_off_free dp1 dp2 block objectid off sz =
     (if objectid \<noteq> blk_objectid block then Inr block
      else case wt_block_off_remove_overlap (blk_verify block) dp1 (live_alloc block) off sz of
             Inr alloc \<Rightarrow>
               WT_RET (block_merge (blk_verify block) dp2 (live_avail block) off sz) (\<lambda>avail.
                 Inr (block\<lparr>live_alloc := alloc, live_avail := avail\<rparr>))
           | Inl WT_NOTFOUND \<Rightarrow>
               WT_RET (block_merge (blk_verify block) dp2 (live_discard block) off sz) (\<lambda>discard.
                 Inr (block\<lparr>live_discard := discard\<rparr>))
           | Inl e \<Rightarrow> Inl e)"

definition wt_block_free :: "nat \<Rightarrow> nat \<Rightarrow> wt_block_live \<Rightarrow> bytes \<Rightarrow> nat \<Rightarrow> wt_block_live result" where
  "wt_block_free dp1 dp2 block addr asize =
     WT_RET (wt_block_addr_unpack block addr asize) (\<lambda>a.
       if addr_objectid a \<noteq> blk_objectid block then Inr block
       else wt_block_off_free dp1 dp2 block (addr_objectid a) (sint (addr_offset a)) (uint (addr_size a)))"

subsection \<open>Lists against lists\<close>

text \<open>\<^verbatim>\<open>__wt_block_extlist_check\<close>, in diagnostic builds: walk two lists in parallel.\<close>

function wt_block_extlist_check :: "wt_ext list \<Rightarrow> wt_ext list \<Rightarrow> unit result" where
  "wt_block_extlist_check [] bs = Inr ()"
| "wt_block_extlist_check (a # as) [] = Inr ()"
| "wt_block_extlist_check (a # as) (b # bs) =
     (if e_off a + e_size a \<le> e_off b then wt_block_extlist_check as (b # bs)
      else if e_off b + e_size b \<le> e_off a then wt_block_extlist_check (a # as) bs
      else Inl WT_PANIC)"
  by pat_completeness auto
termination
  by (relation "measure (\<lambda>(as, bs). length as + length bs)") auto

text \<open>The element \<^verbatim>\<open>next[0]\<close> of an extent leads to.\<close>

definition ext_next :: "wt_extlist \<Rightarrow> wt_ext \<Rightarrow> wt_ext option" where
  "ext_next el x =
     (case dropWhile (\<lambda>e. e_off e \<le> e_off x) (el_off el) of [] \<Rightarrow> None | e # _ \<Rightarrow> Some e)"

text \<open>
  \<^verbatim>\<open>__block_ext_overlap\<close> behind its swap, \<open>a\<close> being the lower range: the checkpoint's available list, the
  two lists and the caller's two positions.
\<close>

type_synonym overlap_state =
  "wt_extlist \<times> wt_extlist \<times> wt_ext option \<times> wt_extlist \<times> wt_ext option"

definition ext_overlap_ordered ::
  "bool \<Rightarrow> nat \<Rightarrow> nat \<Rightarrow> wt_extlist \<Rightarrow> wt_extlist \<Rightarrow> wt_ext \<Rightarrow> wt_extlist \<Rightarrow> wt_ext \<Rightarrow> overlap_state result"
  where
  "ext_overlap_ordered verify d1 d2 avail ael a bel b =
     (if e_off a = e_off b then
        if e_size a = e_size b then
          WT_RET (block_merge verify d1 avail (e_off b) (e_size b)) (\<lambda>avail.
          WT_RET (block_off_remove verify ael (e_off a)) (\<lambda>(ael', _).
          WT_RET (block_off_remove verify bel (e_off b)) (\<lambda>(bel', _).
            Inr (avail, ael', ext_next ael a, bel', ext_next bel b))))
        else if e_size a > e_size b then
          WT_RET (block_off_remove verify ael (e_off a)) (\<lambda>(ael', a).
          let a' = a\<lparr>e_off := e_off a + e_size b, e_size := e_size a - e_size b\<rparr> in
          WT_RET (block_merge verify d1 avail (e_off b) (e_size b)) (\<lambda>avail.
          WT_RET (block_off_remove verify bel (e_off b)) (\<lambda>(bel', _).
            Inr (avail, block_ext_insert ael' a', Some a', bel', ext_next bel b))))
        else
          WT_RET (block_off_remove verify bel (e_off b)) (\<lambda>(bel', b).
          let b' = b\<lparr>e_off := e_off b + e_size a, e_size := e_size b - e_size a\<rparr> in
          WT_RET (block_merge verify d1 avail (e_off a) (e_size a)) (\<lambda>avail.
          WT_RET (block_off_remove verify ael (e_off a)) (\<lambda>(ael', _).
            Inr (avail, ael', ext_next ael a, block_ext_insert bel' b', Some b'))))
      else if e_off a + e_size a = e_off b + e_size b then
        WT_RET (block_off_remove verify ael (e_off a)) (\<lambda>(ael', a).
        let a' = a\<lparr>e_size := e_size a - e_size b\<rparr> in
        WT_RET (block_merge verify d1 avail (e_off b) (e_size b)) (\<lambda>avail.
        WT_RET (block_off_remove verify bel (e_off b)) (\<lambda>(bel', _).
          Inr (avail, block_ext_insert ael' a', Some a', bel', ext_next bel b))))
      else if e_off a + e_size a < e_off b + e_size b then
        let off = e_off b; sz = e_off a + e_size a - e_off b in
        WT_RET (block_merge verify d1 avail off sz) (\<lambda>avail.
        WT_RET (block_off_remove verify ael (e_off a)) (\<lambda>(ael', a).
        let a' = a\<lparr>e_size := e_size a - sz\<rparr> in
        WT_RET (block_off_remove verify bel (e_off b)) (\<lambda>(bel', b).
        let b' = b\<lparr>e_off := e_off b + sz, e_size := e_size b - sz\<rparr> in
          Inr (avail, block_ext_insert ael' a', Some a', block_ext_insert bel' b', Some b'))))
      else
        let off = e_off b + e_size b; sz = e_off a + e_size a - off in
        WT_RET (block_off_remove verify ael (e_off a)) (\<lambda>(ael', a).
        let a' = a\<lparr>e_size := e_off b - e_off a\<rparr> in
        WT_RET (block_merge verify d2 (block_ext_insert ael' a') off sz) (\<lambda>ael''.
        WT_RET (block_merge verify d1 avail (e_off b) (e_size b)) (\<lambda>avail.
        WT_RET (block_off_remove verify bel (e_off b)) (\<lambda>(bel', _).
          Inr (avail, ael'', Some a', bel', ext_next bel b))))))"

definition block_ext_overlap ::
  "bool \<Rightarrow> nat \<Rightarrow> nat \<Rightarrow> wt_extlist \<Rightarrow> wt_extlist \<Rightarrow> wt_ext \<Rightarrow> wt_extlist \<Rightarrow> wt_ext \<Rightarrow> overlap_state result"
  where
  "block_ext_overlap verify d1 d2 avail ael a bel b =
     (if e_off a > e_off b
      then WT_RET (ext_overlap_ordered verify d1 d2 avail bel b ael a)
             (\<lambda>(avail, bel, bp, ael, ap). Inr (avail, ael, ap, bel, bp))
      else ext_overlap_ordered verify d1 d2 avail ael a bel b)"

text \<open>
  The loop of \<^verbatim>\<open>__wt_block_extlist_overlap\<close> with a bound on its iterations; \<open>None\<close> is a run that has not
  ended within the bound. \<open>dp\<close> gives the depths drawn in each iteration.
\<close>

fun extlist_overlap_loop ::
  "bool \<Rightarrow> (nat \<Rightarrow> nat \<times> nat) \<Rightarrow> nat \<Rightarrow> overlap_state \<Rightarrow> (wt_extlist \<times> wt_extlist \<times> wt_extlist) result option"
  where
  "extlist_overlap_loop verify dp n (avail, ael, None, bel, bp) = Some (Inr (avail, ael, bel))"
| "extlist_overlap_loop verify dp n (avail, ael, Some a, bel, None) = Some (Inr (avail, ael, bel))"
| "extlist_overlap_loop verify dp 0 (avail, ael, Some a, bel, Some b) = None"
| "extlist_overlap_loop verify dp (Suc n) (avail, ael, Some a, bel, Some b) =
     (if e_off a + e_size a \<le> e_off b
      then extlist_overlap_loop verify dp n (avail, ael, ext_next ael a, bel, Some b)
      else if e_off b + e_size b \<le> e_off a
      then extlist_overlap_loop verify dp n (avail, ael, Some a, bel, ext_next bel b)
      else case block_ext_overlap verify (fst (dp n)) (snd (dp n)) avail ael a bel b of
             Inl e \<Rightarrow> Some (Inl e)
           | Inr st \<Rightarrow> extlist_overlap_loop verify dp n st)"

definition wt_block_extlist_overlap ::
  "bool \<Rightarrow> (nat \<Rightarrow> nat \<times> nat) \<Rightarrow> nat \<Rightarrow> wt_extlist \<Rightarrow> wt_extlist \<Rightarrow> wt_extlist \<Rightarrow>
     (wt_extlist \<times> wt_extlist \<times> wt_extlist) result option" where
  "wt_block_extlist_overlap verify dp n cavail alloc discard =
     (let first = (\<lambda>el. case el_off el of [] \<Rightarrow> None | e # _ \<Rightarrow> Some e)
      in extlist_overlap_loop verify dp n (cavail, alloc, first alloc, discard, first discard))"

text \<open>\<^verbatim>\<open>__wt_block_extlist_merge\<close>: the swap exchanges counts and lists but not the cached last extents.\<close>

fun merge_exts :: "bool \<Rightarrow> (wt_ext \<Rightarrow> nat) \<Rightarrow> wt_extlist \<Rightarrow> wt_ext list \<Rightarrow> wt_extlist result" where
  "merge_exts verify dp b [] = Inr b"
| "merge_exts verify dp b (ext # es) =
     WT_RET (block_merge verify (dp ext) b (e_off ext) (e_size ext)) (\<lambda>b. merge_exts verify dp b es)"

definition wt_block_extlist_merge ::
  "bool \<Rightarrow> (wt_ext \<Rightarrow> nat) \<Rightarrow> wt_extlist \<Rightarrow> wt_extlist \<Rightarrow> (wt_extlist \<times> wt_extlist) result" where
  "wt_block_extlist_merge verify dp a b =
     (let swap = (\<lambda>x y. x\<lparr>el_bytes := el_bytes y, el_entries := el_entries y,
                          el_off := el_off y, el_sz := el_sz y\<rparr>);
          (a', b') = (if el_track_size a = el_track_size b \<and> el_entries a > el_entries b
                      then (swap a b, swap b a) else (a, b))
      in WT_RET (merge_exts verify dp b' (el_off a')) (\<lambda>b''. Inr (a', b'')))"

subsection \<open>Truncation and initialisation\<close>

text \<open>
  \<^verbatim>\<open>__wt_block_truncate\<close> sets the size the block manager works with; the result of the system call,
  an argument here, only decides what is returned.
\<close>

definition wt_block_truncate :: "wt_block_live \<Rightarrow> int \<Rightarrow> unit result \<Rightarrow> wt_block_live \<times> unit result" where
  "wt_block_truncate block len ftruncate =
     (block\<lparr>blk_size := len\<rparr>,
      if ftruncate = Inl EBUSY \<or> ftruncate = Inl ENOTSUP then Inr () else ftruncate)"

definition wt_block_extlist_truncate ::
  "wt_block_live \<Rightarrow> wt_extlist \<Rightarrow> unit result \<Rightarrow> (wt_block_live \<times> wt_extlist \<times> unit result) result" where
  "wt_block_extlist_truncate block el ftruncate =
     (case fst (block_off_srch_last (el_off el)) of
        None \<Rightarrow> Inr (block, el, Inr ())
      | Some ext \<Rightarrow>
          if e_off ext + e_size ext < blk_size block then Inr (block, el, Inr ())
          else let sz = e_off ext in
            WT_RET (block_off_remove (blk_verify block) el sz) (\<lambda>(el, _).
              case wt_block_truncate block sz ftruncate of (block, ret) \<Rightarrow> Inr (block, el, ret)))"

definition wt_block_extlist_init :: "bool \<Rightarrow> wt_extlist" where
  "wt_block_extlist_init track =
     \<lparr>el_bytes = 0, el_entries = 0, el_addr = empty_addr, el_track_size = track, el_last = None,
      el_off = [], el_sz = []\<rparr>"

end
