(* ===== verification/Extlist_Inv.thy ===== *)
theory Extlist_Inv
  imports Extlist
begin

text \<open>
  The invariant of the extent lists of theory \<open>Extlist\<close>, and the basic operations under it: the skip lists of
  extents and of sizes are interpreted as instances of the skip list interface, so that searching,
  inserting and removing become operations on sorted lists, and from there on the set of extents of
  the list. Inserting and removing preserve the invariant in both skip lists, the counts and the
  cached last extent.
\<close>

subsection \<open>Well-formed lists\<close>

text \<open>
  Extents in offset order, none empty, with a gap between any two neighbours (adjacent ranges have
  been merged); the by-size list holds a bucket for each size in use, with the extents of that size in
  offset order.
\<close>

definition wf_ext :: "wt_ext \<Rightarrow> bool" where
  "wf_ext e \<longleftrightarrow> 0 < e_size e \<and> 0 < e_depth e \<and> e_depth e \<le> WT_SKIP_MAXDEPTH"

definition wf_exts :: "wt_ext list \<Rightarrow> bool" where
  "wf_exts xs \<longleftrightarrow> sorted_wrt (\<lambda>a b. e_off a + e_size a < e_off b) xs \<and> list_all wf_ext xs"

definition wf_sizes :: "wt_size list \<Rightarrow> bool" where
  "wf_sizes szs \<longleftrightarrow> sorted_wrt (\<lambda>a b. s_size a < s_size b) szs \<and>
     list_all (\<lambda>s. 0 < s_depth s \<and> s_depth s \<le> WT_SKIP_MAXDEPTH) szs"

definition wf_szs :: "wt_size list \<Rightarrow> wt_ext list \<Rightarrow> bool" where
  "wf_szs szs xs \<longleftrightarrow> wf_sizes szs \<and>
     list_all (\<lambda>s. s_off s = filter (\<lambda>e. e_size e = s_size s) xs \<and> s_off s \<noteq> []) szs \<and>
     list_all (\<lambda>e. e_size e \<in> set (map s_size szs)) xs"

definition wf_el :: "wt_extlist \<Rightarrow> bool" where
  "wf_el el \<longleftrightarrow> wf_exts (el_off el) \<and>
     el_entries el = length (el_off el) \<and>
     el_bytes el = sum_list (map e_size (el_off el)) \<and>
     (el_last el = None \<or> el_off el \<noteq> [] \<and> el_last el = Some (e_off (last (el_off el)))) \<and>
     (el_track_size el \<longrightarrow> wf_szs (el_sz el) (el_off el))"

definition ext_range :: "wt_ext \<Rightarrow> int set" where
  "ext_range e = {e_off e ..< e_off e + e_size e}"

definition covered :: "wt_extlist \<Rightarrow> int set" where
  "covered el = (\<Union>e \<in> set (el_off el). ext_range e)"

definition apart :: "wt_ext \<Rightarrow> wt_ext \<Rightarrow> bool" where
  "apart a b \<longleftrightarrow> e_off a + e_size a < e_off b \<or> e_off b + e_size b < e_off a"

abbreviation placed :: "wt_ext \<Rightarrow> wt_ext list \<Rightarrow> wt_ext list" where
  "placed x xs \<equiv> filter (\<lambda>e. e_off e < e_off x) xs @ x # filter (\<lambda>e. \<not> e_off e < e_off x) xs"

abbreviation without :: "wt_ext \<Rightarrow> wt_ext list \<Rightarrow> wt_ext list" where
  "without x xs \<equiv> filter (\<lambda>e. e_off e \<noteq> e_off x) xs"

abbreviation exts :: "wt_extlist \<Rightarrow> wt_ext set" where
  "exts el \<equiv> set (el_off el)"

text \<open>
  The situation of a merge: the range is disjoint from the list, \<open>before\<close> and \<open>after\<close> are the neighbours
  the search returned. An extent that touches the range is one of them.
\<close>

definition neighbours :: "wt_extlist \<Rightarrow> int \<Rightarrow> wt_ext option \<Rightarrow> wt_ext option \<Rightarrow> bool" where
  "neighbours el off before after \<longleftrightarrow>
     (case before of None \<Rightarrow> \<forall>e \<in> exts el. off \<le> e_off e
      | Some b \<Rightarrow> b \<in> exts el \<and> e_off b < off \<and> (\<forall>e \<in> exts el. e_off e < off \<longrightarrow> e_off e \<le> e_off b)) \<and>
     (case after of None \<Rightarrow> \<forall>e \<in> exts el. e_off e < off
      | Some a \<Rightarrow> a \<in> exts el \<and> off \<le> e_off a \<and> (\<forall>e \<in> exts el. off \<le> e_off e \<longrightarrow> e_off a \<le> e_off e))"

lemma wf_exts_ascending: "wf_exts xs \<Longrightarrow> ascending e_off xs"
  by (auto simp: wf_exts_def wf_ext_def list_all_iff elim!: sorted_wrt_mono_rel [rotated])

interpretation ext_skip: skiplist e_off e_depth wf_exts
  by unfold_locales (auto simp: wf_exts_ascending wf_exts_def wf_ext_def list_all_iff)

interpretation sz_skip: skiplist s_size s_depth wf_sizes
  by unfold_locales (auto simp: wf_sizes_def list_all_iff)

lemma wf_exts_filter: "wf_exts xs \<Longrightarrow> wf_exts (filter P xs)"
  by (auto simp: wf_exts_def list_all_iff intro: sorted_wrt_filter)

lemma wf_exts_depth: "wf_exts xs \<Longrightarrow> \<forall>x \<in> set xs. 0 < e_depth x"
  by (auto simp: wf_exts_def wf_ext_def list_all_iff)

lemma wf_sizes_depth: "wf_sizes szs \<Longrightarrow> \<forall>x \<in> set szs. 0 < s_depth x"
  by (auto simp: wf_sizes_def list_all_iff)

lemma off_srch_first:
  assumes "wf_exts xs"
  shows "first_at e_depth (block_off_srch xs k) =
    (case filter (\<lambda>e. \<not> e_off e < k) xs of [] \<Rightarrow> None | e # _ \<Rightarrow> Some e)"
proof -
  have "\<forall>x \<in> set (filter (\<lambda>e. \<not> e_off e < k) xs). 0 < e_depth x"
    using wf_exts_depth [OF assms] by auto
  then show ?thesis
    using ext_skip.srch_0 [OF assms, of k] ascending_dropWhile [OF wf_exts_ascending [OF assms], of k]
    by (simp add: first_at_def block_off_srch_def deref_0)
qed

lemma size_srch_first:
  assumes "wf_sizes szs"
  shows "first_at s_depth (block_size_srch szs k) =
    (case filter (\<lambda>e. \<not> s_size e < k) szs of [] \<Rightarrow> None | e # _ \<Rightarrow> Some e)"
proof -
  have "\<forall>x \<in> set (filter (\<lambda>e. \<not> s_size e < k) szs). 0 < s_depth x"
    using wf_sizes_depth [OF assms] by auto
  then show ?thesis
    using sz_skip.srch_0 [OF assms, of k] ascending_dropWhile [OF sz_skip.wf_ascending [OF assms], of k]
    by (simp add: first_at_def block_size_srch_def deref_0)
qed

lemma off_link:
  "wf_exts xs \<Longrightarrow> skip_link (block_off_srch xs k) x xs =
     filter (\<lambda>e. e_off e < k) xs @ x # filter (\<lambda>e. \<not> e_off e < k) xs"
  by (simp add: block_off_srch_def ext_skip.link_srch wf_exts_ascending ascending_takeWhile ascending_dropWhile)

lemma off_unlink:
  "wf_exts xs \<Longrightarrow> skip_unlink (block_off_srch xs k) xs =
     filter (\<lambda>e. e_off e < k) xs @ tl (filter (\<lambda>e. \<not> e_off e < k) xs)"
  by (simp add: block_off_srch_def ext_skip.unlink_srch wf_exts_ascending ascending_takeWhile ascending_dropWhile)

lemma size_link:
  "wf_sizes szs \<Longrightarrow> skip_link (block_size_srch szs k) x szs =
     filter (\<lambda>s. s_size s < k) szs @ x # filter (\<lambda>s. \<not> s_size s < k) szs"
  using sz_skip.wf_ascending
  by (simp add: block_size_srch_def sz_skip.link_srch ascending_takeWhile ascending_dropWhile)

lemma size_unlink:
  "wf_sizes szs \<Longrightarrow> skip_unlink (block_size_srch szs k) szs =
     filter (\<lambda>s. s_size s < k) szs @ tl (filter (\<lambda>s. \<not> s_size s < k) szs)"
  using sz_skip.wf_ascending
  by (simp add: block_size_srch_def sz_skip.unlink_srch ascending_takeWhile ascending_dropWhile)

lemma size_update:
  "wf_sizes szs \<Longrightarrow> skip_update (block_size_srch szs k) x szs =
     filter (\<lambda>s. s_size s < k) szs @ x # tl (filter (\<lambda>s. \<not> s_size s < k) szs)"
  using sz_skip.wf_ascending [of szs] take_cut [of szs "\<lambda>s. s_size s < k"]
  by (simp add: block_size_srch_def skip_update_def sz_skip.srch_0 Let_def ascending_takeWhile ascending_dropWhile)

text \<open>Where an element with a given key sits in a sorted list.\<close>

lemma ascending_split:
  assumes "ascending key xs" "x \<in> set xs"
  shows "filter (\<lambda>e. \<not> key e < key x) xs = x # filter (\<lambda>e. key x < key e) xs"
  using assms
proof (induction xs)
  case (Cons a xs)
  show ?case
  proof (cases "x = a")
    case True
    with Cons.prems(1) show ?thesis by (auto simp: filter_id_conv not_less intro!: filter_cong)
  next
    case False
    with Cons show ?thesis by auto
  qed
qed simp

lemma ascending_filter_split:
  "ascending key xs \<Longrightarrow> filter (\<lambda>e. key e < k) xs @ filter (\<lambda>e. \<not> key e < k) xs = xs"
  by (metis ascending_dropWhile ascending_takeWhile takeWhile_dropWhile_id)

lemma ascending_remove:
  assumes "ascending key xs" "x \<in> set xs"
  shows "filter (\<lambda>e. key e < key x) xs @ filter (\<lambda>e. key x < key e) xs = filter (\<lambda>e. key e \<noteq> key x) xs"
  using assms
proof (induction xs)
  case (Cons a xs)
  show ?case
  proof (cases "x = a")
    case True
    with Cons.prems(1) have "filter (\<lambda>e. key e < key x) xs = []" "filter (\<lambda>e. key x < key e) xs = xs"
      "filter (\<lambda>e. key e \<noteq> key x) xs = xs"
      by (auto simp: filter_empty_conv filter_id_conv)
    with True show ?thesis by simp
  next
    case False
    with Cons show ?thesis by auto
  qed
qed simp


subsection \<open>Insertion\<close>

lemma wf_exts_placed:
  assumes "wf_exts xs" "wf_ext x" "\<forall>e \<in> set xs. apart x e"
  shows "wf_exts (placed x xs)"
proof -
  have p: "0 < e_size e" if "e \<in> set xs" for e using that assms(1) by (auto simp: wf_exts_def wf_ext_def list_all_iff)
  have "\<forall>e \<in> set (filter (\<lambda>e. e_off e < e_off x) xs). e_off e + e_size e < e_off x"
    "\<forall>e \<in> set (filter (\<lambda>e. \<not> e_off e < e_off x) xs). e_off x + e_size x < e_off e"
    using assms(2,3) p by (force simp: apart_def wf_ext_def)+
  moreover have "0 < e_size x" using assms(2) by (simp add: wf_ext_def)
  ultimately show ?thesis
    using assms(1,2) by (auto simp: wf_exts_def list_all_iff sorted_wrt_append intro: sorted_wrt_filter)
qed

lemma filter_placed:
  "filter P (placed x xs) = (if P x then placed x (filter P xs) else filter P xs)"
  if "ascending e_off xs"
  using ascending_filter_split [of e_off "filter P xs" "e_off x"] sorted_wrt_filter [OF that, of P]
  by (auto simp: filter_filter conj_commute)

lemma wf_sizes_placed:
  assumes "wf_sizes szs" "0 < s_depth s" "s_depth s \<le> WT_SKIP_MAXDEPTH" "\<forall>t \<in> set szs. s_size t \<noteq> s_size s"
  shows "wf_sizes (filter (\<lambda>t. s_size t < s_size s) szs @ s # filter (\<lambda>t. \<not> s_size t < s_size s) szs)"
  using assms by (force simp: wf_sizes_def list_all_iff sorted_wrt_append intro: sorted_wrt_filter)

lemma no_bucket:
  assumes "wf_szs szs xs" "\<forall>t \<in> set szs. s_size t \<noteq> k" shows "filter (\<lambda>e. e_size e = k) xs = []"
  using assms by (force simp: wf_szs_def list_all_iff filter_empty_conv)

lemma size_insert_wf:
  assumes "wf_szs szs xs" "wf_exts xs" "wf_ext x"
  shows "wf_szs (size_insert szs x) (placed x xs)"
proof -
  let ?k = "e_size x" and ?lo = "filter (\<lambda>t. s_size t < e_size x) szs" and ?up = "filter (\<lambda>t. \<not> s_size t < e_size x) szs"
  have s: "wf_sizes szs" using assms(1) by (simp add: wf_szs_def)
  have split: "?lo @ ?up = szs" using sz_skip.wf_ascending [OF s] by (rule ascending_filter_split)
  note asc = wf_exts_ascending [OF assms(2)]
  have b: "s_off t = filter (\<lambda>e. e_size e = s_size t) xs" "s_off t \<noteq> []" if "t \<in> set szs" for t
    using assms(1) that by (auto simp: wf_szs_def list_all_iff)
  have other: "filter (\<lambda>e. e_size e = s_size t) (placed x xs) = s_off t" if "t \<in> set szs" "s_size t \<noteq> ?k" for t
    using b(1) [OF that(1)] that(2) asc by (subst filter_placed) auto
  have covered: "\<forall>e \<in> set xs. e_size e \<in> s_size ` set szs"
    using assms(1) by (simp add: wf_szs_def list_all_iff)
  show ?thesis
  proof (cases "\<exists>t \<in> set szs. s_size t = ?k")
    case True
    then obtain t where t: "t \<in> set szs" "s_size t = ?k" by blast
    have up: "?up = t # filter (\<lambda>u. ?k < s_size u) szs"
      using ascending_split [OF sz_skip.wf_ascending [OF s] t(1)] t(2) by simp
    let ?t = "t\<lparr>s_off := placed x (s_off t)\<rparr>"
    have ins: "size_insert szs x = ?lo @ ?t # filter (\<lambda>u. ?k < s_size u) szs"
      using up t b(1) [OF t(1)] wf_exts_filter [OF assms(2), of "\<lambda>e. e_size e = s_size t"]
      by (simp add: size_insert_def size_srch_first s size_update off_link Let_def)
    have "placed x (s_off t) = filter (\<lambda>e. e_size e = ?k) (placed x xs)"
      using asc b(1) [OF t(1)] t(2) by (subst filter_placed) auto
    moreover have szs: "szs = ?lo @ t # filter (\<lambda>u. ?k < s_size u) szs" using split up by simp
    moreover have "wf_sizes (?lo @ ?t # filter (\<lambda>u. ?k < s_size u) szs)"
      using s by (subst (asm) szs) (auto simp: wf_sizes_def sorted_wrt_append list_all_iff)
    moreover have "\<forall>e \<in> set (placed x xs). e_size e \<in> s_size ` set (?lo @ ?t # filter (\<lambda>u. ?k < s_size u) szs)"
    proof -
      have "s_size ` set szs = s_size ` set (?lo @ ?t # filter (\<lambda>u. ?k < s_size u) szs)"
        by (subst szs) simp
      with covered t show ?thesis by (auto simp: image_iff)
    qed
    ultimately show ?thesis
      using other t(2) b(2) unfolding ins wf_szs_def by (auto simp: list_all_iff)
  next
    case False
    let ?t = "\<lparr>s_size = e_size x, s_depth = e_depth x, s_off = [x]\<rparr>"
    have ins: "size_insert szs x = ?lo @ ?t # ?up"
      using False by (auto simp: size_insert_def size_srch_first s size_link off_link wf_exts_def Let_def filter_empty_conv
          split: list.splits dest!: filter_eq_ConsD)
    have "wf_sizes (?lo @ ?t # ?up)"
      using wf_sizes_placed [OF s, of ?t] False assms(3) by (simp add: wf_ext_def)
    moreover have "filter (\<lambda>e. e_size e = ?k) (placed x xs) = [x]"
      using no_bucket [OF assms(1), of ?k] False asc by (subst filter_placed) auto
    moreover have "\<forall>e \<in> set (placed x xs). e_size e \<in> s_size ` set (?lo @ ?t # ?up)"
      using covered by (auto simp: image_iff)
    ultimately show ?thesis
      using other False b unfolding ins wf_szs_def by (auto simp: list_all_iff)
  qed
qed


text \<open>Inserting an extent that keeps a gap to all others: the list stays well-formed and gains it.\<close>

lemma ext_insert_wf:
  assumes "wf_el el" "wf_ext x" "\<forall>e \<in> set (el_off el). apart x e"
  shows "wf_el (block_ext_insert el x)"
    and "el_off (block_ext_insert el x) = placed x (el_off el)"
proof -
  have w: "wf_exts (el_off el)" using assms(1) by (simp add: wf_el_def)
  note p = wf_exts_placed [OF w assms(2,3)]
  let ?up = "filter (\<lambda>e. \<not> e_off e < e_off x) (el_off el)"
  show off: "el_off (block_ext_insert el x) = placed x (el_off el)"
    by (simp add: block_ext_insert_def off_link w Let_def)
  have split: "el_off el = filter (\<lambda>e. e_off e < e_off x) (el_off el) @ ?up"
    using ascending_filter_split [OF wf_exts_ascending [OF w]] by metis
  have "length (placed x (el_off el)) = Suc (length (el_off el))"
    using arg_cong [OF split, of length] by simp
  moreover have "sum_list (map e_size (placed x (el_off el))) = e_size x + sum_list (map e_size (el_off el))"
    using arg_cong [OF split, of "\<lambda>l. sum_list (map e_size l)"] by simp
  moreover have "el_last (block_ext_insert el x) = (if ?up = [] then Some (e_off x) else el_last el)"
    by (simp add: block_ext_insert_def off_srch_first w Let_def split: list.splits)
  moreover have "last (placed x (el_off el)) = (if ?up = [] then x else last (el_off el))"
    using arg_cong [OF split, of last] by auto
  ultimately show "wf_el (block_ext_insert el x)"
    using assms(1,2) p size_insert_wf [OF _ w assms(2)] unfolding wf_el_def off
    by (auto simp: block_ext_insert_def Let_def)
qed


subsection \<open>Removal\<close>

lemma ext_found:
  assumes "wf_exts xs" "x \<in> set xs"
  shows "first_at e_depth (block_off_srch xs (e_off x)) = Some x"
    and "skip_unlink (block_off_srch xs (e_off x)) xs = without x xs"
  using assms ascending_split [OF wf_exts_ascending [OF assms(1)] assms(2)]
    ascending_remove [OF wf_exts_ascending [OF assms(1)] assms(2)]
  by (simp_all add: off_srch_first off_unlink)

lemma same_off_same_ext:
  assumes "wf_exts xs" "x \<in> set xs" "e \<in> set xs" "e_off e = e_off x" shows "e = x"
proof -
  have "ascending e_off xs \<Longrightarrow> e = x"
    using assms(2-4) by (induction xs) auto
  with wf_exts_ascending [OF assms(1)] show ?thesis by simp
qed

lemma size_remove_wf:
  assumes "wf_szs szs xs" "wf_exts xs" "x \<in> set xs"
  shows "\<exists>szs'. size_remove verify szs x = Inr szs' \<and> wf_szs szs' (without x xs)"
proof -
  let ?k = "e_size x" and ?lo = "filter (\<lambda>t. s_size t < e_size x) szs" and ?hi = "filter (\<lambda>t. e_size x < s_size t) szs"
  have s: "wf_sizes szs" using assms(1) by (simp add: wf_szs_def)
  note asc = sz_skip.wf_ascending [OF s]
  have b: "s_off t = filter (\<lambda>e. e_size e = s_size t) xs" "s_off t \<noteq> []" if "t \<in> set szs" for t
    using assms(1) that by (auto simp: wf_szs_def list_all_iff)
  have covered: "\<forall>e \<in> set xs. e_size e \<in> s_size ` set szs"
    using assms(1) by (simp add: wf_szs_def list_all_iff)
  then obtain t where t: "t \<in> set szs" "s_size t = ?k" using assms(3) by force
  have up: "filter (\<lambda>u. \<not> s_size u < ?k) szs = t # ?hi" using ascending_split [OF asc t(1)] t(2) by simp
  have szs: "szs = ?lo @ t # ?hi" using ascending_filter_split [OF asc, of ?k] up by simp
  have x: "x \<in> set (s_off t)" "wf_exts (s_off t)" using assms b(1) [OF t(1)] t(2) wf_exts_filter by auto
  have other: "filter (\<lambda>e. e_size e = s_size u) (without x xs) = s_off u" if "u \<in> set szs" "s_size u \<noteq> ?k" for u
    unfolding b(1) [OF that(1)] filter_filter
    using that(2) by (intro filter_cong) (auto dest: same_off_same_ext [OF assms(2,3)])
  have mine: "without x (s_off t) = filter (\<lambda>e. e_size e = ?k) (without x xs)"
    using b(1) [OF t(1)] t(2) by (simp add: filter_filter conj_commute)
  have r: "size_remove verify szs x = Inr (if without x (s_off t) = [] then ?lo @ ?hi
      else ?lo @ t\<lparr>s_off := without x (s_off t)\<rparr> # ?hi)"
    using up t by (simp add: size_remove_def size_srch_first s ext_found [OF x(2,1)] size_unlink size_update Let_def)
  show ?thesis
  proof (cases "without x (s_off t) = []")
    case True
    have "wf_sizes (?lo @ ?hi)"
      using s by (subst (asm) szs) (auto simp: wf_sizes_def sorted_wrt_append list_all_iff)
    moreover have "\<forall>e \<in> set (without x xs). e_size e \<noteq> ?k"
      using True mine by (auto simp: filter_empty_conv)
    moreover have "\<forall>e \<in> set (without x xs). e_size e \<in> s_size ` set (?lo @ ?hi)"
      using covered calculation(2) by (force simp: image_iff)
    ultimately show ?thesis
      using r True other b(2) by (auto simp: wf_szs_def list_all_iff)
  next
    case False
    let ?t = "t\<lparr>s_off := without x (s_off t)\<rparr>"
    have "wf_sizes (?lo @ ?t # ?hi)"
      using s by (subst (asm) szs) (auto simp: wf_sizes_def sorted_wrt_append list_all_iff)
    moreover have "s_size ` set szs = s_size ` set (?lo @ ?t # ?hi)" by (subst szs) simp
    then have "\<forall>e \<in> set (without x xs). e_size e \<in> s_size ` set (?lo @ ?t # ?hi)" using covered by auto
    ultimately show ?thesis
      using r False other b(2) mine t(2) by (auto simp: wf_szs_def list_all_iff)
  qed
qed

text \<open>Removing an extent of the list succeeds and hands it out; any other offset is an error.\<close>

lemma off_remove_wf:
  assumes "wf_el el" "x \<in> set (el_off el)"
  shows "\<exists>el'. block_off_remove verify el (e_off x) = Inr (el', x) \<and> wf_el el' \<and>
    el_off el' = without x (el_off el) \<and> el_track_size el' = el_track_size el \<and> el_addr el' = el_addr el"
proof -
  let ?xs = "el_off el"
  have w: "wf_exts ?xs" using assms(1) by (simp add: wf_el_def)
  obtain szs where szs: "(if el_track_size el then size_remove verify (el_sz el) x else Inr (el_sz el)) = Inr szs"
    "el_track_size el \<longrightarrow> wf_szs szs (without x ?xs)"
    using size_remove_wf [OF _ w assms(2), of "el_sz el" verify] assms(1) that
    by (cases "el_track_size el") (auto simp: wf_el_def)
  define lo hi where "lo = filter (\<lambda>e. e_off e < e_off x) ?xs" and "hi = filter (\<lambda>e. e_off x < e_off e) ?xs"
  note asc = wf_exts_ascending [OF w]
  have xs: "?xs = lo @ x # hi" and wo: "without x ?xs = lo @ hi"
    using ascending_filter_split [OF asc, of "e_off x"] ascending_split [OF asc assms(2)] ascending_remove [OF asc assms(2)]
    by (simp_all add: lo_def hi_def)
  let ?el = "el\<lparr>el_off := without x ?xs, el_sz := szs, el_entries := el_entries el - 1,
     el_bytes := el_bytes el - e_size x, el_last := (if el_last el = Some (e_off x) then None else el_last el)\<rparr>"
  have "block_off_remove verify el (e_off x) = Inr (?el, x)"
    using szs(1) by (simp add: block_off_remove_def ext_found [OF w assms(2)] Let_def)
  moreover have "wf_exts (without x ?xs)" by (rule wf_exts_filter [OF w])
  then have "wf_el ?el"
    using assms(1) szs(2) unfolding wf_el_def wo by (auto simp: xs split: if_splits)
  ultimately show ?thesis by force
qed

lemma off_remove_missing:
  assumes "wf_el el" "\<forall>e \<in> set (el_off el). e_off e \<noteq> off"
  shows "block_off_remove verify el off = WT_BLOCK_RET verify EINVAL"
proof -
  have w: "wf_exts (el_off el)" using assms(1) by (simp add: wf_el_def)
  show ?thesis
    using assms(2) by (auto simp: block_off_remove_def off_srch_first w Let_def WT_BLOCK_RET_def
        split: list.splits dest!: filter_eq_ConsD)
qed

subsection \<open>Neighbours\<close>

lemma wf_exts_apart:
  "wf_exts xs \<Longrightarrow> a \<in> set xs \<Longrightarrow> b \<in> set xs \<Longrightarrow> a = b \<or> apart a b"
  unfolding wf_exts_def by (induction xs) (auto simp: apart_def)

lemma wf_exts_pos: "wf_exts xs \<Longrightarrow> a \<in> set xs \<Longrightarrow> 0 < e_size a"
  by (auto simp: wf_exts_def wf_ext_def list_all_iff)

lemma ascending_last: "ascending key xs \<Longrightarrow> e \<in> set xs \<Longrightarrow> key e \<le> key (last xs)"
  by (induction xs) (auto simp: less_imp_le split: if_splits)

lemma ascending_hd: "ascending key xs \<Longrightarrow> e \<in> set xs \<Longrightarrow> key (hd xs) \<le> key e"
  by (cases xs) (auto simp: less_imp_le)

lemma srch_pair_cases:
  assumes "wf_el el"
  obtains before after where "block_off_srch_pair el off = (before, after)"
    "before = None \<and> (\<forall>e \<in> set (el_off el). off \<le> e_off e) \<or>
     (\<exists>b. before = Some b \<and> b \<in> set (el_off el) \<and> e_off b < off \<and>
       (\<forall>e \<in> set (el_off el). e_off e < off \<longrightarrow> e_off e \<le> e_off b))"
    "after = None \<and> (\<forall>e \<in> set (el_off el). e_off e < off) \<or>
     (\<exists>a. after = Some a \<and> a \<in> set (el_off el) \<and> off \<le> e_off a \<and>
       (\<forall>e \<in> set (el_off el). off \<le> e_off e \<longrightarrow> e_off a \<le> e_off e))"
proof -
  let ?xs = "el_off el"
  define lo up where "lo = filter (\<lambda>e. e_off e < off) ?xs" and "up = filter (\<lambda>e. \<not> e_off e < off) ?xs"
  have w: "wf_exts ?xs" using assms by (simp add: wf_el_def)
  note asc = wf_exts_ascending [OF w]
  have s: "set lo = {e \<in> set ?xs. e_off e < off}" "ascending e_off lo"
    "set up = {e \<in> set ?xs. off \<le> e_off e}" "ascending e_off up"
    using sorted_wrt_filter [OF asc] by (auto simp: lo_def up_def not_less)
  have "block_off_srch_pair el off = (if lo = [] then None else Some (last lo), if up = [] then None else Some (hd up))"
    unfolding block_off_srch_pair_def ext_skip.srch_pair [OF w] Let_def lo_def up_def
    by (simp only: ascending_takeWhile [OF asc] ascending_dropWhile [OF asc])
  moreover have "lo = [] \<and> (\<forall>e \<in> set ?xs. off \<le> e_off e) \<or> lo \<noteq> [] \<and> last lo \<in> set ?xs \<and> e_off (last lo) < off \<and>
      (\<forall>e \<in> set ?xs. e_off e < off \<longrightarrow> e_off e \<le> e_off (last lo))"
    using ascending_last [OF s(2)] last_in_set [of lo] s(1) by (cases "lo = []") auto
  moreover have "up = [] \<and> (\<forall>e \<in> set ?xs. e_off e < off) \<or> up \<noteq> [] \<and> hd up \<in> set ?xs \<and> off \<le> e_off (hd up) \<and>
      (\<forall>e \<in> set ?xs. off \<le> e_off e \<longrightarrow> e_off (hd up) \<le> e_off e)"
    using ascending_hd [OF s(4)] hd_in_set [of up] s(3) by (cases "up = []") auto
  ultimately show ?thesis using that by auto
qed


subsection \<open>The operations as operations on sets of extents\<close>

lemma covered_exts: "covered el = \<Union> (ext_range ` exts el)"
  by (simp add: covered_def)

lemma wf_el_exts:
  assumes "wf_el el" "a \<in> exts el"
  shows "0 < e_size a" "0 < e_depth a" "e_depth a \<le> WT_SKIP_MAXDEPTH"
    and "b \<in> exts el \<Longrightarrow> a \<noteq> b \<Longrightarrow> apart a b"
  using assms wf_exts_apart [of "el_off el" a b] by (auto simp: wf_el_def wf_exts_def wf_ext_def list_all_iff)

lemma insert_spec:
  assumes "wf_el el" "wf_ext x" "\<forall>e \<in> exts el. apart x e"
  shows "wf_el (block_ext_insert el x)" "exts (block_ext_insert el x) = insert x (exts el)"
    "el_track_size (block_ext_insert el x) = el_track_size el" "el_addr (block_ext_insert el x) = el_addr el"
  using ext_insert_wf [OF assms] by (auto simp: block_ext_insert_def Let_def)

lemma remove_spec:
  assumes "wf_el el" "x \<in> exts el"
  obtains el' where "block_off_remove verify el (e_off x) = Inr (el', x)" "wf_el el'"
    "exts el' = exts el - {x}" "el_track_size el' = el_track_size el" "el_addr el' = el_addr el"
proof -
  have "set (without x (el_off el)) = exts el - {x}"
    using assms same_off_same_ext [of "el_off el" x] by (auto simp: wf_el_def)
  then show ?thesis using off_remove_wf [OF assms, of verify] that by metis
qed

lemma srch_pair_neighbours:
  assumes "wf_el el"
  obtains before after where "block_off_srch_pair el off = (before, after)" "neighbours el off before after"
proof -
  obtain before after where "block_off_srch_pair el off = (before, after)"
    "before = None \<and> (\<forall>e \<in> exts el. off \<le> e_off e) \<or>
     (\<exists>b. before = Some b \<and> b \<in> exts el \<and> e_off b < off \<and> (\<forall>e \<in> exts el. e_off e < off \<longrightarrow> e_off e \<le> e_off b))"
    "after = None \<and> (\<forall>e \<in> exts el. e_off e < off) \<or>
     (\<exists>a. after = Some a \<and> a \<in> exts el \<and> off \<le> e_off a \<and> (\<forall>e \<in> exts el. off \<le> e_off e \<longrightarrow> e_off a \<le> e_off e))"
    by (rule srch_pair_cases [OF assms])
  then show ?thesis using that by (auto simp: neighbours_def)
qed

lemma disjoint_ranges:
  assumes "0 < e_size e" "0 < sz" "e \<in> exts el" "covered el \<inter> {off ..< off + sz} = {}"
  shows "e_off e + e_size e \<le> off \<or> off + sz \<le> e_off e"
proof (rule ccontr)
  assume "\<not> (e_off e + e_size e \<le> off \<or> off + sz \<le> e_off e)"
  then have "max off (e_off e) \<in> ext_range e \<inter> {off ..< off + sz}"
    using assms by (auto simp: ext_range_def max_def)
  then have "max off (e_off e) \<in> covered el \<inter> {off ..< off + sz}" using assms(3) by (auto simp: covered_exts)
  with assms(4) show False by auto
qed

lemma merge_gap:
  assumes "wf_el el" "0 < sz" "covered el \<inter> {off ..< off + sz} = {}" "neighbours el off before after"
    and m1: "e \<in> exts el" and m2: "\<And>b. before = Some b \<Longrightarrow> e_off b + e_size b = off \<Longrightarrow> e \<noteq> b"
    and m3: "\<And>a. after = Some a \<Longrightarrow> off + sz = e_off a \<Longrightarrow> e \<noteq> a"
  shows "e_off e + e_size e < off \<or> off + sz < e_off e"
proof -
  note pos = wf_el_exts(1) [OF assms(1)]
  have dis: "e_off x + e_size x \<le> off \<or> off + sz \<le> e_off x" if "x \<in> exts el" for x
    using disjoint_ranges [OF pos [OF that] assms(2) that assms(3)] .
  have "e_off e + e_size e \<noteq> off"
  proof
    assume eq: "e_off e + e_size e = off"
    then have "e_off e < off" using pos [OF m1] by simp
    then obtain b where b: "before = Some b" "b \<in> exts el" "e_off b < off" "e_off e \<le> e_off b"
      using assms(4) m1 by (force simp: neighbours_def split: option.splits)
    then have "e = b" using wf_el_exts(4) [OF assms(1) m1 b(2)] eq pos [OF b(2)] by (auto simp: apart_def)
    with m2 [OF b(1)] eq show False by simp
  qed
  moreover have "off + sz \<noteq> e_off e"
  proof
    assume eq: "off + sz = e_off e"
    then obtain a where a: "after = Some a" "a \<in> exts el" "off \<le> e_off a" "e_off a \<le> e_off e"
      using assms(2,4) m1 by (force simp: neighbours_def split: option.splits)
    then have "e = a"
      using wf_el_exts(4) [OF assms(1) m1 a(2)] eq pos [OF a(2)] dis [OF a(2)] pos [OF m1] by (auto simp: apart_def)
    with m3 [OF a(1)] eq show False by simp
  qed
  ultimately show ?thesis using dis [OF m1] by linarith
qed

lemma neighbours_abut:
  assumes "wf_el el" "0 < sz" "covered el \<inter> {off ..< off + sz} = {}" "neighbours el off before after"
  shows "before = Some b \<Longrightarrow> b \<in> exts el \<and> e_off b < off \<and> e_off b + e_size b \<le> off"
    and "after = Some a \<Longrightarrow> a \<in> exts el \<and> off + sz \<le> e_off a"
proof -
  have dis: "e_off x + e_size x \<le> off \<or> off + sz \<le> e_off x" "0 < e_size x" if "x \<in> exts el" for x
    using disjoint_ranges [OF wf_el_exts(1) [OF assms(1) that] assms(2) that assms(3)] wf_el_exts(1) [OF assms(1) that] by auto
  show "before = Some b \<Longrightarrow> b \<in> exts el \<and> e_off b < off \<and> e_off b + e_size b \<le> off"
    "after = Some a \<Longrightarrow> a \<in> exts el \<and> off + sz \<le> e_off a"
    using assms(2,4) dis [of b] dis [of a] by (auto simp: neighbours_def)
qed

end
