(* ===== verification/Extlist_Ops.thy ===== *)
theory Extlist_Ops
  imports Extlist_Inv
begin

text \<open>
  The operations that add and remove file ranges, \<^verbatim>\<open>__block_merge\<close>, \<^verbatim>\<open>__wt_block_off_remove_overlap\<close> and
  \<^verbatim>\<open>__block_append\<close>, as operations on the set of bytes a list covers. Each lemma says that the operation
  succeeds, keeps the invariant, and what it covers afterwards; or which error it returns. A well-formed
  list is determined by what it covers, so that the append that avoids the searches and the merge
  give the same list.
\<close>

definition extends :: "wt_extlist \<Rightarrow> wt_extlist \<Rightarrow> int set \<Rightarrow> bool" where
  "extends el el' S \<longleftrightarrow> wf_el el' \<and> covered el' = S \<and>
     el_track_size el' = el_track_size el \<and> el_addr el' = el_addr el"

subsection \<open>Merging\<close>

text \<open>Replacing some extents by one that covers them and a new range.\<close>

lemma replace_spec:
  assumes "wf_el el1" "exts el1 = exts el - S" "el_track_size el1 = el_track_size el" "el_addr el1 = el_addr el"
    "wf_ext x" "\<forall>e \<in> exts el - S. apart x e" "S \<subseteq> exts el" "ext_range x = R \<union> \<Union> (ext_range ` S)"
  shows "extends el (block_ext_insert el1 x) (covered el \<union> R)"
  using insert_spec [of el1 x] assms by (auto simp: extends_def covered_exts)

lemma merge_spec:
  assumes wf: "wf_el el" and sz: "0 < sz" and dp: "0 < dp" "dp \<le> WT_SKIP_MAXDEPTH"
    and dis: "covered el \<inter> {off ..< off + sz} = {}"
  shows "\<exists>el'. block_merge verify dp el off sz = Inr el' \<and> extends el el' (covered el \<union> {off ..< off + sz})"
proof -
  obtain before after where pair: "block_off_srch_pair el off = (before, after)" "neighbours el off before after"
    by (rule srch_pair_neighbours [OF wf])
  note nb = neighbours_abut [OF wf sz dis pair(2)] and gap = merge_gap [OF wf sz dis pair(2)]
  note size = wf_el_exts [OF wf]
  let ?b = "case before of Some b \<Rightarrow> if e_off b + e_size b \<noteq> off then None else Some b | None \<Rightarrow> None"
  let ?a = "case after of Some a \<Rightarrow> if off + sz \<noteq> e_off a then None else Some a | None \<Rightarrow> None"
  have e: "block_merge verify dp el off sz =
    (case ?b of None \<Rightarrow> (case ?a of None \<Rightarrow> Inr (block_off_insert dp el off sz)
        | Some a \<Rightarrow> WT_RET (block_off_remove verify el (e_off a)) (\<lambda>(el, ext).
              Inr (block_ext_insert el (ext\<lparr>e_off := off, e_size := e_size ext + sz\<rparr>))))
     | Some b \<Rightarrow> WT_RET (case ?a of None \<Rightarrow> Inr (el, sz)
          | Some a \<Rightarrow> WT_RET (block_off_remove verify el (e_off a)) (\<lambda>(el, _). Inr (el, sz + e_size a)))
          (\<lambda>(el, sz). WT_RET (block_off_remove verify el (e_off b)) (\<lambda>(el, ext).
             Inr (block_ext_insert el (ext\<lparr>e_size := e_size ext + sz\<rparr>)))))"
    using nb by (auto simp: block_merge_def pair(1) Let_def not_less split: option.splits)
  consider (none) "?b = None" "?a = None" | (a) a where "?b = None" "?a = Some a"
    | (b) b where "?b = Some b" "?a = None" | (ab) a b where "?b = Some b" "?a = Some a" by fastforce
  then show ?thesis
  proof cases
    case none
    then have "\<forall>e \<in> exts el. apart \<lparr>e_off = off, e_size = sz, e_depth = dp\<rparr> e"
      using gap by (fastforce simp: apart_def split: option.splits if_splits)
    with none e replace_spec [OF wf, of el "{}" "\<lparr>e_off = off, e_size = sz, e_depth = dp\<rparr>"] sz dp show ?thesis
      by (auto simp: block_off_insert_def wf_ext_def covered_exts ext_range_def)
  next
    case (a a)
    then have a': "a \<in> exts el" "off + sz = e_off a" "after = Some a" using nb(2) by (auto split: option.splits if_splits)
    obtain el1 where r: "block_off_remove verify el (e_off a) = Inr (el1, a)" "wf_el el1" "exts el1 = exts el - {a}"
      "el_track_size el1 = el_track_size el" "el_addr el1 = el_addr el" by (rule remove_spec [OF wf a'(1)])
    have "\<forall>e \<in> exts el - {a}. apart (a\<lparr>e_off := off, e_size := e_size a + sz\<rparr>) e"
      using gap size(4) [OF a'(1)] size(1) a a' by (fastforce simp: apart_def split: option.splits if_splits)
    then have "extends el (block_ext_insert el1 (a\<lparr>e_off := off, e_size := e_size a + sz\<rparr>)) (covered el \<union> {off ..< off + sz})"
      using size(1-3) [OF a'(1)] sz a'(1,2) by (intro replace_spec [OF r(2-5)]) (auto simp: wf_ext_def ext_range_def)
    with e a r(1) show ?thesis by simp
  next
    case (b b)
    then have b': "b \<in> exts el" "e_off b + e_size b = off" "before = Some b" using nb(1) by (auto split: option.splits if_splits)
    obtain el1 where r: "block_off_remove verify el (e_off b) = Inr (el1, b)" "wf_el el1" "exts el1 = exts el - {b}"
      "el_track_size el1 = el_track_size el" "el_addr el1 = el_addr el" by (rule remove_spec [OF wf b'(1)])
    have "\<forall>e \<in> exts el - {b}. apart (b\<lparr>e_size := e_size b + sz\<rparr>) e"
      using gap size(4) [OF b'(1)] size(1) b b' by (fastforce simp: apart_def split: option.splits if_splits)
    then have "extends el (block_ext_insert el1 (b\<lparr>e_size := e_size b + sz\<rparr>)) (covered el \<union> {off ..< off + sz})"
      using size(1-3) [OF b'(1)] sz b'(1,2) by (intro replace_spec [OF r(2-5)]) (auto simp: wf_ext_def ext_range_def)
    with e b r(1) show ?thesis by simp
  next
    case (ab a b)
    then have a': "a \<in> exts el" "off + sz = e_off a" "after = Some a"
      and b': "b \<in> exts el" "e_off b + e_size b = off" "before = Some b" using nb by (auto split: option.splits if_splits)
    obtain el1 where r: "block_off_remove verify el (e_off a) = Inr (el1, a)" "wf_el el1" "exts el1 = exts el - {a}"
      "el_track_size el1 = el_track_size el" "el_addr el1 = el_addr el" by (rule remove_spec [OF wf a'(1)])
    have "b \<noteq> a" using a' b' sz size(1) [OF b'(1)] by auto
    with b'(1) r(3) have b1: "b \<in> exts el1" by simp
    obtain el2 where q: "block_off_remove verify el1 (e_off b) = Inr (el2, b)" "wf_el el2" "exts el2 = exts el1 - {b}"
      "el_track_size el2 = el_track_size el1" "el_addr el2 = el_addr el1" by (rule remove_spec [OF r(2) b1])
    have ex: "exts el2 = exts el - {a, b}" using q(3) r(3) by auto
    have "\<forall>e \<in> exts el - {a, b}. apart (b\<lparr>e_size := e_size b + (sz + e_size a)\<rparr>) e"
    proof
      fix e assume e: "e \<in> exts el - {a, b}"
      then have "e_off e + e_size e < off \<or> off + sz < e_off e" using a' b' by (intro gap) auto
      moreover have "apart b e" "apart a e" "0 < e_size e"
        using e size(4) [OF b'(1)] size(4) [OF a'(1)] size(1) by auto
      ultimately show "apart (b\<lparr>e_size := e_size b + (sz + e_size a)\<rparr>) e"
        using a'(2) b'(2) size(1) [OF a'(1)] size(1) [OF b'(1)] by (auto simp: apart_def)
    qed
    then have "extends el (block_ext_insert el2 (b\<lparr>e_size := e_size b + (sz + e_size a)\<rparr>)) (covered el \<union> {off ..< off + sz})"
      using size(1-3) [OF b'(1)] size(1) [OF a'(1)] sz a' b' q(4,5) r(4,5)
      by (intro replace_spec [OF q(2) ex]) (auto simp: wf_ext_def ext_range_def)
    with e ab r(1) q(1) show ?thesis by simp
  qed
qed


subsection \<open>Overlaps\<close>

lemma overlapping_neighbour:
  assumes "wf_el el" "neighbours el off before after" "e \<in> exts el" "off < e_off e + e_size e" "e_off e < off"
  shows "before = Some e"
proof -
  obtain b where b: "before = Some b" "b \<in> exts el" "e_off b < off" "e_off e \<le> e_off b"
    using assms(2,3,5) by (force simp: neighbours_def split: option.splits)
  then have "b = e" using wf_el_exts(4) [OF assms(1) assms(3) b(2)] assms(4) wf_el_exts(1) [OF assms(1) b(2)] by (auto simp: apart_def)
  with b(1) show ?thesis by simp
qed

lemma following_neighbour:
  assumes "neighbours el off before after" "e \<in> exts el" "off \<le> e_off e"
  obtains a where "after = Some a" "a \<in> exts el" "off \<le> e_off a" "e_off a \<le> e_off e"
  using assms by (force simp: neighbours_def split: option.splits)

lemma preceding_neighbour:
  assumes "neighbours el off (Some b) after" shows "b \<in> exts el" "e_off b < off"
  using assms by (auto simp: neighbours_def)

lemma merge_overlap:
  assumes wf: "wf_el el" and sz: "0 < sz" and ov: "covered el \<inter> {off ..< off + sz} \<noteq> {}"
  shows "block_merge verify dp el off sz = WT_BLOCK_RET verify EINVAL"
proof -
  obtain before after where pair: "block_off_srch_pair el off = (before, after)" "neighbours el off before after"
    by (rule srch_pair_neighbours [OF wf])
  have "\<exists>e \<in> exts el. e_off e < off + sz \<and> off < e_off e + e_size e"
    using ov by (force simp: covered_exts ext_range_def)
  then obtain e where e: "e \<in> exts el" "e_off e < off + sz" "off < e_off e + e_size e" by blast
  show ?thesis
  proof (cases "e_off e < off")
    case True
    with overlapping_neighbour [OF wf pair(2) e(1,3)] e show ?thesis by (simp add: block_merge_def pair(1))
  next
    case False
    then obtain a where "after = Some a" "e_off a \<le> e_off e"
      using following_neighbour [OF pair(2) e(1)] by (metis not_less)
    with e show ?thesis by (auto simp: block_merge_def pair(1) split: option.splits)
  qed
qed

lemma apart_within:
  assumes "apart e x" "e_off e \<le> e_off y" "e_off y + e_size y \<le> e_off e + e_size e" shows "apart y x"
  using assms by (auto simp: apart_def)

lemma remove_overlap_notfound:
  assumes wf: "wf_el el" and sz: "0 < sz" and dis: "covered el \<inter> {off ..< off + sz} = {}"
  shows "wt_block_off_remove_overlap verify dp el off sz = Inl WT_NOTFOUND"
proof -
  obtain before after where pair: "block_off_srch_pair el off = (before, after)" "neighbours el off before after"
    by (rule srch_pair_neighbours [OF wf])
  show ?thesis
    using neighbours_abut [OF wf sz dis pair(2)]
    by (auto simp: wt_block_off_remove_overlap_def pair(1) not_less split: option.splits)
qed

text \<open>Cutting a range out of the extent that contains it leaves what is in front of and behind it.\<close>

lemma ext_update_all: "e\<lparr>e_off := a, e_size := b, e_depth := d\<rparr> = \<lparr>e_off = a, e_size = b, e_depth = d\<rparr>"
  by simp

lemma remove_overlap_eq:
  assumes wf: "wf_el el" and sz: "0 < sz" and e: "e \<in> exts el" "e_off e \<le> off" "off + sz \<le> e_off e + e_size e"
    and r: "block_off_remove verify el (e_off e) = Inr (el1, e)"
  shows "wt_block_off_remove_overlap verify dp el off sz =
    (let el2 = (if off = e_off e then el1 else block_ext_insert el1 (e\<lparr>e_size := off - e_off e\<rparr>));
         b_size = e_off e + e_size e - (off + sz)
     in Inr (if b_size = 0 then el2
             else block_ext_insert el2 (e\<lparr>e_off := off + sz, e_size := b_size, e_depth := if off = e_off e then e_depth e else dp\<rparr>)))"
proof -
  obtain before after where pair: "block_off_srch_pair el off = (before, after)" "neighbours el off before after"
    by (rule srch_pair_neighbours [OF wf])
  show ?thesis
  proof (cases "off = e_off e")
    case True
    obtain a where a: "after = Some a" "a \<in> exts el" "off \<le> e_off a" "e_off a \<le> e_off e"
      using following_neighbour [OF pair(2) e(1)] True by auto
    then have "a = e" using wf_el_exts(4) [OF wf e(1) a(2)] wf_el_exts(1) [OF wf e(1)] wf_el_exts(1) [OF wf a(2)] True by (auto simp: apart_def)
    moreover have "before = None \<or> (\<exists>b. before = Some b \<and> e_off b + e_size b \<le> e_off e)"
      using preceding_neighbour [of el off _ after] pair(2) wf_el_exts(4) [OF wf e(1)] True wf_el_exts(1) [OF wf e(1)]
      by (cases before) (fastforce simp: apart_def)+
    ultimately show ?thesis
      using a True r sz pair(1) by (auto simp: wt_block_off_remove_overlap_def Let_def)
  next
    case False
    then have "before = Some e" using e sz by (intro overlapping_neighbour [OF wf pair(2)]) auto
    moreover have "off < e_off e + e_size e" using e(3) sz by simp
    ultimately show ?thesis
      using False r by (simp add: wt_block_off_remove_overlap_def pair(1) Let_def block_off_insert_def ext_update_all)
        (simp add: algebra_simps)
  qed
qed


lemma remove_overlap_spec:
  assumes wf: "wf_el el" and sz: "0 < sz" and dp: "0 < dp" "dp \<le> WT_SKIP_MAXDEPTH"
    and e: "e \<in> exts el" "e_off e \<le> off" "off + sz \<le> e_off e + e_size e"
  shows "\<exists>el'. wt_block_off_remove_overlap verify dp el off sz = Inr el' \<and> extends el el' (covered el - {off ..< off + sz})"
proof -
  note size = wf_el_exts [OF wf e(1)]
  obtain el1 where r: "block_off_remove verify el (e_off e) = Inr (el1, e)" "wf_el el1" "exts el1 = exts el - {e}"
      "el_track_size el1 = el_track_size el" "el_addr el1 = el_addr el" by (rule remove_spec [OF wf e(1)])
  let ?a = "e\<lparr>e_size := off - e_off e\<rparr>" and ?bs = "e_off e + e_size e - (off + sz)"
  let ?b = "e\<lparr>e_off := off + sz, e_size := ?bs, e_depth := if off = e_off e then e_depth e else dp\<rparr>"
  define el2 where "el2 = (if off = e_off e then el1 else block_ext_insert el1 ?a)"
  have ap: "\<forall>x \<in> exts el1. apart e x" using size(4) r(3) by auto
  have el2: "wf_el el2 \<and> exts el2 = (if off = e_off e then exts el1 else insert ?a (exts el1)) \<and>
      el_track_size el2 = el_track_size el \<and> el_addr el2 = el_addr el"
  proof (cases "off = e_off e")
    case False
    have "\<forall>x \<in> exts el1. apart ?a x" using ap e(3) sz by (auto simp: apart_def)
    moreover have "wf_ext ?a" using False e(2) size(2,3) by (simp add: wf_ext_def)
    ultimately show ?thesis using False insert_spec [OF r(2), of ?a] r(4,5) by (simp add: el2_def)
  qed (use r(2,4,5) in \<open>simp add: el2_def\<close>)
  define el3 where "el3 = (if ?bs = 0 then el2 else block_ext_insert el2 ?b)"
  have "\<forall>x \<in> exts el2. apart ?b x"
    using ap el2 e sz by (auto simp: apart_def)
  then have el3: "wf_el el3 \<and> exts el3 = (if ?bs = 0 then exts el2 else insert ?b (exts el2)) \<and>
      el_track_size el3 = el_track_size el \<and> el_addr el3 = el_addr el"
  proof (cases "?bs = 0")
    case False
    have "wf_ext ?b" using False e(3) size(2,3) dp by (simp add: wf_ext_def)
    then show ?thesis
      using \<open>\<forall>x \<in> exts el2. apart ?b x\<close> False insert_spec [of el2 ?b] el2 by (simp add: el3_def)
  qed (use el2 in \<open>simp add: el3_def\<close>)
  have "covered el3 = covered el - {off ..< off + sz}"
  proof -
    let ?rest = "\<Union> (ext_range ` (exts el - {e}))"
    have "covered el = ?rest \<union> ext_range e" using e(1) by (auto simp: covered_exts)
    moreover have "?rest \<inter> ext_range e = {}" using ap r(3) by (force simp: ext_range_def apart_def)
    moreover have "covered el3 = ?rest \<union> {e_off e ..< off} \<union> {off + sz ..< e_off e + e_size e}"
      using el3 el2 r(3) e by (auto simp: covered_exts ext_range_def)
    moreover have "ext_range e = {e_off e ..< off} \<union> {off ..< off + sz} \<union> {off + sz ..< e_off e + e_size e}"
      using e sz by (auto simp: ext_range_def)
    ultimately show ?thesis using sz by auto
  qed
  with el3 remove_overlap_eq [OF wf sz e r(1)] show ?thesis
    by (auto simp: extends_def el3_def el2_def Let_def)
qed

subsection \<open>Appending\<close>

lemma ext_at_last:
  assumes "wf_el el" "el_last el = Some l"
  shows "ext_at el l = Some (last (el_off el))" "last (el_off el) \<in> exts el" "e_off (last (el_off el)) = l"
proof -
  have l: "el_off el \<noteq> []" "l = e_off (last (el_off el))" "wf_exts (el_off el)" using assms by (auto simp: wf_el_def)
  then show "last (el_off el) \<in> exts el" "e_off (last (el_off el)) = l" by auto
  then have "ext_at el l \<noteq> None" by (auto simp: ext_at_def find_None_iff)
  then obtain e where e: "ext_at el l = Some e" by blast
  then have "e \<in> exts el" "e_off e = l" unfolding ext_at_def by (auto simp: find_Some_iff)
  with same_off_same_ext [OF l(3), of "last (el_off el)" e] l e show "ext_at el l = Some (last (el_off el))" by simp
qed

text \<open>Growing the last extent, and adding one behind it.\<close>

lemma grow_last:
  assumes wf: "wf_exts xs" and ne: "xs \<noteq> []" and sz: "0 < sz"
  shows "ext_grow (e_off (last xs)) sz xs = butlast xs @ [(last xs)\<lparr>e_size := e_size (last xs) + sz\<rparr>]"
    and "wf_exts (ext_grow (e_off (last xs)) sz xs)"
proof -
  obtain ys x where xs: "xs = ys @ [x]" using ne by (cases xs rule: rev_cases) auto
  have "\<forall>y \<in> set ys. e_off y \<noteq> e_off x" using wf_exts_ascending [OF wf] by (auto simp: xs sorted_wrt_append)
  then show eq: "ext_grow (e_off (last xs)) sz xs = butlast xs @ [(last xs)\<lparr>e_size := e_size (last xs) + sz\<rparr>]"
    by (auto simp: ext_grow_def xs intro!: map_idI)
  show "wf_exts (ext_grow (e_off (last xs)) sz xs)"
    unfolding eq using wf sz by (auto simp: xs wf_exts_def sorted_wrt_append wf_ext_def list_all_iff)
qed

lemma grow_spec:
  assumes wf: "wf_el el" and tr: "\<not> el_track_size el" and ne: "el_off el \<noteq> []" and sz: "0 < sz"
    and off: "e_off (last (el_off el)) + e_size (last (el_off el)) = off"
    and l: "l = None \<or> l = Some (e_off (last (el_off el)))"
  shows "extends el (el\<lparr>el_off := ext_grow (e_off (last (el_off el))) sz (el_off el), el_last := l,
     el_bytes := el_bytes el + sz\<rparr>) (covered el \<union> {off ..< off + sz})"
proof -
  let ?xs = "el_off el" and ?l = "last (el_off el)"
  have w: "wf_exts ?xs" using wf by (simp add: wf_el_def)
  have xs: "?xs = butlast ?xs @ [?l]" using ne by simp
  have "length ?xs = Suc (length (butlast ?xs))" "sum_list (map e_size ?xs) = sum_list (map e_size (butlast ?xs)) + e_size ?l"
    "exts el = insert ?l (set (butlast ?xs))"
    using arg_cong [OF xs, of length] arg_cong [OF xs, of "\<lambda>l. sum_list (map e_size l)"] arg_cong [OF xs, of set] by simp_all
  moreover have "0 < e_size ?l" using wf_el_exts(1) [OF wf] ne by simp
  ultimately show ?thesis
    using wf tr l grow_last [OF w ne sz] off sz
    by (auto simp: extends_def wf_el_def covered_exts ext_range_def)
qed


lemma add_last_spec:
  assumes wf: "wf_el el" and tr: "\<not> el_track_size el" and sz: "0 < sz" and dp: "0 < dp" "dp \<le> WT_SKIP_MAXDEPTH"
    and gap: "\<forall>e \<in> exts el. e_off e + e_size e < off"
  shows "extends el (el\<lparr>el_off := el_off el @ [\<lparr>e_off = off, e_size = sz, e_depth = dp\<rparr>],
     el_entries := el_entries el + 1, el_last := Some off, el_bytes := el_bytes el + sz\<rparr>) (covered el \<union> {off ..< off + sz})"
  using assms by (auto simp: extends_def wf_el_def wf_exts_def wf_ext_def list_all_iff sorted_wrt_append covered_exts ext_range_def)

lemma off_srch_last:
  assumes "wf_el el"
  obtains stack where "block_off_srch_last (el_off el) = (if el_off el = [] then None else Some (last (el_off el)), stack)"
    "\<forall>x. skip_link stack x (el_off el) = el_off el @ [x]"
proof -
  have w: "wf_exts (el_off el)" using assms by (simp add: wf_el_def)
  show ?thesis
    using that [of "snd (block_off_srch_last (el_off el))"] ext_skip.srch_last [OF w]
    by (cases "block_off_srch_last (el_off el)") (simp add: block_off_srch_last_def skip_link_def)
qed

lemma exts_below_last:
  assumes "wf_el el" "e \<in> exts el" "e \<noteq> last (el_off el)"
  shows "e_off e + e_size e < e_off (last (el_off el))"
proof -
  have w: "wf_exts (el_off el)" using assms by (simp add: wf_el_def)
  have "last (el_off el) \<in> exts el" using assms(2) by (cases "el_off el") auto
  with wf_el_exts(4) [OF assms(1,2)] assms(3) ascending_last [OF wf_exts_ascending [OF w] assms(2)] wf_el_exts(1) [OF assms(1)]
  show ?thesis by (fastforce simp: apart_def)
qed

lemma append_slow_spec:
  assumes wf: "wf_el el" and tr: "\<not> el_track_size el" and sz: "0 < sz" and dp: "0 < dp" "dp \<le> WT_SKIP_MAXDEPTH"
    and above: "\<forall>e \<in> exts el. e_off e + e_size e \<le> off"
  shows "extends el (append_slow dp el off sz) (covered el \<union> {off ..< off + sz})"
proof -
  obtain stack where s: "block_off_srch_last (el_off el) = (if el_off el = [] then None else Some (last (el_off el)), stack)"
    "\<forall>x. skip_link stack x (el_off el) = el_off el @ [x]" by (rule off_srch_last [OF wf])
  let ?l = "last (el_off el)"
  consider "el_off el = []" | "el_off el \<noteq> []" "e_off ?l + e_size ?l = off" | "el_off el \<noteq> []" "e_off ?l + e_size ?l \<noteq> off" by blast
  then show ?thesis
  proof cases
    case 1
    with add_last_spec [OF wf tr sz dp, of off] s show ?thesis by (simp add: append_slow_def)
  next
    case 2
    with grow_spec [OF wf tr 2(1) sz 2(2)] s show ?thesis by (simp add: append_slow_def)
  next
    case 3
    have "?l \<in> exts el" using 3 by simp
    then have "e_off ?l + e_size ?l < off" using 3(2) above by fastforce
    moreover from this have "\<forall>e \<in> exts el. e_off e + e_size e < off"
      using exts_below_last [OF wf] wf_el_exts(1) [OF wf \<open>?l \<in> exts el\<close>] by force
    ultimately show ?thesis using 3 add_last_spec [OF wf tr sz dp, of off] s by (simp add: append_slow_def)
  qed
qed

lemma append_spec:
  assumes wf: "wf_el el" and tr: "\<not> el_track_size el" and sz: "0 < sz" and dp: "0 < dp" "dp \<le> WT_SKIP_MAXDEPTH"
    and above: "\<forall>e \<in> exts el. e_off e + e_size e \<le> off"
  shows "\<exists>el'. block_append dp el off sz = Inr el' \<and> extends el el' (covered el \<union> {off ..< off + sz})"
proof (cases "el_last el")
  case None
  with append_slow_spec [OF assms] show ?thesis by (simp add: block_append_def)
next
  case (Some l)
  note last = ext_at_last [OF wf Some]
  show ?thesis
  proof (cases "e_off (last (el_off el)) + e_size (last (el_off el)) = off")
    case True
    let ?ys = "ext_grow (e_off (last (el_off el))) sz (el_off el)"
    have "el_off el \<noteq> []" using last(2) by auto
    from grow_spec [OF wf tr this sz True, of "Some l"] last(3)
    have "extends el (el\<lparr>el_off := ?ys, el_last := Some l, el_bytes := el_bytes el + sz\<rparr>) (covered el \<union> {off ..< off + sz})"
      by simp
    moreover have "el\<lparr>el_off := ?ys, el_last := Some l, el_bytes := el_bytes el + sz\<rparr> = el\<lparr>el_off := ?ys, el_bytes := el_bytes el + sz\<rparr>"
      using Some by (cases el) simp
    ultimately have "extends el (el\<lparr>el_off := ?ys, el_bytes := el_bytes el + sz\<rparr>) (covered el \<union> {off ..< off + sz})"
      by (simp only:)
    then show ?thesis using Some last True by (simp add: block_append_def)
  next
    case False
    with Some append_slow_spec [OF assms] last show ?thesis by (simp add: block_append_def)
  qed
qed

abbreviation valid_depth :: "nat \<Rightarrow> bool" where
  "valid_depth d \<equiv> 0 < d \<and> d \<le> WT_SKIP_MAXDEPTH"

lemma range_in_one:
  assumes wf: "wf_el el" and sz: "0 < sz" and sub: "{off ..< off + sz} \<subseteq> covered el"
  obtains e where "e \<in> exts el" "e_off e \<le> off" "off + sz \<le> e_off e + e_size e"
proof -
  have cov: "\<exists>e \<in> exts el. e_off e \<le> k \<and> k < e_off e + e_size e" if "off \<le> k" "k < off + sz" for k
    using sub that by (fastforce simp: covered_exts ext_range_def)
  obtain e where e: "e \<in> exts el" "e_off e \<le> off" "off < e_off e + e_size e" using cov [of off] sz by auto
  have "off + sz \<le> e_off e + e_size e"
  proof (rule ccontr)
    assume "\<not> off + sz \<le> e_off e + e_size e"
    with cov [of "e_off e + e_size e"] e obtain c where
      c: "c \<in> exts el" "e_off c \<le> e_off e + e_size e" "e_off e + e_size e < e_off c + e_size c" by auto
    then have "c \<noteq> e" by auto
    with wf_el_exts(4) [OF wf e(1) c(1)] wf_el_exts(1) [OF wf e(1)] c(2,3) show False by (auto simp: apart_def)
  qed
  with e that show ?thesis by blast
qed

subsection \<open>A list is determined by the bytes it covers\<close>

abbreviation ranges :: "wt_ext list \<Rightarrow> (int \<times> int) list" where
  "ranges \<equiv> map (\<lambda>e. (e_off e, e_size e))"

lemma first_range:
  assumes "wf_exts (x # xs)"
  shows "e_off x \<in> (\<Union>e \<in> set (x # xs). ext_range e)" "\<forall>k \<in> (\<Union>e \<in> set (x # xs). ext_range e). e_off x \<le> k"
    "e_off x + e_size x \<notin> (\<Union>e \<in> set (x # xs). ext_range e)"
    "(\<Union>e \<in> set xs. ext_range e) = (\<Union>e \<in> set (x # xs). ext_range e) - ext_range x"
  using assms by (fastforce simp: wf_exts_def wf_ext_def list_all_iff ext_range_def)+

lemma ranges_unique:
  assumes "wf_exts xs" "wf_exts ys" "(\<Union>e \<in> set xs. ext_range e) = (\<Union>e \<in> set ys. ext_range e)"
  shows "ranges xs = ranges ys"
  using assms
proof (induction xs arbitrary: ys)
  case Nil
  then show ?case using first_range(1) [of "hd ys" "tl ys"] by (cases ys) auto
next
  case (Cons x xs)
  note fx = first_range [OF Cons.prems(1)]
  obtain y ys' where ys: "ys = y # ys'" using fx(1) Cons.prems(3) by (cases ys) auto
  note fy = first_range [OF Cons.prems(2) [unfolded ys]]
  note eq = Cons.prems(3) [unfolded ys]
  have off: "e_off x = e_off y" using fx(1,2) fy(1,2) eq by (metis order_antisym)
  have pos: "0 < e_size x" "0 < e_size y" using Cons.prems(1,2) wf_exts_pos by (auto simp: ys)
  have "\<not> e_size x < e_size y"
    using fx(3) off pos unfolding eq by (auto simp: ext_range_def)
  moreover have "\<not> e_size y < e_size x"
    using fy(3) off pos unfolding eq [symmetric] by (auto simp: ext_range_def)
  ultimately have sz: "e_size x = e_size y" by simp
  then have "ext_range x = ext_range y" using off by (simp add: ext_range_def)
  then have "(\<Union>e \<in> set xs. ext_range e) = (\<Union>e \<in> set ys'. ext_range e)" unfolding fx(4) fy(4) eq by simp
  with Cons.IH [of ys'] Cons.prems(1,2) off sz show ?case by (auto simp: ys wf_exts_def)
qed

lemma same_cover_same_list:
  assumes "wf_el a" "wf_el b" "covered a = covered b"
  shows "ranges (el_off a) = ranges (el_off b)" "el_bytes a = el_bytes b" "el_entries a = el_entries b"
proof -
  show eq: "ranges (el_off a) = ranges (el_off b)"
    using assms by (intro ranges_unique) (auto simp: wf_el_def covered_def)
  from arg_cong [OF eq, of "map snd"] have "map e_size (el_off a) = map e_size (el_off b)" by (simp add: comp_def)
  with arg_cong [OF eq, of length] show "el_bytes a = el_bytes b" "el_entries a = el_entries b"
    using assms by (auto simp: wf_el_def)
qed

subsection \<open>Properties\<close>

text \<open>
  C8: Merging a range into a list. When the range is disjoint from the list it is added, joined with the
  extents it touches, and the list stays sorted and coalesced, its counts, its cached last extent and
  its by-size lists consistent. When it overlaps an extent the list is corrupt: EINVAL while
  verifying, a panic otherwise.
\<close>

theorem block_merge_correct:
  assumes "wf_el el" "0 < sz" "valid_depth dp"
  shows "if covered el \<inter> {off ..< off + sz} = {}
     then \<exists>el'. block_merge verify dp el off sz = Inr el' \<and> extends el el' (covered el \<union> {off ..< off + sz})
     else block_merge verify dp el off sz = Inl (if verify then EINVAL else WT_PANIC)"
  using merge_spec [OF assms(1,2)] merge_overlap [OF assms(1,2)] assms(3) by (simp add: WT_BLOCK_RET_def)

definition example_list :: wt_extlist where
  "example_list = block_off_insert 1 (block_off_insert 3 (wt_block_extlist_init False) 4096 4096) 12288 8192"

lemma example_list_wf: "wf_el example_list" "\<not> el_track_size example_list"
  by code_simp+

lemma example_list_covered: "covered example_list = {4096 ..< 8192} \<union> {12288 ..< 20480}"
proof -
  have "ranges (el_off example_list) = [(4096, 4096), (12288, 8192)]" by code_simp
  then show ?thesis by (auto simp: covered_def ext_range_def)
qed

theorem block_merge_correct_witness:
  "\<exists>el'. block_merge False 2 example_list 8192 4096 = Inr el' \<and>
     extends example_list el' (covered example_list \<union> {8192 ..< 8192 + 4096})"
proof -
  have "covered example_list \<inter> {8192 ..< 8192 + 4096} = {}" by (auto simp: example_list_covered)
  then show ?thesis using block_merge_correct [OF example_list_wf(1), of 4096 2 8192 False] by simp
qed

text \<open>
  The skip list searches. On a sorted list of extents the stack \<^verbatim>\<open>__block_off_srch\<close> returns cuts every level
  where a linear search for the offset would, \<^verbatim>\<open>__block_off_srch_pair\<close> returns the neighbours of the offset and
  \<^verbatim>\<open>__block_off_srch_last\<close> the last extent.
\<close>

theorem skip_search_is_linear:
  assumes "wf_el el"
  shows "(\<forall>i < WT_SKIP_MAXDEPTH. level e_depth i (block_off_srch (el_off el) off ! i) =
      level e_depth i (dropWhile (\<lambda>e. e_off e < off) (el_off el))) \<and>
    block_off_srch_pair el off =
     (let lower = takeWhile (\<lambda>e. e_off e < off) (el_off el); upper = dropWhile (\<lambda>e. e_off e < off) (el_off el)
      in (if lower = [] then None else Some (last lower), if upper = [] then None else Some (hd upper))) \<and>
    fst (block_off_srch_last (el_off el)) = (if el_off el = [] then None else Some (last (el_off el)))"
proof -
  have w: "wf_exts (el_off el)" using assms by (simp add: wf_el_def)
  show ?thesis
    using ext_skip.srch_levels [OF w] ext_skip.srch_pair [OF w] ext_skip.srch_last(1) [OF w]
    by (simp add: block_off_srch_def block_off_srch_pair_def block_off_srch_last_def)
qed

theorem skip_search_is_linear_witness:
  "level e_depth 1 (block_off_srch (el_off example_list) 5000 ! 1) = level e_depth 1 (dropWhile (\<lambda>e. e_off e < 5000) (el_off example_list)) \<and>
    block_off_srch_pair example_list 5000 =
      (Some \<lparr>e_off = 4096, e_size = 4096, e_depth = 3\<rparr>, Some \<lparr>e_off = 12288, e_size = 8192, e_depth = 1\<rparr>) \<and>
    fst (block_off_srch_last (el_off example_list)) = Some \<lparr>e_off = 12288, e_size = 8192, e_depth = 1\<rparr>"
proof -
  have "el_off example_list = [\<lparr>e_off = 4096, e_size = 4096, e_depth = 3\<rparr>, \<lparr>e_off = 12288, e_size = 8192, e_depth = 1\<rparr>]"
    by code_simp
  then show ?thesis using skip_search_is_linear [OF example_list_wf(1), of 5000] by simp
qed

text \<open>
  Taking a range out of a list. A range inside the list is cut out of the extent that holds it, which
  leaves what is in front of it and behind it; a range disjoint from the list is reported as
  WT_NOTFOUND, the answer \<^verbatim>\<open>__wt_block_off_free\<close> relies on.
\<close>

theorem off_remove_overlap_correct:
  assumes "wf_el el" "0 < sz" "valid_depth dp"
  shows "({off ..< off + sz} \<subseteq> covered el \<longrightarrow> (\<exists>el'. wt_block_off_remove_overlap verify dp el off sz = Inr el' \<and>
      extends el el' (covered el - {off ..< off + sz}))) \<and>
    (covered el \<inter> {off ..< off + sz} = {} \<longrightarrow> wt_block_off_remove_overlap verify dp el off sz = Inl WT_NOTFOUND)"
proof -
  have "\<exists>el'. wt_block_off_remove_overlap verify dp el off sz = Inr el' \<and> extends el el' (covered el - {off ..< off + sz})"
    if "{off ..< off + sz} \<subseteq> covered el"
    using range_in_one [OF assms(1,2) that] remove_overlap_spec [OF assms(1,2)] assms(3) by metis
  with remove_overlap_notfound [OF assms(1,2)] show ?thesis by blast
qed

theorem off_remove_overlap_correct_witness:
  "\<exists>el'. wt_block_off_remove_overlap False 2 example_list 14336 1024 = Inr el' \<and>
      extends example_list el' (covered example_list - {14336 ..< 14336 + 1024})"
proof -
  have "{14336 ..< 14336 + 1024} \<subseteq> covered example_list" by (auto simp: example_list_covered)
  then show ?thesis using off_remove_overlap_correct [OF example_list_wf(1), of 1024 2 14336 False] by simp
qed

text \<open>
  The fast path. Appending a range behind the last extent, which skips the searches by the cached last
  extent, gives the same extents and the same counts as merging it.
\<close>

theorem append_is_merge:
  assumes "wf_el el" "\<not> el_track_size el" "0 < sz" "valid_depth dp" "\<forall>e \<in> exts el. e_off e + e_size e \<le> off"
  shows "\<exists>a m. block_append dp el off sz = Inr a \<and> block_merge verify dp el off sz = Inr m \<and> wf_el a \<and> wf_el m \<and>
    ranges (el_off a) = ranges (el_off m) \<and> el_bytes a = el_bytes m \<and> el_entries a = el_entries m"
proof -
  have "covered el \<inter> {off ..< off + sz} = {}" using assms(5) by (fastforce simp: covered_exts ext_range_def)
  then obtain a m where r: "block_append dp el off sz = Inr a" "extends el a (covered el \<union> {off ..< off + sz})"
    "block_merge verify dp el off sz = Inr m" "extends el m (covered el \<union> {off ..< off + sz})"
    using merge_spec [OF assms(1,3), of dp off verify] append_spec [OF assms(1-3) _ _ assms(5)] assms(4) by metis
  then have "wf_el a" "wf_el m" "covered a = covered m" by (auto simp: extends_def)
  with same_cover_same_list [OF this] r show ?thesis by blast
qed

theorem append_is_merge_witness:
  "\<exists>a m. block_append 1 example_list 20480 4096 = Inr a \<and> block_merge False 1 example_list 20480 4096 = Inr m \<and> wf_el a \<and> wf_el m \<and>
    ranges (el_off a) = ranges (el_off m) \<and> el_bytes a = el_bytes m \<and> el_entries a = el_entries m"
proof -
  have "\<forall>e \<in> exts example_list. e_off e + e_size e \<le> 20480" by code_simp
  then show ?thesis using append_is_merge [OF example_list_wf, of 4096 1 20480 False] by simp
qed

end
