(* ===== verification/Extlist_Walk.thy ===== *)
theory Extlist_Walk
  imports Extlist_Ops
begin

text \<open>
  Extent lists against extent lists: the walks of \<^verbatim>\<open>__wt_block_extlist_check\<close> and
  \<^verbatim>\<open>__wt_block_extlist_overlap\<close>, with the case analysis of \<^verbatim>\<open>__block_ext_overlap\<close>, and
  \<^verbatim>\<open>__wt_block_extlist_merge\<close>. Two overlapping extents are taken off their lists and replaced by what is
  left of them; the walk continues at the first remaining piece. The measure of the walk counts the
  extents at and behind the two positions twice, and one for positions that overlap.
\<close>

subsection \<open>Checking and merging lists\<close>

lemma extlist_check_correct:
  assumes "wf_exts as" "wf_exts bs"
  shows "wt_block_extlist_check as bs =
    (if (\<Union>a \<in> set as. ext_range a) \<inter> (\<Union>b \<in> set bs. ext_range b) = {} then Inr () else Inl WT_PANIC)"
  using assms
proof (induction as bs rule: wt_block_extlist_check.induct)
  case (3 a as b bs)
  note pos = wf_exts_pos [OF "3.prems"(1)] wf_exts_pos [OF "3.prems"(2)]
  have w: "wf_exts as" "wf_exts bs" and lo: "\<forall>x \<in> set as. e_off a + e_size a < e_off x" "\<forall>x \<in> set bs. e_off b + e_size b < e_off x"
    using "3.prems" by (auto simp: wf_exts_def)
  consider "e_off a + e_size a \<le> e_off b" | "\<not> e_off a + e_size a \<le> e_off b" "e_off b + e_size b \<le> e_off a"
    | "e_off a < e_off b + e_size b" "e_off b < e_off a + e_size a" by linarith
  then show ?case
  proof cases
    case 1
    then have "ext_range a \<inter> (\<Union>b \<in> set (b # bs). ext_range b) = {}"
      using lo pos(2) by (fastforce simp: ext_range_def)
    then show ?thesis using 1 "3.IH"(1) [OF 1 w(1) "3.prems"(2)] by (simp add: Int_Un_distrib2)
  next
    case 2
    then have "ext_range b \<inter> (\<Union>a \<in> set (a # as). ext_range a) = {}"
      using lo pos(1) by (fastforce simp: ext_range_def)
    then show ?thesis using 2 "3.IH"(2) [OF 2 "3.prems"(1) w(2)] by (simp add: Int_Un_distrib Int_commute)
  next
    case 3
    then have "max (e_off a) (e_off b) \<in> ext_range a \<inter> ext_range b"
      using pos(1) [of a] pos(2) [of b] by (auto simp: ext_range_def)
    then show ?thesis using 3 by auto
  qed
qed simp_all

lemma merge_exts_spec:
  assumes "wf_el b" "wf_exts xs" "\<forall>e. 0 < dp e \<and> dp e \<le> WT_SKIP_MAXDEPTH"
    "covered b \<inter> (\<Union>e \<in> set xs. ext_range e) = {}"
  shows "\<exists>b'. merge_exts verify dp b xs = Inr b' \<and> extends b b' (covered b \<union> (\<Union>e \<in> set xs. ext_range e))"
  using assms
proof (induction xs arbitrary: b)
  case (Cons x xs)
  have x: "0 < e_size x" using wf_exts_pos [OF Cons.prems(2)] by simp
  have w: "wf_exts xs" "\<forall>e \<in> set xs. e_off x + e_size x < e_off e" using Cons.prems(2) by (auto simp: wf_exts_def)
  have "covered b \<inter> {e_off x ..< e_off x + e_size x} = {}" using Cons.prems(4) by (auto simp: ext_range_def)
  from merge_spec [OF Cons.prems(1) x _ _ this, of "dp x" verify] Cons.prems(3) obtain b1 where
    b1: "block_merge verify (dp x) b (e_off x) (e_size x) = Inr b1" "extends b b1 (covered b \<union> ext_range x)"
    by (auto simp: ext_range_def)
  have "ext_range x \<inter> (\<Union>e \<in> set xs. ext_range e) = {}" using w(2) by (fastforce simp: ext_range_def)
  then have "covered b1 \<inter> (\<Union>e \<in> set xs. ext_range e) = {}"
    using Cons.prems(4) b1(2) unfolding extends_def by auto
  with Cons.IH [of b1] w(1) Cons.prems(3) b1(2) obtain b2 where
    "merge_exts verify dp b1 xs = Inr b2" "extends b1 b2 (covered b1 \<union> (\<Union>e \<in> set xs. ext_range e))"
    by (auto simp: extends_def)
  then show ?case using b1 by (auto simp: extends_def)
qed (simp add: extends_def)

lemma swapped_wf:
  assumes "wf_el a" "wf_el b" "el_track_size a = el_track_size b" "el_last b = None"
  shows "wf_el (b\<lparr>el_bytes := el_bytes a, el_entries := el_entries a, el_off := el_off a, el_sz := el_sz a\<rparr>)"
  using assms by (auto simp: wf_el_def)

lemma extlist_merge_spec:
  assumes w: "wf_el a" "wf_el b" and dp: "\<forall>e. 0 < dp e \<and> dp e \<le> WT_SKIP_MAXDEPTH" and dis: "covered a \<inter> covered b = {}"
    and last: "el_last b = None \<or> el_entries a \<le> el_entries b \<or> el_track_size a \<noteq> el_track_size b"
  shows "\<exists>a' b'. wt_block_extlist_merge verify dp a b = Inr (a', b') \<and> extends b b' (covered a \<union> covered b)"
proof (cases "el_track_size a = el_track_size b \<and> el_entries a > el_entries b")
  case True
  let ?b = "b\<lparr>el_bytes := el_bytes a, el_entries := el_entries a, el_off := el_off a, el_sz := el_sz a\<rparr>"
  have "wf_el ?b" using True last w by (intro swapped_wf) auto
  moreover have "wf_exts (el_off b)" using w by (simp add: wf_el_def)
  ultimately show ?thesis
    using merge_exts_spec [of ?b "el_off b" dp verify] True dp dis
    by (auto simp: wt_block_extlist_merge_def extends_def covered_def)
next
  case False
  have "wf_exts (el_off a)" using w by (simp add: wf_el_def)
  with False show ?thesis
    using merge_exts_spec [OF w(2), of "el_off a" dp verify] dp dis
    by (auto simp: wt_block_extlist_merge_def extends_def covered_def Int_commute Un_commute)
qed

text \<open>
  What \<^verbatim>\<open>__block_ext_overlap\<close> does to each of the two lists: the extent gives up the bytes \<open>R\<close> and is replaced
  by what is left of it, and the caller's position moves to the first remaining piece or to the next
  extent of the list.
\<close>

definition trimmed :: "wt_extlist \<Rightarrow> wt_ext \<Rightarrow> int set \<Rightarrow> wt_extlist \<Rightarrow> wt_ext option \<Rightarrow> wt_ext set \<Rightarrow> bool" where
  "trimmed el a R el' p T \<longleftrightarrow> wf_el el' \<and> el_track_size el' = el_track_size el \<and> el_addr el' = el_addr el \<and>
     exts el' = (exts el - {a}) \<union> T \<and> finite T \<and> \<Union> (ext_range ` T) = ext_range a - R \<and>
     (if T = {} then p = ext_next el a else \<exists>t \<in> T. p = Some t \<and> (\<forall>u \<in> T. e_off t \<le> e_off u))"

lemma trim_all:
  assumes "wf_el el" "a \<in> exts el" "ext_range a \<subseteq> R"
  shows "\<exists>el'. block_off_remove verify el (e_off a) = Inr (el', a) \<and> trimmed el a R el' (ext_next el a) {}"
proof -
  obtain el1 where r: "block_off_remove verify el (e_off a) = Inr (el1, a)" "wf_el el1" "exts el1 = exts el - {a}"
      "el_track_size el1 = el_track_size el" "el_addr el1 = el_addr el" by (rule remove_spec [OF assms(1,2)])
  then show ?thesis using assms(3) by (auto simp: trimmed_def)
qed

lemma trim_one:
  assumes wf: "wf_el el" and a: "a \<in> exts el" and t: "e_depth t = e_depth a" "0 < e_size t" "ext_range t = ext_range a - R"
      "e_off a \<le> e_off t" "e_off t + e_size t \<le> e_off a + e_size a"
  shows "\<exists>el'. block_off_remove verify el (e_off a) = Inr (el', a) \<and> trimmed el a R (block_ext_insert el' t) (Some t) {t}"
proof -
  obtain el1 where r: "block_off_remove verify el (e_off a) = Inr (el1, a)" "wf_el el1" "exts el1 = exts el - {a}"
      "el_track_size el1 = el_track_size el" "el_addr el1 = el_addr el" by (rule remove_spec [OF wf a])
  have "\<forall>x \<in> exts el1. apart a x" using wf_el_exts(4) [OF wf a] r(3) by auto
  then have "\<forall>x \<in> exts el1. apart t x" using t(4,5) by (auto simp: apart_def)
  moreover have "wf_ext t" using t(1,2) wf_el_exts(2,3) [OF wf a] by (simp add: wf_ext_def)
  ultimately show ?thesis using insert_spec [OF r(2), of t] r t(3) by (simp add: trimmed_def)
qed


lemma merge_apart:
  assumes wf: "wf_el el" and sz: "0 < sz" and ap: "\<forall>x \<in> exts el. apart \<lparr>e_off = off, e_size = sz, e_depth = d\<rparr> x"
  shows "block_merge verify dp el off sz = Inr (block_ext_insert el \<lparr>e_off = off, e_size = sz, e_depth = dp\<rparr>)"
proof -
  obtain before after where pair: "block_off_srch_pair el off = (before, after)" "neighbours el off before after"
    by (rule srch_pair_neighbours [OF wf])
  have "e_off b + e_size b < off" if "before = Some b" for b
    using pair(2) that ap sz by (fastforce simp: neighbours_def apart_def)
  moreover have "off + sz < e_off a" if "after = Some a" for a
    using pair(2) that ap wf_el_exts(1) [OF wf, of a] by (fastforce simp: neighbours_def apart_def)
  ultimately show ?thesis
    by (force simp: block_merge_def pair(1) block_off_insert_def Let_def split: option.splits)
qed

lemma trim_middle:
  assumes wf: "wf_el el" and a: "a \<in> exts el" and dp: "0 < d" "d \<le> WT_SKIP_MAXDEPTH"
    and k: "e_off a < lo" "lo < hi" "hi < e_off a + e_size a"
  shows "\<exists>el1 el2. block_off_remove verify el (e_off a) = Inr (el1, a) \<and>
    block_merge verify d (block_ext_insert el1 (a\<lparr>e_size := lo - e_off a\<rparr>)) hi (e_off a + e_size a - hi) = Inr el2 \<and>
    trimmed el a {lo ..< hi} el2 (Some (a\<lparr>e_size := lo - e_off a\<rparr>))
      {a\<lparr>e_size := lo - e_off a\<rparr>, \<lparr>e_off = hi, e_size = e_off a + e_size a - hi, e_depth = d\<rparr>}"
proof -
  obtain el1 where r: "block_off_remove verify el (e_off a) = Inr (el1, a)" "wf_el el1" "exts el1 = exts el - {a}"
      "el_track_size el1 = el_track_size el" "el_addr el1 = el_addr el" by (rule remove_spec [OF wf a])
  let ?t = "a\<lparr>e_size := lo - e_off a\<rparr>" and ?u = "\<lparr>e_off = hi, e_size = e_off a + e_size a - hi, e_depth = d\<rparr>"
  have ap: "\<forall>x \<in> exts el1. apart a x" using wf_el_exts(4) [OF wf a] r(3) by auto
  have t: "\<forall>x \<in> exts el1. apart ?t x" "wf_ext ?t" using ap k wf_el_exts(2,3) [OF wf a] by (auto simp: apart_def wf_ext_def)
  note i = insert_spec [OF r(2) t(2,1)]
  have u: "\<forall>x \<in> exts (block_ext_insert el1 ?t). apart ?u x" "wf_ext ?u" using ap i(2) k dp by (auto simp: apart_def wf_ext_def)
  have "ext_range ?t \<union> ext_range ?u = ext_range a - {lo ..< hi}" using k by (auto simp: ext_range_def)
  then have "trimmed el a {lo ..< hi} (block_ext_insert (block_ext_insert el1 ?t) ?u) (Some ?t) {?t, ?u}"
    using insert_spec [OF i(1) u(2,1)] i(2-4) r k by (auto simp: trimmed_def)
  moreover have "block_merge verify d (block_ext_insert el1 ?t) hi (e_off a + e_size a - hi) = Inr (block_ext_insert (block_ext_insert el1 ?t) ?u)"
    using merge_apart [OF i(1) _ u(1), of verify d] k by simp
  ultimately show ?thesis using r(1) by blast
qed

text \<open>The two ranges in order: every case hands the common bytes to the available list.\<close>

definition reconciled where
  "reconciled avail ael a bel b r \<longleftrightarrow> (\<exists>avail' ael' ap bel' bp T U. r = Inr (avail', ael', ap, bel', bp) \<and>
     extends avail avail' (covered avail \<union> (ext_range a \<inter> ext_range b)) \<and>
     trimmed ael a (ext_range b) ael' ap T \<and> trimmed bel b (ext_range a) bel' bp U \<and>
     card T + card U \<le> 2 \<and> (\<forall>t \<in> T. \<forall>u \<in> U. ext_range t \<inter> ext_range u = {}) \<and>
     (card T + card U = 2 \<longrightarrow> (\<exists>t. ap = Some t \<and> t \<in> T \<and> e_off t + e_size t \<le> e_off b) \<or> (\<exists>u. bp = Some u \<and> u \<in> U \<and> e_off u + e_size u \<le> e_off a)))"

lemma reconciledI:
  assumes "extends avail avail' (covered avail \<union> (ext_range a \<inter> ext_range b))"
    "trimmed ael a (ext_range b) ael' ap T" "trimmed bel b (ext_range a) bel' bp U"
    "card T + card U \<le> 2" "\<forall>t \<in> T. \<forall>u \<in> U. ext_range t \<inter> ext_range u = {}"
    "card T + card U = 2 \<Longrightarrow> (\<exists>t. ap = Some t \<and> t \<in> T \<and> e_off t + e_size t \<le> e_off b) \<or> (\<exists>u. bp = Some u \<and> u \<in> U \<and> e_off u + e_size u \<le> e_off a)"
  shows "reconciled avail ael a bel b (Inr (avail', ael', ap, bel', bp))"
  unfolding reconciled_def using assms by blast

lemma give_common:
  assumes wf: "wf_el avail" and dp: "0 < d1" "d1 \<le> WT_SKIP_MAXDEPTH" and dis: "covered avail \<inter> (ext_range a \<inter> ext_range b) = {}"
    and ord: "e_off a \<le> e_off b" "e_off b < e_off a + e_size a" "0 < e_size b"
  obtains avail' where "block_merge verify d1 avail (e_off b) (min (e_off a + e_size a) (e_off b + e_size b) - e_off b) = Inr avail'"
    "extends avail avail' (covered avail \<union> (ext_range a \<inter> ext_range b))"
proof -
  let ?lim = "min (e_off a + e_size a) (e_off b + e_size b)"
  have R: "ext_range a \<inter> ext_range b = {e_off b ..< ?lim}" using ord(1) by (auto simp: ext_range_def)
  show ?thesis
    using that merge_spec [OF wf _ dp, of "?lim - e_off b" "e_off b" verify] dis ord unfolding R by auto
qed

lemma overlap_same_start:
  assumes wf: "wf_el avail" "wf_el ael" "wf_el bel" and dp: "0 < d1" "d1 \<le> WT_SKIP_MAXDEPTH" "0 < d2" "d2 \<le> WT_SKIP_MAXDEPTH"
    and a: "a \<in> exts ael" and b: "b \<in> exts bel" and ord: "e_off a = e_off b"
    and dis: "covered avail \<inter> (ext_range a \<inter> ext_range b) = {}"
  shows "reconciled avail ael a bel b (ext_overlap_ordered verify d1 d2 avail ael a bel b)"
proof -
  note pos = wf_el_exts(1) [OF wf(2) a] wf_el_exts(1) [OF wf(3) b]
  obtain avail' where m: "block_merge verify d1 avail (e_off b) (min (e_off a + e_size a) (e_off b + e_size b) - e_off b) = Inr avail'"
    "extends avail avail' (covered avail \<union> (ext_range a \<inter> ext_range b))"
    by (rule give_common [OF wf(1) dp(1,2) dis]) (use ord pos in auto)
  consider (same) "e_size a = e_size b" | (alonger) "e_size a > e_size b" | (blonger) "e_size a < e_size b" by linarith
  then show ?thesis
  proof cases
    case same
    then have "ext_range a \<subseteq> ext_range b" "ext_range b \<subseteq> ext_range a" using ord by (auto simp: ext_range_def)
    then obtain ael' bel' where r: "block_off_remove verify ael (e_off a) = Inr (ael', a)" "trimmed ael a (ext_range b) ael' (ext_next ael a) {}"
      "block_off_remove verify bel (e_off b) = Inr (bel', b)" "trimmed bel b (ext_range a) bel' (ext_next bel b) {}"
      using trim_all [OF wf(2) a] trim_all [OF wf(3) b] by meson
    have "ext_overlap_ordered verify d1 d2 avail ael a bel b = Inr (avail', ael', ext_next ael a, bel', ext_next bel b)"
      using same ord m(1) r(1,3) by (simp add: ext_overlap_ordered_def Let_def)
    with reconciledI [OF m(2) r(2,4)] show ?thesis by simp
  next
    case alonger
    let ?a = "a\<lparr>e_off := e_off a + e_size b, e_size := e_size a - e_size b\<rparr>"
    have "ext_range b \<subseteq> ext_range a" "ext_range ?a = ext_range a - ext_range b" using alonger ord pos by (auto simp: ext_range_def)
    then obtain ael' bel' where r: "block_off_remove verify ael (e_off a) = Inr (ael', a)" "trimmed ael a (ext_range b) (block_ext_insert ael' ?a) (Some ?a) {?a}"
      "block_off_remove verify bel (e_off b) = Inr (bel', b)" "trimmed bel b (ext_range a) bel' (ext_next bel b) {}"
      using trim_one [OF wf(2) a, of ?a "ext_range b" verify] trim_all [OF wf(3) b, of "ext_range a" verify] alonger ord pos by auto
    have "ext_overlap_ordered verify d1 d2 avail ael a bel b = Inr (avail', block_ext_insert ael' ?a, Some ?a, bel', ext_next bel b)"
      using alonger ord m(1) r(1,3) by (simp add: ext_overlap_ordered_def Let_def)
    with reconciledI [OF m(2) r(2,4)] show ?thesis by simp
  next
    case blonger
    let ?b = "b\<lparr>e_off := e_off b + e_size a, e_size := e_size b - e_size a\<rparr>"
    have "ext_range a \<subseteq> ext_range b" "ext_range ?b = ext_range b - ext_range a" using blonger ord pos by (auto simp: ext_range_def)
    then obtain ael' bel' where r: "block_off_remove verify ael (e_off a) = Inr (ael', a)" "trimmed ael a (ext_range b) ael' (ext_next ael a) {}"
      "block_off_remove verify bel (e_off b) = Inr (bel', b)" "trimmed bel b (ext_range a) (block_ext_insert bel' ?b) (Some ?b) {?b}"
      using trim_one [OF wf(3) b, of ?b "ext_range a" verify] trim_all [OF wf(2) a, of "ext_range b" verify] blonger ord pos by auto
    have "ext_overlap_ordered verify d1 d2 avail ael a bel b = Inr (avail', ael', ext_next ael a, block_ext_insert bel' ?b, Some ?b)"
      using blonger ord m(1) r(1,3) by (simp add: ext_overlap_ordered_def Let_def)
    with reconciledI [OF m(2) r(2,4)] show ?thesis by simp
  qed
qed

lemma overlap_later_start:
  assumes wf: "wf_el avail" "wf_el ael" "wf_el bel" and dp: "0 < d1" "d1 \<le> WT_SKIP_MAXDEPTH" "0 < d2" "d2 \<le> WT_SKIP_MAXDEPTH"
    and a: "a \<in> exts ael" and b: "b \<in> exts bel" and ord: "e_off a < e_off b" "e_off b < e_off a + e_size a"
    and dis: "covered avail \<inter> (ext_range a \<inter> ext_range b) = {}"
  shows "reconciled avail ael a bel b (ext_overlap_ordered verify d1 d2 avail ael a bel b)"
proof -
  note pos = wf_el_exts(1) [OF wf(2) a] wf_el_exts(1) [OF wf(3) b]
  obtain avail' where m: "block_merge verify d1 avail (e_off b) (min (e_off a + e_size a) (e_off b + e_size b) - e_off b) = Inr avail'"
    "extends avail avail' (covered avail \<union> (ext_range a \<inter> ext_range b))"
    by (rule give_common [OF wf(1) dp(1,2) dis]) (use ord pos in auto)
  consider (ends) "e_off a + e_size a = e_off b + e_size b" | (partial) "e_off a + e_size a < e_off b + e_size b"
    | (middle) "e_off a + e_size a > e_off b + e_size b" by linarith
  then show ?thesis
  proof cases
    case ends
    let ?a = "a\<lparr>e_size := e_size a - e_size b\<rparr>"
    have "ext_range b \<subseteq> ext_range a" "ext_range ?a = ext_range a - ext_range b" using ends ord pos by (auto simp: ext_range_def)
    then obtain ael' bel' where r: "block_off_remove verify ael (e_off a) = Inr (ael', a)" "trimmed ael a (ext_range b) (block_ext_insert ael' ?a) (Some ?a) {?a}"
      "block_off_remove verify bel (e_off b) = Inr (bel', b)" "trimmed bel b (ext_range a) bel' (ext_next bel b) {}"
      using trim_one [OF wf(2) a, of ?a "ext_range b" verify] trim_all [OF wf(3) b, of "ext_range a" verify] ends ord pos by auto
    have "ext_overlap_ordered verify d1 d2 avail ael a bel b = Inr (avail', block_ext_insert ael' ?a, Some ?a, bel', ext_next bel b)"
      using ends ord m(1) r(1,3) by (simp add: ext_overlap_ordered_def Let_def)
    with reconciledI [OF m(2) r(2,4)] show ?thesis by simp
  next
    case partial
    let ?sz = "e_off a + e_size a - e_off b"
    let ?a = "a\<lparr>e_size := e_size a - ?sz\<rparr>" and ?b = "b\<lparr>e_off := e_off b + ?sz, e_size := e_size b - ?sz\<rparr>"
    have "ext_range ?b = ext_range b - ext_range a" "ext_range ?a = ext_range a - ext_range b" using partial ord pos ord by (auto simp: ext_range_def)
    then obtain ael' bel' where r: "block_off_remove verify ael (e_off a) = Inr (ael', a)" "trimmed ael a (ext_range b) (block_ext_insert ael' ?a) (Some ?a) {?a}"
      "block_off_remove verify bel (e_off b) = Inr (bel', b)" "trimmed bel b (ext_range a) (block_ext_insert bel' ?b) (Some ?b) {?b}"
      using trim_one [OF wf(2) a, of ?a "ext_range b" verify] trim_one [OF wf(3) b, of ?b "ext_range a" verify] partial ord pos ord by auto
    have "ext_overlap_ordered verify d1 d2 avail ael a bel b = Inr (avail', block_ext_insert ael' ?a, Some ?a, block_ext_insert bel' ?b, Some ?b)"
      using partial ord m(1) r(1,3) by (simp add: ext_overlap_ordered_def Let_def)
    with reconciledI [OF m(2) r(2,4)] partial ord show ?thesis by (simp add: ext_range_def)
  next
    case middle
    let ?off = "e_off b + e_size b"
    let ?a = "a\<lparr>e_size := e_off b - e_off a\<rparr>" and ?u = "\<lparr>e_off = ?off, e_size = e_off a + e_size a - ?off, e_depth = d2\<rparr>"
    have sub: "ext_range b \<subseteq> ext_range a" "{e_off b ..< ?off} = ext_range b" using middle ord pos by (auto simp: ext_range_def)
    obtain ael' ael2 where r: "block_off_remove verify ael (e_off a) = Inr (ael', a)"
      "block_merge verify d2 (block_ext_insert ael' ?a) ?off (e_off a + e_size a - ?off) = Inr ael2"
      "trimmed ael a (ext_range b) ael2 (Some ?a) {?a, ?u}"
      using trim_middle [OF wf(2) a dp(3,4), of "e_off b" ?off verify] middle ord pos unfolding sub(2) by auto
    obtain bel' where q: "block_off_remove verify bel (e_off b) = Inr (bel', b)" "trimmed bel b (ext_range a) bel' (ext_next bel b) {}"
      using trim_all [OF wf(3) b sub(1), of verify] by auto
    have "ext_overlap_ordered verify d1 d2 avail ael a bel b = Inr (avail', ael2, Some ?a, bel', ext_next bel b)"
      using middle ord m(1) r(1,2) q(1) by (simp add: ext_overlap_ordered_def Let_def)
    moreover have "e_off ?a \<noteq> e_off ?u" using middle ord pos by simp
    then have "?a \<noteq> ?u" by metis
    ultimately show ?thesis using reconciledI [OF m(2) r(3) q(2)] middle ord by simp
  qed
qed

lemma overlap_ordered_spec:
  assumes wf: "wf_el avail" "wf_el ael" "wf_el bel" and dp: "0 < d1" "d1 \<le> WT_SKIP_MAXDEPTH" "0 < d2" "d2 \<le> WT_SKIP_MAXDEPTH"
    and a: "a \<in> exts ael" and b: "b \<in> exts bel" and ord: "e_off a \<le> e_off b" "e_off b < e_off a + e_size a"
    and dis: "covered avail \<inter> (ext_range a \<inter> ext_range b) = {}"
  shows "reconciled avail ael a bel b (ext_overlap_ordered verify d1 d2 avail ael a bel b)"
  using overlap_same_start [OF wf dp a b _ dis] overlap_later_start [OF wf dp a b _ ord(2) dis] ord(1)
  by (cases "e_off a = e_off b") auto

lemma ext_overlap_spec:
  assumes wf: "wf_el avail" "wf_el ael" "wf_el bel" and dp: "0 < d1" "d1 \<le> WT_SKIP_MAXDEPTH" "0 < d2" "d2 \<le> WT_SKIP_MAXDEPTH"
    and a: "a \<in> exts ael" and b: "b \<in> exts bel" and ov: "e_off a < e_off b + e_size b" "e_off b < e_off a + e_size a"
    and dis: "covered avail \<inter> (ext_range a \<inter> ext_range b) = {}"
  shows "reconciled avail ael a bel b (block_ext_overlap verify d1 d2 avail ael a bel b)"
proof (cases "e_off a > e_off b")
  case True
  have "reconciled avail bel b ael a (ext_overlap_ordered verify d1 d2 avail bel b ael a)"
    using True ov dis by (intro overlap_ordered_spec [OF wf(1,3,2) dp b a]) (auto simp: Int_commute)
  then obtain avail' bel' bp ael' ap T U where r: "ext_overlap_ordered verify d1 d2 avail bel b ael a = Inr (avail', bel', bp, ael', ap)"
    "extends avail avail' (covered avail \<union> (ext_range b \<inter> ext_range a))"
     "trimmed bel b (ext_range a) bel' bp T" "trimmed ael a (ext_range b) ael' ap U"
     "card T + card U \<le> 2" "\<forall>t \<in> T. \<forall>u \<in> U. ext_range t \<inter> ext_range u = {}"
     "card T + card U = 2 \<Longrightarrow> (\<exists>t. bp = Some t \<and> t \<in> T \<and> e_off t + e_size t \<le> e_off a) \<or> (\<exists>u. ap = Some u \<and> u \<in> U \<and> e_off u + e_size u \<le> e_off b)"
    unfolding reconciled_def by blast
  have "block_ext_overlap verify d1 d2 avail ael a bel b = Inr (avail', ael', ap, bel', bp)"
    using True r(1) by (simp add: block_ext_overlap_def)
  moreover have "reconciled avail ael a bel b (Inr (avail', ael', ap, bel', bp))"
    using r(2,5-7) by (intro reconciledI [OF _ r(4,3)]) (auto simp: Int_commute add.commute)
  ultimately show ?thesis by simp
next
  case False
  with overlap_ordered_spec [OF wf dp a b _ ov(2) dis, of verify] show ?thesis by (simp add: block_ext_overlap_def)
qed

subsection \<open>The walk over two lists\<close>

definition rest :: "wt_extlist \<Rightarrow> wt_ext option \<Rightarrow> wt_ext set" where
  "rest el p = (case p of None \<Rightarrow> {} | Some a \<Rightarrow> {e \<in> exts el. e_off a \<le> e_off e})"

definition walk_pos :: "wt_extlist \<Rightarrow> wt_ext option \<Rightarrow> wt_extlist \<Rightarrow> bool" where
  "walk_pos el p other \<longleftrightarrow> (\<forall>a. p = Some a \<longrightarrow> a \<in> exts el) \<and>
     (\<forall>e \<in> exts el - rest el p. ext_range e \<inter> covered other = {})"

definition overlapping :: "wt_ext option \<Rightarrow> wt_ext option \<Rightarrow> nat" where
  "overlapping p q = (case (p, q) of (Some a, Some b) \<Rightarrow>
     if e_off a + e_size a \<le> e_off b \<or> e_off b + e_size b \<le> e_off a then 0 else 1 | _ \<Rightarrow> 0)"

abbreviation walk_left :: "wt_extlist \<Rightarrow> wt_ext option \<Rightarrow> wt_extlist \<Rightarrow> wt_ext option \<Rightarrow> nat" where
  "walk_left ael ap bel bp \<equiv> 2 * (card (rest ael ap) + card (rest bel bp)) + overlapping ap bp"

lemma ext_next_spec:
  assumes "wf_el el" "a \<in> exts el"
  shows "rest el (ext_next el a) = rest el (Some a) - {a}" "ext_next el a = Some c \<Longrightarrow> c \<in> exts el \<and> e_off a + e_size a < e_off c"
proof -
  have w: "wf_exts (el_off el)" using assms by (simp add: wf_el_def)
  define up where "up = filter (\<lambda>e. \<not> e_off e < e_off a + 1) (el_off el)"
  have s: "set up = {e \<in> exts el. e_off a < e_off e}" by (auto simp: up_def)
  have "ext_next el a = (case up of [] \<Rightarrow> None | e # _ \<Rightarrow> Some e)"
    using ascending_dropWhile [OF wf_exts_ascending [OF w], of "e_off a + 1"] by (simp add: ext_next_def up_def zless_add1_eq order_le_less disj_commute)
  moreover have asc: "ascending e_off up" unfolding up_def using sorted_wrt_filter [OF wf_exts_ascending [OF w]] .
  moreover have "rest el (Some a) - {a} = set up"
    using same_off_same_ext [OF w assms(2)] by (force simp: rest_def s)
  moreover have "e_off a < e_off c" if "up = c # cs" for c cs using s that by (auto simp: set_eq_iff)
  ultimately show "rest el (ext_next el a) = rest el (Some a) - {a}"
    using s ascending_hd [OF asc] by (cases up) (fastforce simp: rest_def)+
  show "c \<in> exts el \<and> e_off a + e_size a < e_off c" if "ext_next el a = Some c"
  proof -
    have "c \<in> set up" using that \<open>ext_next el a = (case up of [] \<Rightarrow> None | e # _ \<Rightarrow> Some e)\<close> by (cases up) auto
    then have "c \<in> exts el" "e_off a < e_off c" by (auto simp: s)
    with wf_el_exts(4) [OF assms this(1)] wf_el_exts(1) [OF assms(1) this(1)] show ?thesis by (auto simp: apart_def)
  qed
qed

lemma finite_rest [simp]: "finite (rest el p)"
  by (auto simp: rest_def split: option.splits)

lemma rest_self: "a \<in> exts el \<Longrightarrow> a \<in> rest el (Some a)"
  by (simp add: rest_def)

text \<open>Stepping over an extent in front of the other list's position.\<close>

lemma walk_advance:
  assumes wf: "wf_el ael" and pos: "walk_pos ael (Some a) bel" "walk_pos bel (Some b) ael" and lt: "e_off a + e_size a \<le> e_off b"
  shows "walk_pos ael (ext_next ael a) bel" "card (rest ael (ext_next ael a)) < card (rest ael (Some a))"
proof -
  have a: "a \<in> exts ael" using pos(1) by (simp add: walk_pos_def)
  note n = ext_next_spec [OF wf a]
  have "ext_range a \<inter> ext_range e = {}" if e: "e \<in> exts bel" for e
  proof (cases "e_off b \<le> e_off e")
    case True
    then show ?thesis using lt by (auto simp: ext_range_def)
  next
    case False
    then have "e \<in> exts bel - rest bel (Some b)" using e by (simp add: rest_def)
    then have "ext_range e \<inter> covered ael = {}" using pos(2) by (simp add: walk_pos_def)
    then show ?thesis using a by (auto simp: covered_exts)
  qed
  then have "ext_range a \<inter> covered bel = {}" by (auto simp: covered_exts)
  then show "walk_pos ael (ext_next ael a) bel"
    using pos(1) n by (auto simp: walk_pos_def)
  show "card (rest ael (ext_next ael a)) < card (rest ael (Some a))"
    unfolding n(1) using rest_self [OF a] by (intro psubset_card_mono) auto
qed


lemma trimmed_covered:
  assumes "wf_el el" "a \<in> exts el" "trimmed el a R el' p T" shows "covered el' = covered el - (ext_range a \<inter> R)"
proof -
  define X where "X = \<Union> (ext_range ` (exts el - {a}))"
  have "X \<inter> ext_range a = {}"
    using wf_el_exts(4) [OF assms(1,2)] by (fastforce simp: X_def ext_range_def apart_def)
  moreover have "covered el' = X \<union> (ext_range a - R)"
    using assms(3) by (auto simp: X_def trimmed_def covered_exts)
  moreover have "covered el = X \<union> ext_range a" using assms(2) by (auto simp: X_def covered_exts)
  ultimately show ?thesis by blast
qed

lemma trimmed_within:
  assumes wf: "wf_el el" and tr: "trimmed el a R el' p T" and t: "t \<in> T"
  shows "e_off a \<le> e_off t" "e_off t + e_size t \<le> e_off a + e_size a" "0 < e_size t"
proof -
  have w: "wf_el el'" "t \<in> exts el'" using tr t by (auto simp: trimmed_def)
  show p: "0 < e_size t" using wf_el_exts(1) [OF w] .
  have "ext_range t \<subseteq> ext_range a" using tr UN_upper [OF t, of ext_range] by (auto simp: trimmed_def)
  then show "e_off a \<le> e_off t" "e_off t + e_size t \<le> e_off a + e_size a" using p by (auto simp: ext_range_def)
qed

lemma trimmed_rest:
  assumes wf: "wf_el el" and a: "a \<in> exts el" and tr: "trimmed el a R el' p T"
  shows "rest el' p = (rest el (Some a) - {a}) \<union> T" "\<forall>c. p = Some c \<longrightarrow> c \<in> exts el'"
proof -
  note n = ext_next_spec [OF wf a]
  have ex: "exts el' = (exts el - {a}) \<union> T" using tr by (simp add: trimmed_def)
  have w: "wf_exts (el_off el)" using wf by (simp add: wf_el_def)
  show "rest el' p = (rest el (Some a) - {a}) \<union> T"
  proof (cases "T = {}")
    case True
    then have "p = ext_next el a" using tr by (simp add: trimmed_def)
    moreover have "rest el' (ext_next el a) = rest el (ext_next el a) - {a}"
      using ex True by (auto simp: rest_def split: option.splits)
    ultimately show ?thesis using n(1) True by simp
  next
    case False
    then obtain t where t: "t \<in> T" "p = Some t" "\<forall>u \<in> T. e_off t \<le> e_off u" using tr by (auto simp: trimmed_def)
    note wi = trimmed_within [OF wf tr t(1)]
    have "e_off t \<le> e_off e \<longleftrightarrow> e_off a \<le> e_off e" if "e \<in> exts el - {a}" for e
      using wf_el_exts(4) [OF wf a, of e] wf_el_exts(1) [OF wf, of e] that wi by (auto simp: apart_def)
    then show ?thesis using t ex by (auto simp: rest_def)
  qed
  have "T = {} \<and> p = ext_next el a \<or> (\<exists>t \<in> T. p = Some t)" using tr by (auto simp: trimmed_def split: if_splits)
  moreover have "c \<in> exts el \<and> c \<noteq> a" if "ext_next el a = Some c" for c using n(2) [OF that] wf_el_exts(1) [OF wf a] by auto
  ultimately show "\<forall>c. p = Some c \<longrightarrow> c \<in> exts el'" unfolding ex by (metis DiffI UnCI singletonD option.inject)
qed

lemma walk_trim:
  assumes wf: "wf_el ael" and a: "a \<in> exts ael" and tr: "trimmed ael a R ael' ap T" and pos: "walk_pos ael (Some a) bel"
    and sub: "covered bel' \<subseteq> covered bel"
  shows "walk_pos ael' ap bel'" "card (rest ael' ap) + 1 \<le> card (rest ael (Some a)) + card T"
proof -
  note r = trimmed_rest [OF wf a tr]
  have "exts ael' - rest ael' ap \<subseteq> exts ael - rest ael (Some a)"
    using tr r(1) a by (auto simp: trimmed_def rest_def)
  then show "walk_pos ael' ap bel'" using pos sub r(2) by (fastforce simp: walk_pos_def)
  have "card ((rest ael (Some a) - {a}) \<union> T) \<le> card (rest ael (Some a) - {a}) + card T" by (rule card_Un_le)
  moreover have "card (rest ael (Some a) - {a}) + 1 = card (rest ael (Some a))"
    using rest_self [OF a] by (metis Suc_eq_plus1 card.remove finite_rest)
  ultimately show "card (rest ael' ap) + 1 \<le> card (rest ael (Some a)) + card T" unfolding r(1) by linarith
qed

lemma reconciled_left:
  assumes wf: "wf_el ael" "wf_el bel" and a: "a \<in> exts ael" and b: "b \<in> exts bel"
    and tr: "trimmed ael a (ext_range b) ael' ap T" "trimmed bel b (ext_range a) bel' bp U"
    and c: "card T + card U \<le> 2"
      "card T + card U = 2 \<Longrightarrow> (\<exists>t. ap = Some t \<and> t \<in> T \<and> e_off t + e_size t \<le> e_off b) \<or> (\<exists>u. bp = Some u \<and> u \<in> U \<and> e_off u + e_size u \<le> e_off a)"
    and pos: "walk_pos ael (Some a) bel" "walk_pos bel (Some b) ael" and ov: "overlapping (Some a) (Some b) = 1"
  shows "walk_left ael' ap bel' bp < walk_left ael (Some a) bel (Some b)"
proof -
  have le: "card (rest ael' ap) + 1 \<le> card (rest ael (Some a)) + card T" "card (rest bel' bp) + 1 \<le> card (rest bel (Some b)) + card U"
    using walk_trim(2) [OF wf(1) a tr(1) pos(1) subset_refl] walk_trim(2) [OF wf(2) b tr(2) pos(2) subset_refl] .
  have one: "overlapping ap bp \<le> 1" by (auto simp: overlapping_def split: option.splits)
  have bound: "e_off b \<le> e_off c" if "bp = Some c" for c
  proof (cases "U = {}")
    case True
    then show ?thesis using that tr(2) ext_next_spec(2) [OF wf(2) b, of c] wf_el_exts(1) [OF wf(2) b] by (simp add: trimmed_def)
  next
    case False
    then show ?thesis using that tr(2) trimmed_within(1) [OF wf(2) tr(2)] by (auto simp: trimmed_def)
  qed
  have bound': "e_off a \<le> e_off c" if "ap = Some c" for c
  proof (cases "T = {}")
    case True
    then show ?thesis using that tr(1) ext_next_spec(2) [OF wf(1) a, of c] wf_el_exts(1) [OF wf(1) a] by (simp add: trimmed_def)
  next
    case False
    then show ?thesis using that tr(1) trimmed_within(1) [OF wf(1) tr(1)] by (auto simp: trimmed_def)
  qed
  have "overlapping ap bp = 0" if "card T + card U = 2"
    using c(2) [OF that] bound bound' by (fastforce simp: overlapping_def split: option.splits)
  with le c(1) one ov show ?thesis by (cases "card T + card U = 2") auto
qed

lemma reconciled_walk:
  assumes wf: "wf_el avail" "wf_el ael" "wf_el bel" and dp: "0 < d1" "d1 \<le> WT_SKIP_MAXDEPTH" "0 < d2" "d2 \<le> WT_SKIP_MAXDEPTH"
    and pos: "walk_pos ael (Some a) bel" "walk_pos bel (Some b) ael" and ov: "overlapping (Some a) (Some b) = 1"
    and dis: "covered avail \<inter> (covered ael \<inter> covered bel) = {}"
  shows "\<exists>avail' ael' ap bel' bp R. block_ext_overlap verify d1 d2 avail ael a bel b = Inr (avail', ael', ap, bel', bp) \<and>
    R \<subseteq> covered ael \<inter> covered bel \<and>
    extends avail avail' (covered avail \<union> R) \<and> extends ael ael' (covered ael - R) \<and> extends bel bel' (covered bel - R) \<and>
    walk_pos ael' ap bel' \<and> walk_pos bel' bp ael' \<and> walk_left ael' ap bel' bp < walk_left ael (Some a) bel (Some b)"
proof -
  have ab: "a \<in> exts ael" "b \<in> exts bel" using pos by (auto simp: walk_pos_def)
  have ov': "e_off a < e_off b + e_size b" "e_off b < e_off a + e_size a" using ov by (auto simp: overlapping_def split: if_splits)
  have sub: "ext_range a \<inter> ext_range b \<subseteq> covered ael \<inter> covered bel" using ab by (auto simp: covered_exts)
  then have "covered avail \<inter> (ext_range a \<inter> ext_range b) = {}" using dis by blast
  from ext_overlap_spec [OF wf dp ab ov' this, of verify] obtain avail' ael' ap bel' bp T U where
    r: "block_ext_overlap verify d1 d2 avail ael a bel b = Inr (avail', ael', ap, bel', bp)"
     "extends avail avail' (covered avail \<union> (ext_range a \<inter> ext_range b))"
     "trimmed ael a (ext_range b) ael' ap T" "trimmed bel b (ext_range a) bel' bp U" "card T + card U \<le> 2"
     "card T + card U = 2 \<Longrightarrow> (\<exists>t. ap = Some t \<and> t \<in> T \<and> e_off t + e_size t \<le> e_off b) \<or> (\<exists>u. bp = Some u \<and> u \<in> U \<and> e_off u + e_size u \<le> e_off a)"
    unfolding reconciled_def by blast
  have cov: "covered ael' = covered ael - (ext_range a \<inter> ext_range b)" "covered bel' = covered bel - (ext_range a \<inter> ext_range b)"
    using trimmed_covered [OF wf(2) ab(1) r(3)] trimmed_covered [OF wf(3) ab(2) r(4)] by (auto simp: Int_commute)
  have "extends ael ael' (covered ael - (ext_range a \<inter> ext_range b))" "extends bel bel' (covered bel - (ext_range a \<inter> ext_range b))"
    using r(3,4) cov by (auto simp: extends_def trimmed_def)
  moreover have "walk_pos ael' ap bel'" "walk_pos bel' bp ael'"
    using walk_trim(1) [OF wf(2) ab(1) r(3) pos(1)] walk_trim(1) [OF wf(3) ab(2) r(4) pos(2)] cov by auto
  moreover have "walk_left ael' ap bel' bp < walk_left ael (Some a) bel (Some b)"
    using reconciled_left [OF wf(2,3) ab r(3-6) pos ov] .
  ultimately show ?thesis using r(1,2) sub by blast
qed

lemma walk_done:
  assumes "walk_pos ael ap bel" "ap = None" shows "covered ael \<inter> covered bel = {}"
  using assms by (auto simp: walk_pos_def rest_def covered_exts)

definition separated ::
  "wt_extlist \<Rightarrow> wt_extlist \<Rightarrow> wt_extlist \<Rightarrow> (wt_extlist \<times> wt_extlist \<times> wt_extlist) result option \<Rightarrow> bool" where
  "separated avail ael bel r \<longleftrightarrow> (\<exists>avail' ael' bel'. r = Some (Inr (avail', ael', bel')) \<and>
    extends avail avail' (covered avail \<union> (covered ael \<inter> covered bel)) \<and>
    extends ael ael' (covered ael - covered bel) \<and> extends bel bel' (covered bel - covered ael))"

lemma separated_done:
  assumes "wf_el avail" "wf_el ael" "wf_el bel" "covered ael \<inter> covered bel = {}"
  shows "separated avail ael bel (Some (Inr (avail, ael, bel)))"
proof -
  have "covered ael - covered bel = covered ael" "covered bel - covered ael = covered bel" using assms(4) by blast+
  with assms show ?thesis by (simp add: separated_def extends_def)
qed

lemma separated_step:
  assumes "R \<subseteq> covered ael \<inter> covered bel" "extends avail avail' (covered avail \<union> R)"
    "extends ael ael' (covered ael - R)" "extends bel bel' (covered bel - R)" "separated avail' ael' bel' r"
  shows "separated avail ael bel r"
proof -
  let ?A = "covered ael" and ?B = "covered bel" and ?V = "covered avail"
  have "(?V \<union> R) \<union> ((?A - R) \<inter> (?B - R)) = ?V \<union> (?A \<inter> ?B)" "(?A - R) - (?B - R) = ?A - ?B" "(?B - R) - (?A - R) = ?B - ?A"
    using assms(1) by blast+
  with assms(2-5) show ?thesis unfolding separated_def extends_def by (metis (no_types, lifting))
qed

abbreviation valid_depths :: "(nat \<Rightarrow> nat \<times> nat) \<Rightarrow> bool" where
  "valid_depths dp \<equiv> \<forall>n. 0 < fst (dp n) \<and> fst (dp n) \<le> WT_SKIP_MAXDEPTH \<and> 0 < snd (dp n) \<and> snd (dp n) \<le> WT_SKIP_MAXDEPTH"

lemma overlapping_le: "overlapping p q \<le> 1"
  by (auto simp: overlapping_def split: option.splits)

lemma overlap_loop_spec:
  assumes "wf_el avail" "wf_el ael" "wf_el bel" "valid_depths dp"
    "walk_pos ael ap bel" "walk_pos bel bp ael" "covered avail \<inter> (covered ael \<inter> covered bel) = {}" "walk_left ael ap bel bp \<le> n"
  shows "separated avail ael bel (extlist_overlap_loop verify dp n (avail, ael, ap, bel, bp))"
  using assms
proof (induction n arbitrary: avail ael ap bel bp)
  case 0
  have "ap = None \<or> bp = None"
    using 0 rest_self [of "the ap" ael] by (cases ap; cases bp) (auto simp: walk_pos_def)
  then show ?case
    using separated_done [OF "0.prems"(1-3)] walk_done [OF "0.prems"(5)] walk_done [OF "0.prems"(6)]
    by (cases ap; cases bp) (auto simp: Int_commute)
next
  case (Suc n)
  note prems = Suc.prems
  consider "ap = None" | a where "ap = Some a" "bp = None" | a b where "ap = Some a" "bp = Some b" by (cases ap; cases bp) auto
  then show ?case
  proof cases
    case 3
    note pos = prems(5,6) [unfolded 3] and left = prems(8) [unfolded 3]
    consider "e_off a + e_size a \<le> e_off b" | "\<not> e_off a + e_size a \<le> e_off b" "e_off b + e_size b \<le> e_off a"
      | "\<not> e_off a + e_size a \<le> e_off b" "\<not> e_off b + e_size b \<le> e_off a" by blast
    then show ?thesis
    proof cases
      case 1
      have "walk_left ael (ext_next ael a) bel (Some b) \<le> n"
        using walk_advance(2) [OF prems(2) pos 1] left overlapping_le [of "ext_next ael a" "Some b"] by simp
      then show ?thesis
        using 1 3 Suc.IH [OF prems(1-4) walk_advance(1) [OF prems(2) pos 1] pos(2) prems(7)] by simp
    next
      case 2
      have "walk_left ael (Some a) bel (ext_next bel b) \<le> n"
        using walk_advance(2) [OF prems(3) pos(2,1) 2(2)] left overlapping_le [of "Some a" "ext_next bel b"] by simp
      then show ?thesis
        using 2 3 Suc.IH [OF prems(1-4) pos(1) walk_advance(1) [OF prems(3) pos(2,1) 2(2)] prems(7)] by simp
    next
      case o: 3
      have dp: "0 < fst (dp n)" "fst (dp n) \<le> WT_SKIP_MAXDEPTH" "0 < snd (dp n)" "snd (dp n) \<le> WT_SKIP_MAXDEPTH" using prems(4) by auto
      have "overlapping (Some a) (Some b) = 1" using o by (simp add: overlapping_def)
      from reconciled_walk [OF prems(1-3) dp pos this prems(7), of verify] obtain avail' ael' ap' bel' bp' R where
        r: "block_ext_overlap verify (fst (dp n)) (snd (dp n)) avail ael a bel b = Inr (avail', ael', ap', bel', bp')"
        "R \<subseteq> covered ael \<inter> covered bel" "extends avail avail' (covered avail \<union> R)" "extends ael ael' (covered ael - R)"
        "extends bel bel' (covered bel - R)" "walk_pos ael' ap' bel'" "walk_pos bel' bp' ael'"
        "walk_left ael' ap' bel' bp' < walk_left ael (Some a) bel (Some b)" by blast
      have w: "wf_el avail'" "wf_el ael'" "wf_el bel'" using r(3-5) by (auto simp: extends_def)
      have "covered avail' \<inter> (covered ael' \<inter> covered bel') = {}"
        using r(3-5) prems(7) unfolding extends_def by auto
      moreover have "walk_left ael' ap' bel' bp' \<le> n" using r(8) left by linarith
      ultimately have "separated avail' ael' bel' (extlist_overlap_loop verify dp n (avail', ael', ap', bel', bp'))"
        by (rule Suc.IH [OF w prems(4) r(6,7)])
      from separated_step [OF r(2-5) this] show ?thesis using o 3 r(1) by simp
    qed
  qed (use separated_done [OF prems(1-3)] walk_done [OF prems(5)] walk_done [OF prems(6)] in \<open>auto simp: Int_commute\<close>)
qed

lemma walk_start:
  assumes "wf_el el" shows "walk_pos el (case el_off el of [] \<Rightarrow> None | e # _ \<Rightarrow> Some e) other"
proof -
  have "ascending e_off (el_off el)" using assms wf_exts_ascending by (simp add: wf_el_def)
  from ascending_hd [OF this] show ?thesis by (auto simp: walk_pos_def rest_def split: list.splits)
qed

lemma rest_le: "card (rest el p) \<le> length (el_off el)"
  by (cases p) (auto simp: rest_def intro: order.trans [OF card_mono card_length])

text \<open>The whole walk ends after a number of steps linear in the number of extents.\<close>

lemma extlist_overlap_spec:
  assumes "wf_el cavail" "wf_el alloc" "wf_el discard" "valid_depths dp"
    "covered cavail \<inter> (covered alloc \<inter> covered discard) = {}"
    "2 * (length (el_off alloc) + length (el_off discard)) + 1 \<le> n"
  shows "separated cavail alloc discard (wt_block_extlist_overlap verify dp n cavail alloc discard)"
proof -
  have "walk_left alloc p discard q \<le> n" for p q
    using rest_le [of alloc p] rest_le [of discard q] overlapping_le [of p q] assms(6) by simp
  then show ?thesis
    using overlap_loop_spec [OF assms(1-4) walk_start [OF assms(2)] walk_start [OF assms(3)] assms(5)]
    by (simp add: wt_block_extlist_overlap_def)
qed

subsection \<open>Properties\<close>

text \<open>
  C6: Reconciling a checkpoint's allocated and discarded lists. The walk over both lists ends after at most
  \<open>2 * (m + n) + 1\<close> iterations for lists of \<open>m\<close> and \<open>n\<close> extents, without an error; the bytes on both lists
  have moved to the list of what the checkpoint makes available, each list keeps exactly the bytes the
  other did not have, and all three lists are well-formed.
\<close>

theorem extlist_overlap_correct:
  assumes "wf_el cavail" "wf_el alloc" "wf_el discard" "valid_depths dp"
    "covered cavail \<inter> (covered alloc \<inter> covered discard) = {}"
    "2 * (length (el_off alloc) + length (el_off discard)) + 1 \<le> n"
  shows "\<exists>cavail' alloc' discard'. wt_block_extlist_overlap verify dp n cavail alloc discard = Some (Inr (cavail', alloc', discard')) \<and>
    extends cavail cavail' (covered cavail \<union> (covered alloc \<inter> covered discard)) \<and>
    extends alloc alloc' (covered alloc - covered discard) \<and> extends discard discard' (covered discard - covered alloc)"
  using extlist_overlap_spec [OF assms, of verify] by (simp add: separated_def)

definition example_discard :: wt_extlist where
  "example_discard = block_off_insert 1 (wt_block_extlist_init False) 14336 1024"

theorem extlist_overlap_correct_witness:
  "\<exists>cavail' alloc' discard'. wt_block_extlist_overlap False (\<lambda>_. (1, 1)) 7 (wt_block_extlist_init True) example_list example_discard =
      Some (Inr (cavail', alloc', discard')) \<and>
    extends (wt_block_extlist_init True) cavail' (covered (wt_block_extlist_init True) \<union> (covered example_list \<inter> covered example_discard)) \<and>
    extends example_list alloc' (covered example_list - covered example_discard) \<and>
    extends example_discard discard' (covered example_discard - covered example_list)"
proof (rule extlist_overlap_correct)
  show "wf_el (wt_block_extlist_init True)" "wf_el example_list" "wf_el example_discard"
    "2 * (length (el_off example_list) + length (el_off example_discard)) + 1 \<le> (7 :: nat)" by code_simp+
  show "covered (wt_block_extlist_init True) \<inter> (covered example_list \<inter> covered example_discard) = {}"
    by (simp add: covered_def wt_block_extlist_init_def)
qed simp

text \<open>
  C22: Merging one extent list into another. Disjoint lists merge without an error into a list that covers the
  union, provided the lists were not exchanged first or the target's cached last extent is unset.
\<close>

theorem extlist_merge_correct:
  assumes "wf_el a" "wf_el b" "\<forall>e. valid_depth (dp e)" "covered a \<inter> covered b = {}"
    "el_last b = None \<or> el_entries a \<le> el_entries b \<or> el_track_size a \<noteq> el_track_size b"
  shows "\<exists>a' b'. wt_block_extlist_merge verify dp a b = Inr (a', b') \<and> extends b b' (covered a \<union> covered b)"
  using assms by (intro extlist_merge_spec) auto

theorem extlist_merge_correct_witness:
  "\<exists>a' b'. wt_block_extlist_merge False (\<lambda>_. 1) (block_off_insert 1 (wt_block_extlist_init False) 8192 1024) example_list = Inr (a', b') \<and>
     extends example_list b' (covered (block_off_insert 1 (wt_block_extlist_init False) 8192 1024) \<union> covered example_list)"
proof (rule extlist_merge_correct)
  let ?a = "block_off_insert 1 (wt_block_extlist_init False) 8192 1024"
  show "wf_el ?a" "wf_el example_list"
    "el_last example_list = None \<or> el_entries ?a \<le> el_entries example_list \<or> el_track_size ?a \<noteq> el_track_size example_list"
    by code_simp+
  have "ranges (el_off ?a) = [(8192, 1024)]" by code_simp
  then have "covered ?a = {8192 ..< 9216}" by (auto simp: covered_def ext_range_def)
  then show "covered ?a \<inter> covered example_list = {}" by (auto simp: example_list_covered)
qed simp

text \<open>
  The proviso is needed: when the lists are exchanged, the cached last extent of the target still belongs to
  the list that was merged into it. An append to the result then follows that pointer, here to an
  extent that is not on the list.
\<close>

lemma extlist_merge_stale_last:
  "case wt_block_extlist_merge False (\<lambda>_. 1) example_list (block_off_insert 1 (wt_block_extlist_init False) 8192 1024) of
     Inl e \<Rightarrow> False
   | Inr (a', b') \<Rightarrow> el_last b' = Some 8192 \<and> ranges (el_off b') = [(4096, 5120), (12288, 8192)] \<and>
       block_append 1 b' 20480 4096 = Inl OOB_READ"
  by code_simp

end
