(* ===== verification/Extlist_Disk.thy ===== *)
theory Extlist_Disk
  imports Extlist_Ops
begin

text \<open>
  How an extent list is stored, \<^verbatim>\<open>__wt_block_extlist_write\<close> and \<^verbatim>\<open>__wt_block_extlist_read\<close>: the contents of the
  page behind its header. The page's allocation, its checksum and the I/O are left to the callers.
\<close>

definition WT_BLOCK_EXTLIST_MAGIC :: i64 where "WT_BLOCK_EXTLIST_MAGIC = 71002"
definition WT_BLOCK_EXTLIST_VERSION_CKPT :: i64 where "WT_BLOCK_EXTLIST_VERSION_CKPT = 1"

fun write_exts :: "wt_ext list \<Rightarrow> bytes result" where
  "write_exts [] = Inr []"
| "write_exts (ext # es) =
     WT_RET (wt_extlist_write_pair (word_of_int (e_off ext)) (word_of_int (e_size ext))) (\<lambda>p.
     WT_RET (write_exts es) (\<lambda>ps. Inr (p @ ps)))"

text \<open>\<open>None\<close> is a list with nothing to write, which is recorded as having no address.\<close>

definition wt_block_extlist_write :: "bool \<Rightarrow> wt_extlist \<Rightarrow> wt_extlist option \<Rightarrow> bytes option result" where
  "wt_block_extlist_write final_ckpt el additional =
     (let entries = el_entries el + (case additional of None \<Rightarrow> 0 | Some a \<Rightarrow> el_entries a)
      in if entries = 0 \<and> \<not> final_ckpt then Inr None
         else
          WT_RET (wt_extlist_write_pair WT_BLOCK_EXTLIST_MAGIC 0) (\<lambda>b1.
          WT_RET (write_exts (el_off el)) (\<lambda>b2.
          WT_RET (case additional of None \<Rightarrow> Inr [] | Some a \<Rightarrow> write_exts (el_off a)) (\<lambda>b3.
          WT_RET (wt_extlist_write_pair 0 (if final_ckpt then WT_BLOCK_EXTLIST_VERSION_CKPT else 0)) (\<lambda>b4.
            Inr (Some (b1 @ b2 @ b3 @ b4)))))))"

lemma get_bytes_length: "get_bytes n x bs = Inr (y, r) \<Longrightarrow> length r \<le> length bs"
  by (induction n x bs rule: get_bytes.induct) auto

lemma vunpack_uint_shorter: "wt_vunpack_uint k p = Inr (x, r) \<Longrightarrow> length r < length p"
  by (cases p) (auto simp: WT_SIZE_CHECK_UNPACK_def Let_def less_Suc_eq_le dest!: get_bytes_length
      split: list.splits if_splits)

lemma read_pair_shorter: "wt_extlist_read_pair p = Inr (x, r) \<Longrightarrow> length r < length p"
  by (auto simp: wt_extlist_read_pair_def dest!: vunpack_uint_shorter)

function extlist_read_loop ::
  "bool \<Rightarrow> int \<Rightarrow> int \<Rightarrow> (int \<Rightarrow> nat) \<Rightarrow> wt_extlist \<Rightarrow> bytes \<Rightarrow> wt_extlist result" where
  "extlist_read_loop verify asize ckpt_size dp el p =
     (case wt_extlist_read_pair p of
        Inl e \<Rightarrow> Inl e
      | Inr ((woff, wsize), p') \<Rightarrow>
          (let off = sint woff; sz = sint wsize
           in if off = 0 then Inr el
              else if off < asize \<or> off mod asize \<noteq> 0 \<or> sz mod asize \<noteq> 0 \<or> off + sz > ckpt_size
              then WT_BLOCK_RET verify WT_ERROR
              else case (if el_track_size el then block_merge verify (dp off) el off sz
                         else block_append (dp off) el off sz) of
                     Inl e \<Rightarrow> Inl e
                   | Inr el' \<Rightarrow> extlist_read_loop verify asize ckpt_size dp el' p'))"
  by pat_completeness auto
termination
  by (relation "measure (\<lambda>(v, a, c, d, el, p). length p)") (auto dest: read_pair_shorter)

declare extlist_read_loop.simps [simp del]

definition wt_block_extlist_read ::
  "bool \<Rightarrow> int \<Rightarrow> int \<Rightarrow> (int \<Rightarrow> nat) \<Rightarrow> wt_extlist \<Rightarrow> bytes result \<Rightarrow> wt_extlist result" where
  "wt_block_extlist_read verify asize ckpt_size dp el page =
     (if addr_offset (el_addr el) = 0 then Inr el
      else WT_RET page (\<lambda>p.
           WT_RET (wt_extlist_read_pair p) (\<lambda>((off, sz), p').
             if off \<noteq> WT_BLOCK_EXTLIST_MAGIC \<or> sz \<noteq> 0 then WT_BLOCK_RET verify WT_ERROR
             else extlist_read_loop verify asize ckpt_size dp el p')))"

text \<open>The extents a checkpoint's list may hold.\<close>

definition in_file :: "int \<Rightarrow> int \<Rightarrow> wt_ext \<Rightarrow> bool" where
  "in_file asize ckpt_size e \<longleftrightarrow> asize \<le> e_off e \<and> asize dvd e_off e \<and> asize dvd e_size e \<and> 0 < e_size e \<and>
     e_off e + e_size e \<le> ckpt_size"

lemma sint_small: "0 \<le> i \<Longrightarrow> i < 2 ^ 63 \<Longrightarrow> sint (word_of_int i :: i64) = i"
  by transfer (simp add: signed_take_bit_int_eq_self signed_take_bit_take_bit)

lemma read_step:
  assumes e: "in_file asize ckpt_size e" and k: "0 < asize" "ckpt_size \<le> INT64_MAX"
    and p: "wt_extlist_write_pair (word_of_int (e_off e)) (word_of_int (e_size e)) = Inr bs"
    and r: "(if el_track_size el then block_merge verify (dp (e_off e)) el (e_off e) (e_size e)
             else block_append (dp (e_off e)) el (e_off e) (e_size e)) = Inr el'"
  shows "extlist_read_loop verify asize ckpt_size dp el (bs @ rest) = extlist_read_loop verify asize ckpt_size dp el' rest"
proof -
  have s: "sint (word_of_int (e_off e) :: i64) = e_off e" "sint (word_of_int (e_size e) :: i64) = e_size e"
    using e k by (auto simp: in_file_def INT64_MAX_def intro!: sint_small)
  have "wt_extlist_read_pair (bs @ rest) = Inr ((word_of_int (e_off e), word_of_int (e_size e)), rest)"
    using extpair.unpack_pack [of "(word_of_int (e_off e), word_of_int (e_size e))" bs rest] p by simp
  then show ?thesis
    using e k r by (subst extlist_read_loop.simps) (auto simp: in_file_def s Let_def dvd_eq_mod_eq_0)
qed

lemma read_end:
  assumes "wt_extlist_write_pair 0 v = Inr bs"
  shows "extlist_read_loop verify asize ckpt_size dp el (bs @ rest) = Inr el"
  using extpair.unpack_pack [of "(0, v)" bs rest] assms by (subst extlist_read_loop.simps) simp

definition readable :: "wt_extlist \<Rightarrow> wt_ext list \<Rightarrow> bool" where
  "readable el xs \<longleftrightarrow> (\<forall>x \<in> set xs. covered el \<inter> ext_range x = {} \<and> (\<not> el_track_size el \<longrightarrow> covered el \<subseteq> {..< e_off x})) \<and>
     sorted_wrt (\<lambda>a b. ext_range a \<inter> ext_range b = {} \<and> (\<not> el_track_size el \<longrightarrow> e_off a + e_size a \<le> e_off b)) xs"

lemma covered_below: "wf_el el \<Longrightarrow> covered el \<subseteq> {..< k} \<Longrightarrow> \<forall>e \<in> exts el. e_off e + e_size e \<le> k"
proof
  fix e assume a: "wf_el el" "covered el \<subseteq> {..< k}" "e \<in> exts el"
  then have "e_off e + e_size e - 1 \<in> covered el"
    using wf_el_exts(1) [OF a(1,3)] by (auto simp: covered_exts ext_range_def intro!: bexI [of _ e])
  with a(2) show "e_off e + e_size e \<le> k" by auto
qed

lemma read_add:
  assumes wf: "wf_el el" and x: "0 < e_size x" and dp: "0 < d" "d \<le> WT_SKIP_MAXDEPTH" and ok: "readable el (x # xs)"
  shows "\<exists>el'. (if el_track_size el then block_merge verify d el (e_off x) (e_size x) else block_append d el (e_off x) (e_size x)) = Inr el' \<and>
    extends el el' (covered el \<union> ext_range x) \<and> readable el' xs"
proof -
  have "covered el \<inter> {e_off x ..< e_off x + e_size x} = {}" "\<not> el_track_size el \<longrightarrow> covered el \<subseteq> {..< e_off x}"
    using ok by (auto simp: readable_def ext_range_def)
  then obtain el' where el': "(if el_track_size el then block_merge verify d el (e_off x) (e_size x) else block_append d el (e_off x) (e_size x)) = Inr el'"
    "extends el el' (covered el \<union> ext_range x)"
    using merge_spec [OF wf x dp, of "e_off x" verify] append_spec [OF wf _ x dp covered_below [OF wf], of "e_off x"]
    by (cases "el_track_size el") (auto simp: ext_range_def)
  moreover have "readable el' xs"
    using ok el'(2) by (auto simp: readable_def extends_def Int_Un_distrib2 ext_range_def)
  ultimately show ?thesis by blast
qed

lemma read_exts:
  assumes k: "0 < asize" "ckpt_size \<le> INT64_MAX" and dp: "\<forall>k. 0 < dp k \<and> dp k \<le> WT_SKIP_MAXDEPTH"
    and "wf_el el" "readable el xs" "list_all (in_file asize ckpt_size) xs" "write_exts xs = Inr bs"
  shows "\<exists>el'. extends el el' (covered el \<union> (\<Union>x \<in> set xs. ext_range x)) \<and>
    (\<forall>rest. extlist_read_loop verify asize ckpt_size dp el (bs @ rest) = extlist_read_loop verify asize ckpt_size dp el' rest)"
  using assms(4-)
proof (induction xs arbitrary: el bs)
  case Nil
  then show ?case by (auto simp: extends_def intro!: exI [of _ el])
next
  case (Cons x xs)
  from Cons.prems(4) obtain p ps where b: "wt_extlist_write_pair (word_of_int (e_off x)) (word_of_int (e_size x)) = Inr p"
    "write_exts xs = Inr ps" "bs = p @ ps" by auto
  have x: "in_file asize ckpt_size x" "0 < e_size x" using Cons.prems(3) by (auto simp: in_file_def)
  obtain el1 where e1: "(if el_track_size el then block_merge verify (dp (e_off x)) el (e_off x) (e_size x) else block_append (dp (e_off x)) el (e_off x) (e_size x)) = Inr el1"
    "extends el el1 (covered el \<union> ext_range x)" "readable el1 xs"
    using read_add [OF Cons.prems(1) x(2) _ _ Cons.prems(2), of "dp (e_off x)" verify] dp by auto
  have "wf_el el1" "list_all (in_file asize ckpt_size) xs" using e1(2) Cons.prems(3) by (auto simp: extends_def)
  from Cons.IH [OF this(1) e1(3) this(2) b(2)] obtain el2 where
    e2: "extends el1 el2 (covered el1 \<union> (\<Union>x \<in> set xs. ext_range x))"
    "\<forall>rest. extlist_read_loop verify asize ckpt_size dp el1 (ps @ rest) = extlist_read_loop verify asize ckpt_size dp el2 rest" by blast
  have "extends el el2 (covered el \<union> (\<Union>x \<in> set (x # xs). ext_range x))"
    using e1(2) e2(1) by (simp add: extends_def Un_assoc)
  moreover have "extlist_read_loop verify asize ckpt_size dp el (bs @ rest) = extlist_read_loop verify asize ckpt_size dp el2 rest" for rest
    using read_step [where dp = dp, OF x(1) k b(1) e1(1)] e2(2) b(3) by simp
  ultimately show ?case by blast
qed

lemma write_exts_total: "\<exists>bs. write_exts xs = Inr bs"
proof (induction xs)
  case (Cons x xs)
  then show ?case using extpair.pack_total [of "(word_of_int (e_off x), word_of_int (e_size x))"] by auto
qed simp

lemma write_exts_append: "write_exts (xs @ ys) = WT_RET (write_exts xs) (\<lambda>p. WT_RET (write_exts ys) (\<lambda>q. Inr (p @ q)))"
  by (induction xs) (auto simp: WT_RET_def split: sum.splits)

lemma wf_el_readable:
  assumes "wf_el a" "wf_el b" "covered a \<inter> covered b = {}" "el_track_size el \<or> exts b = {}" "el_off el = []"
  shows "readable el (el_off a @ el_off b)"
proof -
  have "sorted_wrt (\<lambda>a b. ext_range a \<inter> ext_range b = {} \<and> (\<not> el_track_size el \<longrightarrow> e_off a + e_size a \<le> e_off b)) (el_off x)" if "wf_el x" for x
    using that by (auto simp: wf_el_def wf_exts_def ext_range_def elim!: sorted_wrt_mono_rel [rotated])
  moreover have "\<forall>x \<in> exts a. \<forall>y \<in> exts b. ext_range x \<inter> ext_range y = {}" using assms(3) by (auto simp: covered_exts)
  ultimately show ?thesis using assms by (auto simp: readable_def sorted_wrt_append covered_def)
qed

lemma extlist_roundtrip_spec:
  assumes w: "wf_el a" "wf_el b" "covered a \<inter> covered b = {}" and el: "wf_el el" "el_off el = []" "el_track_size el \<or> exts b = {}"
    and k: "0 < asize" "ckpt_size \<le> INT64_MAX" and dp: "\<forall>k. 0 < dp k \<and> dp k \<le> WT_SKIP_MAXDEPTH"
    and f: "\<forall>e \<in> exts a \<union> exts b. in_file asize ckpt_size e" and addr: "addr_offset (el_addr el) \<noteq> 0"
    and wr: "wt_block_extlist_write final a (Some b) = Inr (Some page)"
  shows "\<exists>el'. wt_block_extlist_read verify asize ckpt_size dp el (Inr (page @ pad)) = Inr el' \<and> extends el el' (covered a \<union> covered b)"
proof -
  let ?v = "if final then WT_BLOCK_EXTLIST_VERSION_CKPT else 0"
  obtain b1 b2 b3 b4 where b: "wt_extlist_write_pair WT_BLOCK_EXTLIST_MAGIC 0 = Inr b1" "write_exts (el_off a) = Inr b2"
    "write_exts (el_off b) = Inr b3" "wt_extlist_write_pair 0 ?v = Inr b4" "page = b1 @ b2 @ b3 @ b4"
    using wr by (auto simp: wt_block_extlist_write_def Let_def split: if_splits)
  have p: "write_exts (el_off a @ el_off b) = Inr (b2 @ b3)" using b by (simp add: write_exts_append)
  obtain el' where r: "extends el el' (covered el \<union> (\<Union>x \<in> set (el_off a @ el_off b). ext_range x))"
    "\<forall>rest. extlist_read_loop verify asize ckpt_size dp el ((b2 @ b3) @ rest) = extlist_read_loop verify asize ckpt_size dp el' rest"
    using read_exts [OF k dp el(1) wf_el_readable [OF w el(3,2)] _ p, of verify] f by (auto simp: list_all_iff)
  have "covered el \<union> (\<Union>x \<in> set (el_off a @ el_off b). ext_range x) = covered a \<union> covered b" using el(2) by (auto simp: covered_def)
  moreover have "wt_block_extlist_read verify asize ckpt_size dp el (Inr (page @ pad)) = Inr el'"
    using addr b extpair.unpack_pack [of "(WT_BLOCK_EXTLIST_MAGIC, 0)" b1] r(2) read_end [OF b(4)]
    by (simp add: wt_block_extlist_read_def)
  ultimately show ?thesis using r(1) by metis
qed

subsection \<open>Properties\<close>

text \<open>
  C10: Extent lists survive on disk. Reading the page written for a list, with the second list checkpoints add
  to the available extents, into an empty list gives a well-formed list that covers exactly the bytes
  of both. The extents have to be aligned and inside the checkpoint's file, the checks of the reader.
\<close>

theorem extlist_disk_roundtrip:
  assumes "wf_el a" "wf_el b" "covered a \<inter> covered b = {}" "wf_el el" "el_off el = []" "el_track_size el \<or> exts b = {}"
    "0 < asize" "ckpt_size \<le> INT64_MAX" "\<forall>k. valid_depth (dp k)"
    "\<forall>e \<in> exts a \<union> exts b. in_file asize ckpt_size e" "addr_offset (el_addr el) \<noteq> 0"
    "wt_block_extlist_write final a (Some b) = Inr (Some page)"
  shows "\<exists>el'. wt_block_extlist_read verify asize ckpt_size dp el (Inr (page @ pad)) = Inr el' \<and>
    extends el el' (covered a \<union> covered b)"
  using assms by (intro extlist_roundtrip_spec) auto

definition example_read :: wt_extlist where
  "example_read = (wt_block_extlist_init True)\<lparr>el_addr := empty_addr\<lparr>addr_offset := 4096\<rparr>\<rparr>"

definition example_page :: bytes where
  "example_page = (case wt_block_extlist_write True example_list (Some (wt_block_extlist_init False)) of
     Inr (Some page) \<Rightarrow> page | _ \<Rightarrow> [])"

theorem extlist_disk_roundtrip_witness:
  "\<exists>el'. wt_block_extlist_read False 4096 20480 (\<lambda>_. 1) example_read (Inr (example_page @ [0, 0])) = Inr el' \<and>
    extends example_read el' (covered example_list \<union> covered (wt_block_extlist_init False))"
proof (rule extlist_disk_roundtrip)
  show "wf_el example_list" "wf_el (wt_block_extlist_init False)" "wf_el example_read" "el_off example_read = []"
    "el_track_size example_read \<or> exts (wt_block_extlist_init False) = {}" "(20480 :: int) \<le> INT64_MAX"
    "addr_offset (el_addr example_read) \<noteq> 0"
    "\<forall>e \<in> exts example_list \<union> exts (wt_block_extlist_init False). in_file 4096 20480 e"
    "wt_block_extlist_write True example_list (Some (wt_block_extlist_init False)) = Inr (Some example_page)"
    by code_simp+
  show "covered example_list \<inter> covered (wt_block_extlist_init False) = {}" by (simp add: covered_def wt_block_extlist_init_def)
qed simp_all

end
