(* ===== verification/Extlist_Block.thy ===== *)
theory Extlist_Block
  imports Extlist_Ops
begin

text \<open>
  Allocating and freeing file space, \<^verbatim>\<open>__wt_block_alloc\<close> and \<^verbatim>\<open>__wt_block_off_free\<close>, on the lists of the live
  checkpoint: the choice of the extent, the movement of bytes between the allocated, available and
  discarded lists and the end of the file, and the invariant of the file over sequences of both.
\<close>

text \<open>
  The bytes of a file: the allocated, available and discarded lists cover disjoint parts of what is behind
  the description block and in front of the end of the file. The available list is the one kept by size.
\<close>

definition regions :: "int set \<Rightarrow> int set \<Rightarrow> int set \<Rightarrow> int set \<Rightarrow> bool" where
  "regions U A V D \<longleftrightarrow> A \<union> V \<union> D \<subseteq> U \<and> A \<inter> V = {} \<and> A \<inter> D = {} \<and> V \<inter> D = {}"

definition wf_block :: "wt_block_live \<Rightarrow> bool" where
  "wf_block b \<longleftrightarrow>
     wf_el (live_alloc b) \<and> wf_el (live_avail b) \<and> wf_el (live_discard b) \<and>
     \<not> el_track_size (live_alloc b) \<and> el_track_size (live_avail b) \<and>
     0 < uint (allocsize b) \<and> uint (allocsize b) \<le> blk_size b \<and>
     regions {uint (allocsize b) ..< blk_size b}
       (covered (live_alloc b)) (covered (live_avail b)) (covered (live_discard b))"

lemma regions_grow:
  "regions {a ..< n} A V D \<Longrightarrow> a \<le> n \<Longrightarrow> 0 < k \<Longrightarrow> regions {a ..< n + k} (A \<union> {n ..< n + k}) V D"
  unfolding regions_def by (auto 0 3)

lemma regions_take: "regions U A V D \<Longrightarrow> R \<subseteq> V \<Longrightarrow> regions U (A \<union> R) (V - R) D"
  unfolding regions_def by blast



definition first_fit :: "wt_ext set \<Rightarrow> int \<Rightarrow> wt_ext \<Rightarrow> bool" where
  "first_fit E sz e \<longleftrightarrow> e \<in> E \<and> sz \<le> e_size e \<and> (\<forall>x \<in> E. sz \<le> e_size x \<longrightarrow> e_off e \<le> e_off x)"

definition best_fit :: "wt_ext set \<Rightarrow> int \<Rightarrow> wt_ext \<Rightarrow> bool" where
  "best_fit E sz e \<longleftrightarrow> e \<in> E \<and> sz \<le> e_size e \<and>
     (\<forall>x \<in> E. sz \<le> e_size x \<longrightarrow> e_size e < e_size x \<or> e_size e = e_size x \<and> e_off e \<le> e_off x)"

lemma first_filter_dropWhile:
  "(case dropWhile (\<lambda>x. \<not> P x) xs of [] \<Rightarrow> None | x # _ \<Rightarrow> Some x) = (case filter P xs of [] \<Rightarrow> None | x # _ \<Rightarrow> Some x)"
  by (induction xs) auto

lemma first_srch_spec:
  assumes "wf_el el"
  shows "(case block_first_srch (el_off el) sz of None \<Rightarrow> None | Some estack \<Rightarrow> first_at e_depth estack) =
    (case filter (\<lambda>e. sz \<le> e_size e) (el_off el) of [] \<Rightarrow> None | e # _ \<Rightarrow> Some e)"
proof -
  have w: "wf_exts (el_off el)" using assms by (simp add: wf_el_def)
  show ?thesis
  proof (cases "dropWhile (\<lambda>e. \<not> sz \<le> e_size e) (el_off el)")
    case Nil
    show ?thesis unfolding first_filter_dropWhile [symmetric] block_first_srch_def Nil by simp
  next
    case (Cons e es)
    then have "e \<in> exts el"
      using set_dropWhileD [of e "\<lambda>e. \<not> sz \<le> e_size e" "el_off el"] by simp
    then show ?thesis
      unfolding first_filter_dropWhile [symmetric] block_first_srch_def Cons by (simp add: ext_found(1) [OF w])
  qed
qed

lemma alloc_search_first:
  assumes "wf_el (live_avail b)" "blk_allocfirst b"
  shows "case alloc_search b sz of None \<Rightarrow> \<forall>e \<in> exts (live_avail b). e_size e < sz
    | Some e \<Rightarrow> first_fit (exts (live_avail b)) sz e"
proof -
  let ?f = "filter (\<lambda>e. sz \<le> e_size e) (el_off (live_avail b))"
  have w: "wf_exts (el_off (live_avail b))" using assms by (simp add: wf_el_def)
  have s: "alloc_search b sz = (case ?f of [] \<Rightarrow> None | e # _ \<Rightarrow> Some e)"
    using first_srch_spec [OF assms(1), of sz] assms(2) by (simp add: alloc_search_def)
  show ?thesis
  proof (cases ?f)
    case Nil
    then show ?thesis by (auto simp: s filter_empty_conv not_le)
  next
    case (Cons e es)
    have "e_off e \<le> e_off x" if "x \<in> exts (live_avail b)" "sz \<le> e_size x" for x
    proof -
      have "x \<in> set ?f" using that by simp
      from ascending_hd [OF sorted_wrt_filter [OF wf_exts_ascending [OF w]] this] show ?thesis unfolding Cons by simp
    qed
    moreover have "e \<in> set ?f" unfolding Cons by simp
    then have "e \<in> exts (live_avail b) \<and> sz \<le> e_size e" by simp
    ultimately show ?thesis using Cons by (auto simp: s first_fit_def)
  qed
qed

lemma alloc_search_best:
  assumes "wf_el (live_avail b)" "el_track_size (live_avail b)" "\<not> blk_allocfirst b"
  shows "case alloc_search b sz of None \<Rightarrow> \<forall>e \<in> exts (live_avail b). e_size e < sz
    | Some e \<Rightarrow> best_fit (exts (live_avail b)) sz e"
proof -
  let ?xs = "el_off (live_avail b)" and ?szs = "el_sz (live_avail b)"
  let ?f = "filter (\<lambda>s. \<not> s_size s < sz) ?szs"
  have w: "wf_exts ?xs" "wf_szs ?szs ?xs" "wf_sizes ?szs" using assms by (auto simp: wf_el_def wf_szs_def)
  have s: "alloc_search b sz = (case ?f of [] \<Rightarrow> None | s # _ \<Rightarrow> (case s_off s of [] \<Rightarrow> None | e # _ \<Rightarrow> Some e))"
    using assms(3) by (simp add: alloc_search_def size_srch_first [OF w(3)] split: list.splits)
  have bucket: "\<exists>s \<in> set ?szs. s_size s = e_size e" if "e \<in> set ?xs" for e
    using w(2) that by (force simp: wf_szs_def list_all_iff)
  show ?thesis
  proof (cases ?f)
    case Nil
    then show ?thesis using bucket by (fastforce simp: s filter_empty_conv)
  next
    case (Cons t ts)
    have "t \<in> set ?f" unfolding Cons by simp
    then have t: "t \<in> set ?szs" "sz \<le> s_size t" by auto
    have off: "s_off t = filter (\<lambda>e. e_size e = s_size t) ?xs" "s_off t \<noteq> []"
      using w(2) t(1) by (auto simp: wf_szs_def list_all_iff)
    obtain e es where e: "s_off t = e # es" using off(2) by (meson neq_Nil_conv)
    have "e \<in> set (filter (\<lambda>e. e_size e = s_size t) ?xs)" unfolding off(1) [symmetric] e by simp
    then have "e \<in> set ?xs" "e_size e = s_size t" by auto
    moreover have "s_size t \<le> s_size u" if "u \<in> set ?szs" "sz \<le> s_size u" for u
    proof -
      have "u \<in> set ?f" using that by simp
      from ascending_hd [OF sorted_wrt_filter [OF sz_skip.wf_ascending [OF w(3)]] this] show ?thesis unfolding Cons by simp
    qed
    moreover have "e_off e \<le> e_off x" if "x \<in> set ?xs" "e_size x = s_size t" for x
    proof -
      have "x \<in> set (s_off t)" using that off(1) by simp
      moreover have "ascending e_off (s_off t)" unfolding off(1) by (rule wf_exts_ascending [OF wf_exts_filter [OF w(1)]])
      ultimately have "e_off (hd (s_off t)) \<le> e_off x" by (intro ascending_hd)
      then show ?thesis unfolding e by simp
    qed
    ultimately show ?thesis
      using Cons e t(2) bucket by (auto simp: s best_fit_def) (metis order_less_le)+
  qed
qed


text \<open>An available extent for the request exists, or none is long enough; either way of choosing finds it.\<close>

lemma alloc_search_spec:
  assumes "wf_block b"
  shows "case alloc_search b sz of None \<Rightarrow> \<forall>e \<in> exts (live_avail b). e_size e < sz
    | Some e \<Rightarrow> e \<in> exts (live_avail b) \<and> sz \<le> e_size e"
proof -
  have w: "wf_el (live_avail b)" "el_track_size (live_avail b)" using assms by (auto simp: wf_block_def)
  show ?thesis
    using alloc_search_first [OF w(1), of sz] alloc_search_best [OF w, of sz]
    by (cases "blk_allocfirst b") (auto simp: first_fit_def best_fit_def split: option.splits)
qed

text \<open>Cutting the front of an extent off the available list.\<close>

lemma take_front_spec:
  assumes wf: "wf_el el" and e: "e \<in> exts el" and sz: "0 < sz" "sz \<le> e_size e"
  shows "\<exists>el1. block_off_remove verify el (e_off e) = Inr (el1, e) \<and>
    extends el (if e_size e > sz then block_ext_insert el1 (e\<lparr>e_off := e_off e + sz, e_size := e_size e - sz\<rparr>) else el1)
      (covered el - {e_off e ..< e_off e + sz})"
proof -
  obtain el1 where r: "block_off_remove verify el (e_off e) = Inr (el1, e)" "wf_el el1" "exts el1 = exts el - {e}"
      "el_track_size el1 = el_track_size el" "el_addr el1 = el_addr el" by (rule remove_spec [OF wf e])
  note size = wf_el_exts [OF wf e]
  have ap: "\<forall>x \<in> exts el1. apart e x" using size(4) r(3) by auto
  let ?rest = "\<Union> (ext_range ` (exts el - {e}))" and ?e = "e\<lparr>e_off := e_off e + sz, e_size := e_size e - sz\<rparr>"
  have cov: "covered el = ?rest \<union> ext_range e" using e by (auto simp: covered_exts)
  have dis: "?rest \<inter> ext_range e = {}" using ap r(3) by (force simp: ext_range_def apart_def)
  show ?thesis
  proof (cases "e_size e > sz")
    case True
    have "\<forall>x \<in> exts el1. apart ?e x" using ap sz by (auto simp: apart_def)
    moreover have "wf_ext ?e" using True size(2,3) by (simp add: wf_ext_def)
    ultimately have "extends el (block_ext_insert el1 ?e) (?rest \<union> {e_off e + sz ..< e_off e + e_size e})"
      using insert_spec [OF r(2), of ?e] r(3-5) by (auto simp: extends_def covered_exts ext_range_def)
    moreover have "?rest \<union> {e_off e + sz ..< e_off e + e_size e} = covered el - {e_off e ..< e_off e + sz}"
      using cov dis sz by (auto simp: ext_range_def)
    ultimately show ?thesis using r(1) True by simp
  next
    case False
    then have "?rest = covered el - {e_off e ..< e_off e + sz}" using cov dis sz by (auto simp: ext_range_def)
    then show ?thesis using False r by (auto simp: extends_def covered_exts)
  qed
qed

text \<open>
  What an allocation does to the lists: the bytes of the returned range move to the allocated list, out
  of the available list or from behind the end of the file.
\<close>

definition allocated :: "wt_block_live \<Rightarrow> wt_block_live \<Rightarrow> int \<Rightarrow> int \<Rightarrow> bool" where
  "allocated b b' off sz \<longleftrightarrow>
     covered (live_alloc b') = covered (live_alloc b) \<union> {off ..< off + sz} \<and>
     covered (live_avail b') = covered (live_avail b) - {off ..< off + sz} \<and>
     live_discard b' = live_discard b \<and> allocsize b' = allocsize b \<and>
     (if {off ..< off + sz} \<subseteq> covered (live_avail b) then blk_size b' = blk_size b
      else off = blk_size b \<and> blk_size b' = blk_size b + sz)"

lemma alloc_append_spec:
  assumes wf: "wf_block b" and sz: "0 < sz" and dp: "0 < dp" "dp \<le> WT_SKIP_MAXDEPTH"
    and room: "blk_size b + sz \<le> INT64_MAX"
  shows "\<exists>b'. alloc_append dp b sz = Inr (b', blk_size b) \<and> wf_block b' \<and> allocated b b' (blk_size b) sz"
proof -
  have w: "wf_el (live_alloc b)" "\<not> el_track_size (live_alloc b)" using wf by (auto simp: wf_block_def)
  have "\<forall>e \<in> exts (live_alloc b). e_off e + e_size e \<le> blk_size b"
  proof
    fix e assume e: "e \<in> exts (live_alloc b)"
    then have "e_off e + e_size e - 1 \<in> covered (live_alloc b)"
      using wf_el_exts(1) [OF w(1) e] by (auto simp: covered_exts ext_range_def intro!: bexI [of _ e])
    then show "e_off e + e_size e \<le> blk_size b" using wf by (auto simp: wf_block_def regions_def)
  qed
  from append_spec [OF w sz dp this] obtain el where el: "block_append dp (live_alloc b) (blk_size b) sz = Inr el"
    "extends (live_alloc b) el (covered (live_alloc b) \<union> {blk_size b ..< blk_size b + sz})" by blast
  have "alloc_append dp b sz = Inr (b\<lparr>blk_size := blk_size b + sz, live_alloc := el\<rparr>, blk_size b)"
    using wf room el(1) by (simp add: alloc_append_def block_extend_def wf_block_def)
  moreover have "{blk_size b ..< blk_size b + sz} \<inter> covered (live_avail b) = {}"
    "{blk_size b ..< blk_size b + sz} \<inter> covered (live_discard b) = {}"
    using wf by (auto simp: wf_block_def regions_def)
  moreover from this have "\<not> {blk_size b ..< blk_size b + sz} \<subseteq> covered (live_avail b)"
    using sz by (auto simp: Int_absorb2)
  ultimately show ?thesis
    using wf el(2) sz regions_grow [of "uint (allocsize b)" "blk_size b" _ _ _ sz]
    by (auto simp: allocated_def extends_def wf_block_def)
qed

lemma alloc_avail_spec:
  assumes wf: "wf_block b" and sz: "0 < sz" and dp: "0 < dp" "dp \<le> WT_SKIP_MAXDEPTH"
    and e: "e \<in> exts (live_avail b)" "sz \<le> e_size e"
  shows "\<exists>b'. WT_RET (block_off_remove (blk_verify b) (live_avail b) (e_off e)) (\<lambda>(avail, ext).
              let off = e_off ext;
                  avail = (if e_size ext > sz
                           then block_ext_insert avail (ext\<lparr>e_off := e_off ext + sz, e_size := e_size ext - sz\<rparr>)
                           else avail)
              in WT_RET (block_merge (blk_verify b) dp (live_alloc b) off sz) (\<lambda>alloc.
                   Inr (b\<lparr>live_avail := avail, live_alloc := alloc\<rparr>, off))) = Inr (b', e_off e) \<and>
     wf_block b' \<and> allocated b b' (e_off e) sz"
proof -
  have w: "wf_el (live_alloc b)" "wf_el (live_avail b)" using wf by (auto simp: wf_block_def)
  let ?R = "{e_off e ..< e_off e + sz}"
  have sub: "?R \<subseteq> covered (live_avail b)" using e by (force simp: covered_exts ext_range_def)
  then have dis: "covered (live_alloc b) \<inter> ?R = {}" using wf unfolding wf_block_def regions_def by blast
  obtain el1 avail where av: "block_off_remove (blk_verify b) (live_avail b) (e_off e) = Inr (el1, e)"
    "(if e_size e > sz then block_ext_insert el1 (e\<lparr>e_off := e_off e + sz, e_size := e_size e - sz\<rparr>) else el1) = avail"
    "extends (live_avail b) avail (covered (live_avail b) - ?R)"
    using take_front_spec [OF w(2) e(1) sz e(2)] by blast
  obtain el where al: "block_merge (blk_verify b) dp (live_alloc b) (e_off e) sz = Inr el"
    "extends (live_alloc b) el (covered (live_alloc b) \<union> ?R)"
    using merge_spec [OF w(1) sz dp dis] by blast
  let ?b = "b\<lparr>live_avail := avail, live_alloc := el\<rparr>"
  have "wf_block ?b"
    using wf av(3) al(2) regions_take [OF _ sub] by (simp add: extends_def wf_block_def)
  moreover have "allocated b ?b (e_off e) sz"
    using av(3) al(2) sub by (simp add: extends_def allocated_def)
  ultimately show ?thesis using av(1,2) al(1) by (simp add: Let_def)
qed

lemma alloc_append_result:
  assumes wf: "wf_block b" and sz: "0 < sz" and dp: "0 < dp" "dp \<le> WT_SKIP_MAXDEPTH"
  shows "case alloc_append dp b sz of Inl err \<Rightarrow> err = WT_ERROR \<and> INT64_MAX < blk_size b + sz
    | Inr (b', off) \<Rightarrow> wf_block b' \<and> allocated b b' off sz"
proof (cases "blk_size b + sz \<le> INT64_MAX")
  case True
  then show ?thesis using alloc_append_spec [OF wf sz dp True] by auto
next
  case False
  then show ?thesis using wf by (auto simp: alloc_append_def block_extend_def wf_block_def)
qed

lemma alloc_spec:
  assumes wf: "wf_block b" and sz: "0 < sz" and dp: "0 < dp" "dp \<le> WT_SKIP_MAXDEPTH"
  shows "case wt_block_alloc dp b sz of
      Inl err \<Rightarrow> err = EINVAL \<and> \<not> uint (allocsize b) dvd sz \<or> err = WT_ERROR \<and> INT64_MAX < blk_size b + sz
    | Inr (b', off) \<Rightarrow> wf_block b' \<and> allocated b b' off sz"
proof -
  consider "sz mod uint (allocsize b) \<noteq> 0" | "sz mod uint (allocsize b) = 0" "el_bytes (live_avail b) < sz \<or> alloc_search b sz = None"
    | e where "sz mod uint (allocsize b) = 0" "\<not> el_bytes (live_avail b) < sz" "alloc_search b sz = Some e"
    by (metis option.exhaust)
  then show ?thesis
  proof cases
    case 1
    then show ?thesis by (simp add: wt_block_alloc_def dvd_eq_mod_eq_0)
  next
    case 2
    then have "wt_block_alloc dp b sz = alloc_append dp b sz" by (auto simp: wt_block_alloc_def)
    then show ?thesis using alloc_append_result [OF wf sz dp] by (auto split: sum.splits)
  next
    case 3
    then have "e \<in> exts (live_avail b)" "sz \<le> e_size e" using alloc_search_spec [OF wf, of sz] by auto
    from alloc_avail_spec [OF wf sz dp this] show ?thesis using 3 unfolding wt_block_alloc_def by auto
  qed
qed




text \<open>The diagnostic match is exactly the overlap of the range with the list.\<close>

lemma match_spec:
  assumes wf: "wf_el el" and sz: "0 < sz"
  shows "block_off_match el off sz \<longleftrightarrow> covered el \<inter> {off ..< off + sz} \<noteq> {}"
proof -
  obtain before after where pair: "block_off_srch_pair el off = (before, after)" "neighbours el off before after"
    by (rule srch_pair_neighbours [OF wf])
  show ?thesis
  proof (cases "covered el \<inter> {off ..< off + sz} = {}")
    case True
    then show ?thesis
      using neighbours_abut [OF wf sz True pair(2)] by (auto simp: block_off_match_def pair(1) not_less split: option.splits)
  next
    case False
    then have "\<exists>e \<in> exts el. e_off e < off + sz \<and> off < e_off e + e_size e"
      by (force simp: covered_exts ext_range_def)
    then obtain e where e: "e \<in> exts el" "e_off e < off + sz" "off < e_off e + e_size e" by blast
    then have "e_off e < off \<and> before = Some e \<or> (\<exists>a. after = Some a \<and> e_off a \<le> e_off e)"
      using overlapping_neighbour [OF wf pair(2) e(1,3)] following_neighbour [OF pair(2) e(1)] by (metis not_less)
    then show ?thesis using False e by (auto simp: block_off_match_def pair(1))
  qed
qed

subsection \<open>Sequences of allocations and frees\<close>





subsection \<open>Properties\<close>

text \<open>
  C1: Allocation. In a well-formed file a request for a positive size fails only when the size is not a
  multiple of the allocation size (EINVAL) or the file would have to grow past its maximal size (WT_ERROR).
  Otherwise the returned range was available or is the new end of the file, it is added to the
  allocated list and taken from the available list and nothing else changes, so that no byte is ever
  handed out twice; the file stays well-formed.
\<close>

theorem block_alloc_correct:
  assumes "wf_block b" "0 < sz" "valid_depth dp"
  shows "case wt_block_alloc dp b sz of
      Inl err \<Rightarrow> err = EINVAL \<and> \<not> uint (allocsize b) dvd sz \<or> err = WT_ERROR \<and> INT64_MAX < blk_size b + sz
    | Inr (b', off) \<Rightarrow> wf_block b' \<and> allocated b b' off sz"
  using assms by (intro alloc_spec) auto

text \<open>A file with a description block, one free extent of three blocks and one of a single block.\<close>

definition example_block :: wt_block_live where
  "example_block = \<lparr>allocsize = 4096, has_objects = False, blk_objectid = 0, blk_size = 40960,
     blk_verify = False, blk_allocfirst = False, live_alloc = wt_block_extlist_init False,
     live_avail = block_off_insert 1 (block_off_insert 2 (wt_block_extlist_init True) 8192 12288) 32768 4096,
     live_discard = wt_block_extlist_init False, live_ckpt_avail = wt_block_extlist_init True\<rparr>"

lemma wf_el_init: "wf_el (wt_block_extlist_init track)" "exts (wt_block_extlist_init track) = {}"
  "el_track_size (wt_block_extlist_init track) = track"
  by (auto simp: wf_el_def wf_exts_def wf_szs_def wf_sizes_def wt_block_extlist_init_def)

lemma example_avail:
  "wf_el (live_avail example_block)" "el_track_size (live_avail example_block)"
  "exts (live_avail example_block) =
     {\<lparr>e_off = 8192, e_size = 12288, e_depth = 2\<rparr>, \<lparr>e_off = 32768, e_size = 4096, e_depth = 1\<rparr>}"
proof -
  let ?x = "\<lparr>e_off = 8192, e_size = 12288, e_depth = 2\<rparr>" and ?y = "\<lparr>e_off = 32768, e_size = 4096, e_depth = 1\<rparr>"
  note x = insert_spec [OF wf_el_init(1) [of True], of ?x]
  note y = insert_spec [of "block_ext_insert (wt_block_extlist_init True) ?x" ?y]
  show "wf_el (live_avail example_block)" "el_track_size (live_avail example_block)"
    "exts (live_avail example_block) = {?x, ?y}"
    using x y by (auto simp: example_block_def block_off_insert_def wf_el_init wf_ext_def apart_def)
qed

lemma example_block_wf: "wf_block example_block"
proof -
  have "covered (live_avail example_block) = {8192 ..< 20480} \<union> {32768 ..< 36864}"
    by (auto simp: covered_exts example_avail(3) ext_range_def)
  then show ?thesis
    using example_avail by (auto simp: wf_block_def regions_def example_block_def wf_el_init covered_exts)
qed

theorem block_alloc_correct_witness:
  "case wt_block_alloc 1 example_block 4096 of
      Inl err \<Rightarrow> err = EINVAL \<and> \<not> uint (allocsize example_block) dvd 4096 \<or> err = WT_ERROR \<and> INT64_MAX < blk_size example_block + 4096
    | Inr (b', off) \<Rightarrow> wf_block b' \<and> allocated example_block b' off 4096"
  by (rule block_alloc_correct [OF example_block_wf]) simp_all

text \<open>
  The choice of the extent to allocate from. With \<^verbatim>\<open>allocfirst\<close> it is the one with the lowest offset among
  those long enough; without, the search of the by-size list gives the smallest size that is long
  enough and the lowest offset of that size. Nothing is found only when no available extent is long
  enough.
\<close>

theorem alloc_choice_correct:
  assumes "wf_block b"
  shows "case alloc_search b sz of
      None \<Rightarrow> \<forall>e \<in> exts (live_avail b). e_size e < sz
    | Some e \<Rightarrow> if blk_allocfirst b then first_fit (exts (live_avail b)) sz e else best_fit (exts (live_avail b)) sz e"
  using assms alloc_search_first [of b sz] alloc_search_best [of b sz]
  by (cases "blk_allocfirst b") (auto simp: wf_block_def split: option.splits)

theorem alloc_choice_correct_witness:
  "alloc_search example_block 4096 = Some \<lparr>e_off = 32768, e_size = 4096, e_depth = 1\<rparr> \<and>
   best_fit (exts (live_avail example_block)) 4096 \<lparr>e_off = 32768, e_size = 4096, e_depth = 1\<rparr>"
proof -
  have "alloc_search example_block 4096 = Some \<lparr>e_off = 32768, e_size = 4096, e_depth = 1\<rparr>" "\<not> blk_allocfirst example_block"
    by code_simp+
  then show ?thesis using alloc_choice_correct [OF example_block_wf, of 4096] by simp
qed





end
