(* ===== verification/Hex.thy ===== *)
theory Hex
  imports Prelude
begin

text \<open>
  Hexadecimal text: \<^verbatim>\<open>src/src/support/hex.c\<close>, the timestamps' form in \<^verbatim>\<open>__wt_timestamp_to_hex_string\<close> of
  \<^verbatim>\<open>src/src/support/timestamp.c\<close> and its parser \<^verbatim>\<open>__wt_txn_parse_timestamp_raw\<close> of
  \<^verbatim>\<open>src/src/txn/txn_timestamp.c\<close>. Characters are bytes, a C string ends with the byte 0. The C locale's
  \<^verbatim>\<open>isprint\<close> decides what is printable; buffers grow as needed and allocation succeeds.
\<close>

subsection \<open>Conversions\<close>

definition wt_hex :: "nat \<Rightarrow> u8" where
  "wt_hex c = [0x30, 0x31, 0x32, 0x33, 0x34, 0x35, 0x36, 0x37, 0x38, 0x39,
               0x61, 0x62, 0x63, 0x64, 0x65, 0x66] ! c"

definition hex_hi :: "u8 \<Rightarrow> u8" where "hex_hi b = wt_hex (unat (drop_bit 4 (b AND 0xf0)))"
definition hex_lo :: "u8 \<Rightarrow> u8" where "hex_lo b = wt_hex (unat (b AND 0x0f))"

fun fill_hex_loop :: "bytes \<Rightarrow> nat \<Rightarrow> bytes" where
  "fill_hex_loop [] dest_max = []"
| "fill_hex_loop (b # src) dest_max =
     (if dest_max > 1 then hex_hi b # hex_lo b # fill_hex_loop src (dest_max - 2) else [])"

definition wt_fill_hex :: "bytes \<Rightarrow> nat \<Rightarrow> bytes" where
  "wt_fill_hex src dest_max = fill_hex_loop src (dest_max - 1) @ [0]"

definition wt_raw_to_hex :: "bytes \<Rightarrow> bytes" where
  "wt_raw_to_hex from = wt_fill_hex from (length from * 2 + 1)"

definition wt_isprint :: "u8 \<Rightarrow> bool" where
  "wt_isprint c \<longleftrightarrow> 0x20 \<le> c \<and> c \<le> 0x7e"

abbreviation backslash :: u8 where "backslash \<equiv> 0x5c"

fun esc_hex_loop :: "bytes \<Rightarrow> bytes" where
  "esc_hex_loop [] = [0]"
| "esc_hex_loop (b # from) =
     (if wt_isprint b then (if b = backslash then [backslash] else []) @ b # esc_hex_loop from
      else backslash # hex_hi b # hex_lo b # esc_hex_loop from)"

definition wt_raw_to_esc_hex :: "bytes \<Rightarrow> bytes" where
  "wt_raw_to_esc_hex from = esc_hex_loop from"

text \<open>The two switches of \<^verbatim>\<open>__wt_hex2byte\<close>; \<open>None\<close> is the return value 1.\<close>

definition hex_cases :: "(u8 \<times> u8) list" where
  "hex_cases =
     [(0x30, 0), (0x31, 1), (0x32, 2), (0x33, 3), (0x34, 4), (0x35, 5), (0x36, 6), (0x37, 7), (0x38, 8), (0x39, 9),
      (0x41, 10), (0x42, 11), (0x43, 12), (0x44, 13), (0x45, 14), (0x46, 15),
      (0x61, 10), (0x62, 11), (0x63, 12), (0x64, 13), (0x65, 14), (0x66, 15)]"

definition wt_hex2byte :: "u8 \<Rightarrow> u8 \<Rightarrow> u8 option" where
  "wt_hex2byte c0 c1 =
     (case map_of hex_cases c0 of
        None \<Rightarrow> None
      | Some hi \<Rightarrow> (case map_of hex_cases c1 of None \<Rightarrow> None | Some lo \<Rightarrow> Some (push_bit 4 hi OR lo)))"

fun nhex_loop :: "bytes \<Rightarrow> bytes result" where
  "nhex_loop [] = Inr []"
| "nhex_loop [c] = Inl OOB_READ"
| "nhex_loop (c0 # c1 # p) =
     (case wt_hex2byte c0 c1 of
        None \<Rightarrow> Inl EINVAL
      | Some b \<Rightarrow> WT_RET (nhex_loop p) (\<lambda>t. Inr (b # t)))"

definition wt_nhex_to_raw :: "bytes \<Rightarrow> bytes result" where
  "wt_nhex_to_raw from = (if length from mod 2 \<noteq> 0 then Inl EINVAL else nhex_loop from)"

definition wt_hex_to_raw :: "bytes \<Rightarrow> bytes result" where
  "wt_hex_to_raw from = (if 0 \<in> set from then wt_nhex_to_raw (takeWhile (\<lambda>c. c \<noteq> 0) from) else Inl OOB_READ)"

fun wt_esc_hex_to_raw :: "bytes \<Rightarrow> bytes result" where
  "wt_esc_hex_to_raw [] = Inl OOB_READ"
| "wt_esc_hex_to_raw (c # p) =
     (if c = 0 then Inr []
      else if c \<noteq> backslash then WT_RET (wt_esc_hex_to_raw p) (\<lambda>t. Inr (c # t))
      else case p of
             [] \<Rightarrow> Inl OOB_READ
           | c0 # q \<Rightarrow>
               if c0 = backslash then WT_RET (wt_esc_hex_to_raw q) (\<lambda>t. Inr (backslash # t))
               else if c0 = 0 then Inl EINVAL
               else case q of
                      [] \<Rightarrow> Inl OOB_READ
                    | c1 # r \<Rightarrow>
                        if c1 = 0 then Inl EINVAL
                        else case wt_hex2byte c0 c1 of
                               None \<Rightarrow> Inl EINVAL
                             | Some b \<Rightarrow> WT_RET (wt_esc_hex_to_raw r) (\<lambda>t. Inr (b # t)))"

subsection \<open>Timestamps as text\<close>

function ts_digits :: "u64 \<Rightarrow> bytes" where
  "ts_digits ts = (if ts = 0 then [] else wt_hex (unat (ts AND 0x0f)) # ts_digits (drop_bit 4 ts))"
  by pat_completeness auto
termination
proof (relation "measure unat")
  show "(drop_bit 4 ts, ts) \<in> measure unat" if "ts \<noteq> 0" for ts :: u64
    using that by (simp add: drop_bit_eq_div unat_div unat_gt_0)
qed simp

declare ts_digits.simps [simp del]

text \<open>The loop that exchanges the characters from both ends.\<close>

function swap_ends :: "bytes \<Rightarrow> bytes" where
  "swap_ends xs = (if length xs \<le> 1 then xs else last xs # swap_ends (butlast (tl xs)) @ [hd xs])"
  by pat_completeness auto
termination
  by (relation "measure length") auto

declare swap_ends.simps [simp del]

definition wt_timestamp_to_hex_string :: "u64 \<Rightarrow> bytes" where
  "wt_timestamp_to_hex_string ts =
     (if ts = 0 then [0x30, 0]
      else if ts = - 1 then replicate 16 0x66 @ [0]
      else swap_ends (ts_digits ts) @ [0])"

definition hextable :: "int list" where
  "hextable = replicate 48 (-1) @ [0, 1, 2, 3, 4, 5, 6, 7, 8, 9] @ replicate 7 (-1) @ [10, 11, 12, 13, 14, 15] @
     replicate 26 (-1) @ [10, 11, 12, 13, 14, 15] @ [-1]"

fun parse_ts_loop :: "u64 \<Rightarrow> bytes \<Rightarrow> u64 result" where
  "parse_ts_loop ts [] = Inr ts"
| "parse_ts_loop ts (c # str) =
     (let hex_val = (if unat c < length hextable then hextable ! unat c else -1)
      in if hex_val < 0 then Inl EINVAL
         else parse_ts_loop (push_bit 4 ts OR word_of_int hex_val) str)"

definition wt_txn_parse_timestamp_raw :: "bytes \<Rightarrow> u64 result" where
  "wt_txn_parse_timestamp_raw str =
     (if length str = 0 then Inr 0
      else if length str > 2 * 8 then Inl EINVAL
      else parse_ts_loop 0 str)"

definition wt_txn_parse_timestamp :: "bytes \<Rightarrow> u64 result" where
  "wt_txn_parse_timestamp str =
     WT_RET (wt_txn_parse_timestamp_raw str) (\<lambda>ts.
       if length str \<noteq> 0 \<and> ts = 0 then Inl EINVAL else Inr ts)"

subsection \<open>Bytes\<close>

lemma byte_cases: "P b" if "list_all P (map word_of_nat [0..<256])" for b :: u8
proof -
  have "b \<in> set (map word_of_nat [0..<256])"
    using unat_lt8 [of b] by (auto simp: image_iff intro!: bexI [of _ "unat b"])
  with that show ?thesis unfolding list_all_iff by blast
qed

lemma hex2byte_hex: "wt_hex2byte (hex_hi b) (hex_lo b) = Some b"
proof -
  have "list_all (\<lambda>b. wt_hex2byte (hex_hi b) (hex_lo b) = Some b) (map word_of_nat [0..<256])" by code_simp
  then show ?thesis by (rule byte_cases)
qed

lemma hex_char: "hex_hi b \<noteq> 0 \<and> hex_lo b \<noteq> 0 \<and> hex_hi b \<noteq> backslash"
proof -
  have "list_all (\<lambda>b. hex_hi b \<noteq> 0 \<and> hex_lo b \<noteq> 0 \<and> hex_hi b \<noteq> backslash) (map word_of_nat [0..<256])" by code_simp
  then show ?thesis by (rule byte_cases)
qed

subsection \<open>Round trips\<close>

lemma fill_hex_length: "length (fill_hex_loop src d) \<le> d"
  by (induction src d rule: fill_hex_loop.induct) auto

lemma nhex_fill: "length src * 2 \<le> d \<Longrightarrow> nhex_loop (fill_hex_loop src d) = Inr src"
  by (induction src d rule: fill_hex_loop.induct) (auto simp: hex2byte_hex)

lemma fill_hex_nonzero: "0 \<notin> set (fill_hex_loop src d)"
  using hex_char by (induction src d rule: fill_hex_loop.induct) (auto simp: eq_commute [of 0])

lemma fill_hex_full: "length src * 2 \<le> d \<Longrightarrow> length (fill_hex_loop src d) = length src * 2"
  by (induction src d rule: fill_hex_loop.induct) auto

lemma takeWhile_nul: "0 \<notin> set xs \<Longrightarrow> takeWhile (\<lambda>c. c \<noteq> (0 :: u8)) (xs @ 0 # ys) = xs"
  by (induction xs) auto

lemma hex_to_raw_to_hex: "wt_hex_to_raw (wt_raw_to_hex bs) = Inr bs"
proof -
  let ?h = "fill_hex_loop bs (length bs * 2)"
  have "takeWhile (\<lambda>c. c \<noteq> 0) (wt_raw_to_hex bs) = ?h"
    using takeWhile_nul [OF fill_hex_nonzero, of bs "length bs * 2" "[]"] by (simp add: wt_raw_to_hex_def wt_fill_hex_def)
  moreover have "wt_nhex_to_raw ?h = Inr bs"
    by (simp add: wt_nhex_to_raw_def nhex_fill fill_hex_full)
  ultimately show ?thesis by (simp add: wt_hex_to_raw_def wt_raw_to_hex_def wt_fill_hex_def)
qed

lemma isprint_nonzero: "wt_isprint b \<Longrightarrow> b \<noteq> 0" "wt_isprint backslash"
  by (auto simp: wt_isprint_def)

lemma esc_hex_to_raw_to_esc_hex: "wt_esc_hex_to_raw (wt_raw_to_esc_hex bs) = Inr bs"
proof -
  have "wt_esc_hex_to_raw (esc_hex_loop bs) = Inr bs"
    using hex_char isprint_nonzero by (induction bs) (auto simp: hex2byte_hex)
  then show ?thesis by (simp add: wt_raw_to_esc_hex_def)
qed

lemma swap_ends_rev: "swap_ends xs = rev xs"
proof (induction xs rule: swap_ends.induct)
  case (1 xs)
  show ?case
  proof (cases "length xs \<le> 1")
    case True
    then have "rev xs = xs" by (cases xs) auto
    with True show ?thesis by (simp add: swap_ends.simps)
  next
    case False
    then obtain a m z where "xs = a # m @ [z]"
      by (metis One_nat_def append_butlast_last_id le_Suc_eq length_0_conv length_Cons linorder_le_less_linear list.exhaust list.size(3) not_less_zero zero_le)
    with False "1.IH" show ?thesis by (subst swap_ends.simps) simp
  qed
qed

lemma nibble: "push_bit 4 (drop_bit 4 ts) OR (ts AND 0x0f) = (ts :: u64)"
proof -
  have "(0x0f :: u64) = mask 4" by (simp add: mask_eq_exp_minus_1)
  then show ?thesis by (auto simp: bit_eq_iff bit_simps)
qed

lemma unat_nibble: "unat (ts AND 0x0f :: u64) < 16"
proof -
  have "(0x0f :: u64) = mask 4" by (simp add: mask_eq_exp_minus_1)
  then have "ts AND 0x0f = take_bit 4 ts" by (simp add: take_bit_eq_mask)
  then show ?thesis by (simp add: take_bit_eq_mod unat_mod)
qed

lemma hex_digit_value:
  assumes "n < 16"
  shows "unat (wt_hex n) < length hextable \<and> hextable ! unat (wt_hex n) = int n"
proof -
  have "list_all (\<lambda>n. unat (wt_hex n) < length hextable \<and> hextable ! unat (wt_hex n) = int n) [0..<16]" by code_simp
  from tab_all [OF assms this] show ?thesis .
qed

lemma parse_append: "parse_ts_loop ts (xs @ ys) = WT_RET (parse_ts_loop ts xs) (\<lambda>t. parse_ts_loop t ys)"
  by (induction ts xs rule: parse_ts_loop.induct) (auto simp: Let_def)

lemma parse_digits: "parse_ts_loop 0 (rev (ts_digits ts)) = Inr ts"
proof (induction ts rule: ts_digits.induct)
  case (1 ts)
  show ?case
  proof (cases "ts = 0")
    case True
    then show ?thesis by (simp add: ts_digits.simps)
  next
    case False
    note d = hex_digit_value [OF unat_nibble, of ts]
    have "word_of_int (int (unat (ts AND 0x0f))) = (ts AND 0x0f :: u64)" by simp
    then have "parse_ts_loop (drop_bit 4 ts) [wt_hex (unat (ts AND 0x0f))] = Inr ts"
      using d nibble [of ts] by (simp add: Let_def)
    then show ?thesis using False "1.IH" by (subst ts_digits.simps) (simp add: parse_append)
  qed
qed

lemma ts_digits_length: "unat ts < 16 ^ n \<Longrightarrow> length (ts_digits ts) \<le> n"
proof (induction n arbitrary: ts)
  case 0
  then show ?case by (simp add: ts_digits.simps word_eq_zero_iff_unat)
next
  case (Suc n)
  have "unat (drop_bit 4 ts) < 16 ^ n"
    using Suc.prems by (simp add: drop_bit_eq_div unat_div less_mult_imp_div_less mult.commute)
  from Suc.IH [OF this] show ?case by (subst ts_digits.simps) simp
qed

lemma parse_timestamp_string:
  "wt_txn_parse_timestamp_raw (butlast (wt_timestamp_to_hex_string ts)) = Inr ts"
proof -
  consider "ts = 0" | "ts = - 1" | "ts \<noteq> 0" "ts \<noteq> - 1" by blast
  then show ?thesis
  proof cases
    case 1
    have "wt_txn_parse_timestamp_raw [0x30] = Inr 0" by code_simp
    then show ?thesis by (simp add: 1 wt_timestamp_to_hex_string_def)
  next
    case 2
    have "wt_txn_parse_timestamp_raw (replicate 16 0x66) = Inr (- 1)" by code_simp
    then show ?thesis by (simp add: 2 wt_timestamp_to_hex_string_def)
  next
    case 3
    have "length (ts_digits ts) \<le> 16" using unat_lt64 [of ts] by (intro ts_digits_length) simp
    with 3 parse_digits [of ts] show ?thesis
      by (auto simp: wt_timestamp_to_hex_string_def swap_ends_rev wt_txn_parse_timestamp_raw_def)
  qed
qed

subsection \<open>Properties\<close>

text \<open>
  C23: Hexadecimal text is lossless. Every byte string is read back from its hexadecimal form and from its
  escaped form, printable characters and backslashes included.
\<close>

theorem hex_roundtrip:
  "wt_hex_to_raw (wt_raw_to_hex bs) = Inr bs \<and> wt_esc_hex_to_raw (wt_raw_to_esc_hex bs) = Inr bs"
  by (simp add: hex_to_raw_to_hex esc_hex_to_raw_to_esc_hex)

text \<open>
  The string form of every timestamp, 0 and the maximum included, is parsed to that timestamp; it has
  at most sixteen digits.
\<close>

theorem timestamp_hex_roundtrip:
  "wt_txn_parse_timestamp_raw (butlast (wt_timestamp_to_hex_string ts)) = Inr ts \<and>
   length (wt_timestamp_to_hex_string ts) \<le> 17"
proof -
  have "length (ts_digits ts) \<le> 16" using unat_lt64 [of ts] by (intro ts_digits_length) simp
  then show ?thesis using parse_timestamp_string by (simp add: wt_timestamp_to_hex_string_def swap_ends_rev)
qed

text \<open>
  A dump into a buffer of fixed size fits it, terminating byte included, and is the beginning of the full
  conversion.
\<close>

theorem fill_hex_bounds:
  assumes "0 < dest_max"
  shows "length (wt_fill_hex src dest_max) \<le> dest_max \<and>
    (\<exists>rest. wt_raw_to_hex src = butlast (wt_fill_hex src dest_max) @ rest)"
proof -
  have "\<exists>rest. fill_hex_loop src e = fill_hex_loop src d @ rest" if "length src * 2 \<le> e" for d e
    using that by (induction src d arbitrary: e rule: fill_hex_loop.induct) auto
  from this [of "length src * 2" "dest_max - 1"] fill_hex_length [of src "dest_max - 1"] assms show ?thesis
    by (auto simp: wt_fill_hex_def wt_raw_to_hex_def)
qed

theorem fill_hex_bounds_witness:
  "length (wt_fill_hex [0xab, 0xcd] 4) \<le> 4 \<and> (\<exists>rest. wt_raw_to_hex [0xab, 0xcd] = butlast (wt_fill_hex [0xab, 0xcd] 4) @ rest)"
  by (rule fill_hex_bounds) simp

end
