(* ===== verification/Time_Window.thy ===== *)
theory Time_Window
  imports Prelude
begin

text \<open>
  Time windows: the visibility information of a value (\<^verbatim>\<open>WT_TIME_WINDOW\<close>) and its aggregation over a page
  (\<^verbatim>\<open>WT_TIME_AGGREGATE\<close>). The macros are those of \<^verbatim>\<open>src/src/include/timestamp_inline.h\<close>, the validation is
  \<^verbatim>\<open>src/src/support/timestamp.c\<close>. The theorems relate the two: an aggregate bounds each of its windows, so that
  a valid window always passes the check against the page it is on; merging aggregates of pages is
  aggregating all their windows.
\<close>

subsection \<open>Data\<close>

definition WT_TXN_NONE :: u64 where "WT_TXN_NONE = 0"
definition WT_TXN_MAX :: u64 where "WT_TXN_MAX = - 11"
definition WT_TXN_ABORTED :: u64 where "WT_TXN_ABORTED = - 1"
definition WT_TS_NONE :: u64 where "WT_TS_NONE = 0"
definition WT_TS_MAX :: u64 where "WT_TS_MAX = - 1"

record wt_time_window =
  durable_start_ts :: u64
  start_ts :: u64
  start_txn :: u64
  durable_stop_ts :: u64
  stop_ts :: u64
  stop_txn :: u64
  tw_prepare :: u8

record wt_time_aggregate =
  newest_start_durable_ts :: u64
  newest_stop_durable_ts :: u64
  oldest_start_ts :: u64
  newest_txn :: u64
  newest_stop_ts :: u64
  newest_stop_txn :: u64
  ta_prepare :: u8
  init_merge :: u8

text \<open>What the macros read of an update.\<close>

record upd_time =
  upd_txnid :: u64
  upd_start_ts :: u64
  upd_durable_ts :: u64

definition WT_TIME_WINDOW_INIT :: wt_time_window where
  "WT_TIME_WINDOW_INIT =
     \<lparr>durable_start_ts = WT_TS_NONE, start_ts = WT_TS_NONE, start_txn = WT_TXN_NONE,
      durable_stop_ts = WT_TS_NONE, stop_ts = WT_TS_MAX, stop_txn = WT_TXN_MAX, tw_prepare = 0\<rparr>"

definition WT_TIME_WINDOW_IS_EMPTY :: "wt_time_window \<Rightarrow> bool" where
  "WT_TIME_WINDOW_IS_EMPTY tw \<longleftrightarrow>
     durable_start_ts tw = WT_TS_NONE \<and> start_ts tw = WT_TS_NONE \<and> start_txn tw = WT_TXN_NONE \<and>
     durable_stop_ts tw = WT_TS_NONE \<and> stop_ts tw = WT_TS_MAX \<and> stop_txn tw = WT_TXN_MAX \<and> tw_prepare tw = 0"

definition WT_TIME_WINDOW_HAS_STOP :: "wt_time_window \<Rightarrow> bool" where
  "WT_TIME_WINDOW_HAS_STOP tw \<longleftrightarrow> stop_txn tw \<noteq> WT_TXN_MAX \<or> stop_ts tw \<noteq> WT_TS_MAX"

definition WT_TIME_WINDOWS_EQUAL :: "wt_time_window \<Rightarrow> wt_time_window \<Rightarrow> bool" where
  "WT_TIME_WINDOWS_EQUAL tw1 tw2 \<longleftrightarrow>
     durable_start_ts tw1 = durable_start_ts tw2 \<and> start_ts tw1 = start_ts tw2 \<and>
     start_txn tw1 = start_txn tw2 \<and> durable_stop_ts tw1 = durable_stop_ts tw2 \<and>
     stop_ts tw1 = stop_ts tw2 \<and> stop_txn tw1 = stop_txn tw2 \<and> tw_prepare tw1 = tw_prepare tw2"

definition WT_TIME_WINDOW_SET_START :: "wt_time_window \<Rightarrow> upd_time \<Rightarrow> wt_time_window" where
  "WT_TIME_WINDOW_SET_START tw upd =
     tw\<lparr>start_ts := upd_start_ts upd,
        durable_start_ts := (if upd_durable_ts upd \<noteq> WT_TS_NONE then upd_durable_ts upd else upd_start_ts upd),
        start_txn := upd_txnid upd\<rparr>"

definition WT_TIME_WINDOW_SET_STOP :: "wt_time_window \<Rightarrow> upd_time \<Rightarrow> wt_time_window" where
  "WT_TIME_WINDOW_SET_STOP tw upd =
     tw\<lparr>stop_ts := upd_start_ts upd,
        durable_stop_ts := (if upd_durable_ts upd \<noteq> WT_TS_NONE then upd_durable_ts upd else upd_start_ts upd),
        stop_txn := upd_txnid upd\<rparr>"

definition WT_TIME_AGGREGATE_INIT :: wt_time_aggregate where
  "WT_TIME_AGGREGATE_INIT =
     \<lparr>newest_start_durable_ts = WT_TS_NONE, newest_stop_durable_ts = WT_TS_NONE, oldest_start_ts = WT_TS_NONE,
      newest_txn = WT_TXN_NONE, newest_stop_ts = WT_TS_MAX, newest_stop_txn = WT_TXN_MAX,
      ta_prepare = 0, init_merge = 0\<rparr>"

definition WT_TIME_AGGREGATE_INIT_MERGE :: wt_time_aggregate where
  "WT_TIME_AGGREGATE_INIT_MERGE =
     \<lparr>newest_start_durable_ts = WT_TS_NONE, newest_stop_durable_ts = WT_TS_NONE, oldest_start_ts = WT_TS_MAX,
      newest_txn = WT_TXN_NONE, newest_stop_ts = WT_TS_NONE, newest_stop_txn = WT_TXN_NONE,
      ta_prepare = 0, init_merge = 1\<rparr>"

definition WT_TIME_AGGREGATE_IS_EMPTY :: "wt_time_aggregate \<Rightarrow> bool" where
  "WT_TIME_AGGREGATE_IS_EMPTY ta \<longleftrightarrow>
     (if init_merge ta = 0
      then newest_start_durable_ts ta = WT_TS_NONE \<and> newest_stop_durable_ts ta = WT_TS_NONE \<and>
           oldest_start_ts ta = WT_TS_NONE \<and> newest_txn ta = WT_TXN_NONE \<and>
           newest_stop_ts ta = WT_TS_MAX \<and> newest_stop_txn ta = WT_TXN_MAX \<and> ta_prepare ta = 0
      else newest_start_durable_ts ta = WT_TS_NONE \<and> newest_stop_durable_ts ta = WT_TS_NONE \<and>
           oldest_start_ts ta = WT_TS_MAX \<and> newest_txn ta = WT_TXN_NONE \<and>
           newest_stop_ts ta = WT_TS_NONE \<and> newest_stop_txn ta = WT_TXN_NONE \<and> ta_prepare ta = 0)"

definition WT_TIME_AGGREGATE_UPDATE :: "wt_time_aggregate \<Rightarrow> wt_time_window \<Rightarrow> wt_time_aggregate" where
  "WT_TIME_AGGREGATE_UPDATE ta tw =
     (let newest = max (start_txn tw) (newest_txn ta)
      in ta\<lparr>newest_start_durable_ts := max (durable_start_ts tw) (newest_start_durable_ts ta),
            newest_stop_durable_ts := max (durable_stop_ts tw) (newest_stop_durable_ts ta),
            oldest_start_ts := min (start_ts tw) (oldest_start_ts ta),
            newest_txn := (if stop_txn tw \<noteq> WT_TXN_MAX then max (stop_txn tw) newest else newest),
            newest_stop_ts := max (stop_ts tw) (newest_stop_ts ta),
            newest_stop_txn := max (stop_txn tw) (newest_stop_txn ta),
            ta_prepare := (if tw_prepare tw \<noteq> 0 then 1 else ta_prepare ta)\<rparr>)"

definition WT_TIME_AGGREGATE_MERGE :: "wt_time_aggregate \<Rightarrow> wt_time_aggregate \<Rightarrow> wt_time_aggregate" where
  "WT_TIME_AGGREGATE_MERGE dest source =
     (let newest = max (newest_txn dest) (newest_txn source);
          stop = max (newest_stop_txn dest) (newest_stop_txn source)
      in dest\<lparr>newest_start_durable_ts := max (newest_start_durable_ts dest) (newest_start_durable_ts source),
              newest_stop_durable_ts := max (newest_stop_durable_ts dest) (newest_stop_durable_ts source),
              oldest_start_ts := min (oldest_start_ts dest) (oldest_start_ts source),
              newest_txn := (if stop \<noteq> WT_TXN_MAX then max newest stop else newest),
              newest_stop_ts := max (newest_stop_ts dest) (newest_stop_ts source),
              newest_stop_txn := stop,
              ta_prepare := (if ta_prepare source \<noteq> 0 then 1 else ta_prepare dest)\<rparr>)"

subsection \<open>Validation\<close>

text \<open>
  The checks run in the order of the source; each failure returns EINVAL, with a message unless \<^verbatim>\<open>silent\<close>.
  The stable point is that of the connection, and nothing is checked against the parent of a page of
  the metadata file.
\<close>

record time_session =
  has_stable_timestamp :: bool
  stable_timestamp :: u64
  recovery_timestamp :: u64
  is_metadata :: bool

definition time_stable :: "'s time_session_scheme \<Rightarrow> u64" where
  "time_stable s = (if has_stable_timestamp s then stable_timestamp s else recovery_timestamp s)"

fun validate :: "bool list \<Rightarrow> unit result" where
  "validate [] = Inr ()"
| "validate (bad # rest) = (if bad then Inl EINVAL else validate rest)"

definition time_aggregate_validate_parent_stable ::
  "'s time_session_scheme \<Rightarrow> wt_time_aggregate \<Rightarrow> unit result" where
  "time_aggregate_validate_parent_stable s ta =
     (let stable = time_stable s
      in validate
          [newest_start_durable_ts ta > stable,
           newest_stop_durable_ts ta > stable,
           oldest_start_ts ta > stable,
           newest_stop_ts ta \<noteq> WT_TS_MAX \<and> newest_stop_ts ta > stable])"

definition time_aggregate_validate_parent :: "wt_time_aggregate \<Rightarrow> wt_time_aggregate \<Rightarrow> unit result" where
  "time_aggregate_validate_parent ta parent =
     validate
      [newest_start_durable_ts ta > newest_start_durable_ts parent,
       newest_stop_durable_ts ta > newest_stop_durable_ts parent,
       oldest_start_ts ta < oldest_start_ts parent,
       newest_txn ta > newest_txn parent,
       newest_stop_ts ta > newest_stop_ts parent,
       newest_stop_txn ta > newest_stop_txn parent,
       ta_prepare ta \<noteq> 0 \<and> ta_prepare parent = 0]"

definition wt_time_aggregate_validate ::
  "'s time_session_scheme \<Rightarrow> wt_time_aggregate \<Rightarrow> wt_time_aggregate option \<Rightarrow> unit result" where
  "wt_time_aggregate_validate s ta parent =
     WT_RET (validate
      [oldest_start_ts ta > newest_stop_ts ta,
       newest_txn ta > newest_stop_txn ta,
       oldest_start_ts ta > newest_start_durable_ts ta,
       newest_stop_ts ta \<noteq> WT_TS_MAX \<and> newest_stop_ts ta > newest_stop_durable_ts ta,
       newest_start_durable_ts ta \<noteq> newest_stop_durable_ts ta \<and> newest_start_durable_ts ta > newest_stop_ts ta,
       newest_stop_durable_ts ta \<noteq> WT_TS_NONE \<and> newest_stop_durable_ts ta < oldest_start_ts ta]) (\<lambda>_.
     case parent of
       None \<Rightarrow> Inr ()
     | Some p \<Rightarrow>
         if is_metadata s then Inr ()
         else if WT_TIME_AGGREGATE_IS_EMPTY p then time_aggregate_validate_parent_stable s ta
         else time_aggregate_validate_parent ta p)"

definition time_value_validate_parent_stable :: "'s time_session_scheme \<Rightarrow> wt_time_window \<Rightarrow> unit result" where
  "time_value_validate_parent_stable s tw =
     (let stable = time_stable s
      in validate
          [durable_start_ts tw > stable,
           start_ts tw > stable,
           durable_stop_ts tw > stable,
           stop_ts tw \<noteq> WT_TS_MAX \<and> stop_ts tw > stable])"

definition time_value_validate_parent :: "wt_time_window \<Rightarrow> wt_time_aggregate \<Rightarrow> unit result" where
  "time_value_validate_parent tw parent =
     validate
      [newest_start_durable_ts parent \<noteq> WT_TS_NONE \<and> durable_start_ts tw > newest_start_durable_ts parent,
       start_ts tw < oldest_start_ts parent,
       start_txn tw > newest_txn parent,
       newest_stop_durable_ts parent \<noteq> WT_TS_NONE \<and> durable_stop_ts tw > newest_stop_durable_ts parent,
       stop_ts tw > newest_stop_ts parent,
       stop_txn tw > newest_stop_txn parent,
       tw_prepare tw \<noteq> 0 \<and> ta_prepare parent = 0]"

definition wt_time_value_validate ::
  "'s time_session_scheme \<Rightarrow> wt_time_window \<Rightarrow> wt_time_aggregate option \<Rightarrow> unit result" where
  "wt_time_value_validate s tw parent =
     WT_RET (validate
      [start_ts tw > stop_ts tw,
       start_txn tw > stop_txn tw,
       start_ts tw > durable_start_ts tw,
       stop_ts tw \<noteq> WT_TS_MAX \<and> stop_ts tw > durable_stop_ts tw,
       durable_start_ts tw \<noteq> durable_stop_ts tw \<and> durable_start_ts tw > stop_ts tw,
       durable_stop_ts tw \<noteq> WT_TS_NONE \<and> durable_start_ts tw > durable_stop_ts tw]) (\<lambda>_.
     case parent of
       None \<Rightarrow> Inr ()
     | Some p \<Rightarrow>
         if is_metadata s then Inr ()
         else if WT_TIME_AGGREGATE_IS_EMPTY p then time_value_validate_parent_stable s tw
         else time_value_validate_parent tw p)"

text \<open>Reconciliation aggregates the windows of a page's values, starting from the merge defaults.\<close>

definition aggregate :: "wt_time_window list \<Rightarrow> wt_time_aggregate" where
  "aggregate tws = foldl WT_TIME_AGGREGATE_UPDATE WT_TIME_AGGREGATE_INIT_MERGE tws"

subsection \<open>Aggregation\<close>

lemma validate_ok: "validate bs = Inr () \<longleftrightarrow> list_all Not bs"
  by (induction bs) auto

lemma validate_cases: "validate bs = Inr () \<or> validate bs = Inl EINVAL"
  by (induction bs) auto

lemma windows_equal_iff: "WT_TIME_WINDOWS_EQUAL a b \<longleftrightarrow> a = b"
  by (cases a; cases b) (auto simp: WT_TIME_WINDOWS_EQUAL_def)

lemma window_empty_iff: "WT_TIME_WINDOW_IS_EMPTY tw \<longleftrightarrow> tw = WT_TIME_WINDOW_INIT"
  by (cases tw) (auto simp: WT_TIME_WINDOW_IS_EMPTY_def WT_TIME_WINDOW_INIT_def)

text \<open>What an aggregate says of one of its windows.\<close>

definition bounds :: "wt_time_aggregate \<Rightarrow> wt_time_window \<Rightarrow> bool" where
  "bounds ta tw \<longleftrightarrow> durable_start_ts tw \<le> newest_start_durable_ts ta \<and> durable_stop_ts tw \<le> newest_stop_durable_ts ta \<and>
     oldest_start_ts ta \<le> start_ts tw \<and> start_txn tw \<le> newest_txn ta \<and>
     (stop_txn tw \<noteq> WT_TXN_MAX \<longrightarrow> stop_txn tw \<le> newest_txn ta) \<and>
     stop_ts tw \<le> newest_stop_ts ta \<and> stop_txn tw \<le> newest_stop_txn ta \<and> (tw_prepare tw \<noteq> 0 \<longrightarrow> ta_prepare ta \<noteq> 0)"

lemma bounds_update: "bounds (WT_TIME_AGGREGATE_UPDATE ta tw) tw" "bounds ta v \<Longrightarrow> bounds (WT_TIME_AGGREGATE_UPDATE ta tw) v"
  by (auto simp: bounds_def WT_TIME_AGGREGATE_UPDATE_def Let_def le_max_iff_disj min_le_iff_disj)

lemma bounds_foldl: "bounds ta v \<or> v \<in> set tws \<Longrightarrow> bounds (foldl WT_TIME_AGGREGATE_UPDATE ta tws) v"
  by (induction tws arbitrary: ta) (auto intro: bounds_update)

lemma bounds_aggregate: "tw \<in> set tws \<Longrightarrow> bounds (aggregate tws) tw"
  by (simp add: aggregate_def bounds_foldl)

lemma init_merge_foldl: "init_merge (foldl WT_TIME_AGGREGATE_UPDATE ta tws) = init_merge ta"
  by (induction tws arbitrary: ta) (auto simp: WT_TIME_AGGREGATE_UPDATE_def Let_def)

lemma aggregate_snoc: "aggregate (tws @ [tw]) = WT_TIME_AGGREGATE_UPDATE (aggregate tws) tw"
  by (simp add: aggregate_def)

text \<open>A newest stop transaction that is a real one has been counted as a transaction.\<close>

definition stop_counted :: "wt_time_aggregate \<Rightarrow> bool" where
  "stop_counted ta \<longleftrightarrow> (newest_stop_txn ta \<noteq> WT_TXN_MAX \<longrightarrow> newest_stop_txn ta \<le> newest_txn ta)"

lemma stop_counted_update: "stop_counted ta \<Longrightarrow> stop_counted (WT_TIME_AGGREGATE_UPDATE ta tw)"
  by (auto simp: stop_counted_def WT_TIME_AGGREGATE_UPDATE_def Let_def max_def split: if_splits)

lemma stop_counted_aggregate: "stop_counted (aggregate tws)"
proof (induction tws rule: rev_induct)
  case Nil
  show ?case by (simp add: aggregate_def stop_counted_def WT_TIME_AGGREGATE_INIT_MERGE_def)
qed (simp add: aggregate_snoc stop_counted_update)

lemma merge_newest_txn:
  assumes "stop_counted ta" "stop_counted tb"
  shows "newest_txn (WT_TIME_AGGREGATE_MERGE ta tb) = max (newest_txn ta) (newest_txn tb)"
  using assms by (auto simp: stop_counted_def WT_TIME_AGGREGATE_MERGE_def Let_def max_def split: if_splits)

lemma merge_init:
  assumes "stop_counted ta" shows "WT_TIME_AGGREGATE_MERGE ta WT_TIME_AGGREGATE_INIT_MERGE = ta"
  using merge_newest_txn [OF assms, of WT_TIME_AGGREGATE_INIT_MERGE]
  by (cases ta) (auto simp: WT_TIME_AGGREGATE_MERGE_def WT_TIME_AGGREGATE_INIT_MERGE_def WT_TS_NONE_def WT_TXN_NONE_def
      WT_TS_MAX_def stop_counted_def Let_def max_def min_def split: if_splits)

lemma merge_update:
  assumes "stop_counted ta" "stop_counted tb"
  shows "WT_TIME_AGGREGATE_MERGE ta (WT_TIME_AGGREGATE_UPDATE tb tw) = WT_TIME_AGGREGATE_UPDATE (WT_TIME_AGGREGATE_MERGE ta tb) tw"
proof -
  have "newest_txn (WT_TIME_AGGREGATE_MERGE ta (WT_TIME_AGGREGATE_UPDATE tb tw)) =
      newest_txn (WT_TIME_AGGREGATE_UPDATE (WT_TIME_AGGREGATE_MERGE ta tb) tw)"
    unfolding merge_newest_txn [OF assms(1) stop_counted_update [OF assms(2)]]
    by (simp add: WT_TIME_AGGREGATE_UPDATE_def Let_def merge_newest_txn [OF assms] max.assoc max.left_commute max.commute)
  then show ?thesis
    by (simp add: WT_TIME_AGGREGATE_MERGE_def WT_TIME_AGGREGATE_UPDATE_def Let_def max.assoc max.left_commute max.commute
        min.assoc min.left_commute min.commute)
qed

lemma aggregate_append: "WT_TIME_AGGREGATE_MERGE (aggregate xs) (aggregate ys) = aggregate (xs @ ys)"
proof (induction ys rule: rev_induct)
  case Nil
  show ?case using merge_init [OF stop_counted_aggregate, of xs] by (simp add: aggregate_def)
next
  case (snoc y ys)
  then show ?case
    by (simp add: aggregate_snoc merge_update stop_counted_aggregate flip: append_assoc)
qed

subsection \<open>Validation of aggregated windows\<close>

lemma valid_window_iff:
  "wt_time_value_validate s tw None = Inr () \<longleftrightarrow> start_ts tw \<le> stop_ts tw \<and> start_txn tw \<le> stop_txn tw \<and>
     start_ts tw \<le> durable_start_ts tw \<and> (stop_ts tw \<noteq> WT_TS_MAX \<longrightarrow> stop_ts tw \<le> durable_stop_ts tw) \<and>
     (durable_start_ts tw = durable_stop_ts tw \<or> durable_start_ts tw \<le> stop_ts tw) \<and>
     (durable_stop_ts tw = WT_TS_NONE \<or> durable_start_ts tw \<le> durable_stop_ts tw)"
  by (auto simp: wt_time_value_validate_def validate_ok simp del: validate.simps)

lemma aggregate_not_empty:
  assumes "tw \<in> set tws" "wt_time_value_validate s tw None = Inr ()"
  shows "\<not> WT_TIME_AGGREGATE_IS_EMPTY (aggregate tws)"
proof
  assume "WT_TIME_AGGREGATE_IS_EMPTY (aggregate tws)"
  moreover have "init_merge (aggregate tws) = 1"
    by (simp add: aggregate_def init_merge_foldl WT_TIME_AGGREGATE_INIT_MERGE_def)
  ultimately have "newest_start_durable_ts (aggregate tws) = 0" "oldest_start_ts (aggregate tws) = - 1"
    by (auto simp: WT_TIME_AGGREGATE_IS_EMPTY_def WT_TS_NONE_def WT_TS_MAX_def)
  with bounds_aggregate [OF assms(1)] assms(2) have "- 1 \<le> start_ts tw" "start_ts tw \<le> durable_start_ts tw" "durable_start_ts tw \<le> 0"
    unfolding bounds_def valid_window_iff by auto
  then have "- 1 \<le> (0 :: u64)" by (meson order_trans)
  then show False by simp
qed

text \<open>The extremal values of an aggregate are those of its windows.\<close>

lemma aggregate_attains:
  assumes "tws \<noteq> []"
  shows "\<exists>tw \<in> set tws. oldest_start_ts (aggregate tws) = start_ts tw"
    "\<exists>tw \<in> set tws. newest_stop_ts (aggregate tws) = stop_ts tw"
    "\<exists>tw \<in> set tws. newest_stop_durable_ts (aggregate tws) = durable_stop_ts tw"
    "\<exists>tw \<in> set tws. newest_start_durable_ts (aggregate tws) = durable_start_ts tw"
    "\<exists>tw \<in> set tws. newest_txn (aggregate tws) = start_txn tw \<or> stop_txn tw \<noteq> WT_TXN_MAX \<and> newest_txn (aggregate tws) = stop_txn tw"
  using assms
proof (induction tws rule: rev_induct)
  case (snoc y ys)
  {
    case 1
    show ?case using snoc(1) by (cases "ys = []") (auto simp: aggregate_snoc WT_TIME_AGGREGATE_UPDATE_def Let_def min_def
          aggregate_def WT_TIME_AGGREGATE_INIT_MERGE_def WT_TS_MAX_def)
  next
    case 2
    show ?case using snoc(2) by (cases "ys = []") (auto simp: aggregate_snoc WT_TIME_AGGREGATE_UPDATE_def Let_def max_def
          aggregate_def WT_TIME_AGGREGATE_INIT_MERGE_def WT_TS_NONE_def)
  next
    case 3
    show ?case using snoc(3) by (cases "ys = []") (auto simp: aggregate_snoc WT_TIME_AGGREGATE_UPDATE_def Let_def max_def
          aggregate_def WT_TIME_AGGREGATE_INIT_MERGE_def WT_TS_NONE_def)
  next
    case 4
    show ?case using snoc(4) by (cases "ys = []") (auto simp: aggregate_snoc WT_TIME_AGGREGATE_UPDATE_def Let_def max_def
          aggregate_def WT_TIME_AGGREGATE_INIT_MERGE_def WT_TS_NONE_def)
  next
    case 5
    show ?case using snoc(5) by (cases "ys = []") (auto simp: aggregate_snoc WT_TIME_AGGREGATE_UPDATE_def Let_def max_def
          aggregate_def WT_TIME_AGGREGATE_INIT_MERGE_def WT_TXN_NONE_def)
  }
qed simp_all

lemma aggregate_self_check:
  assumes "tws \<noteq> []" "\<forall>tw \<in> set tws. wt_time_value_validate s tw None = Inr ()"
  shows "wt_time_aggregate_validate s (aggregate tws) None =
    (if newest_start_durable_ts (aggregate tws) \<noteq> newest_stop_durable_ts (aggregate tws) \<and>
        newest_start_durable_ts (aggregate tws) > newest_stop_ts (aggregate tws) then Inl EINVAL else Inr ())"
proof -
  let ?a = "aggregate tws"
  note v = assms(2) [unfolded valid_window_iff] and b = bounds_aggregate [of _ tws, unfolded bounds_def] and at = aggregate_attains [OF assms(1)]
  obtain w where w: "w \<in> set tws" using assms(1) by (cases tws) auto
  have 1: "oldest_start_ts ?a \<le> newest_stop_ts ?a" "oldest_start_ts ?a \<le> newest_start_durable_ts ?a"
    using v b [OF w] w by (meson order_trans)+
  have 2: "newest_txn ?a \<le> newest_stop_txn ?a" using at(5) v b by (metis order_trans)
  have 3: "newest_stop_ts ?a = WT_TS_MAX \<or> newest_stop_ts ?a \<le> newest_stop_durable_ts ?a" using at(2) v b by (metis order_trans)
  have 4: "newest_stop_durable_ts ?a = WT_TS_NONE \<or> oldest_start_ts ?a \<le> newest_stop_durable_ts ?a" using at(3) v b by (metis order_trans)
  show ?thesis using 1 2 3 4 by (auto simp: wt_time_aggregate_validate_def)
qed

lemma bounds_validate_parent: "bounds ta tw \<Longrightarrow> time_value_validate_parent tw ta = Inr ()"
  by (auto simp: bounds_def time_value_validate_parent_def validate_ok not_less)

lemma merge_above:
  "time_aggregate_validate_parent ta (WT_TIME_AGGREGATE_MERGE ta tb) = Inr ()"
  "time_aggregate_validate_parent tb (WT_TIME_AGGREGATE_MERGE ta tb) = Inr ()"
  by (auto simp: time_aggregate_validate_parent_def WT_TIME_AGGREGATE_MERGE_def validate_ok Let_def not_less le_max_iff_disj min_le_iff_disj)

subsection \<open>Properties\<close>

text \<open>
  C24: A page's aggregate admits the page's values. When every value's window is valid by itself, each of them
  also passes the validation against the aggregate of all of them, in every session.
\<close>

theorem aggregate_admits_windows:
  assumes "tw \<in> set tws" "\<forall>w \<in> set tws. wt_time_value_validate s w None = Inr ()"
  shows "wt_time_value_validate s tw (Some (aggregate tws)) = Inr ()"
proof -
  have "wt_time_value_validate s tw None = Inr ()" using assms by blast
  moreover from this have "\<not> WT_TIME_AGGREGATE_IS_EMPTY (aggregate tws)" by (rule aggregate_not_empty [OF assms(1)])
  moreover have "time_value_validate_parent tw (aggregate tws) = Inr ()"
    by (rule bounds_validate_parent [OF bounds_aggregate [OF assms(1)]])
  ultimately show ?thesis by (auto simp: wt_time_value_validate_def)
qed

definition example_session :: time_session where
  "example_session = \<lparr>has_stable_timestamp = True, stable_timestamp = 5, recovery_timestamp = 0, is_metadata = False\<rparr>"

definition example_windows :: "wt_time_window list" where
  "example_windows =
    [\<lparr>durable_start_ts = 50, start_ts = 20, start_txn = 3, durable_stop_ts = 50, stop_ts = 20, stop_txn = 3, tw_prepare = 0\<rparr>,
     \<lparr>durable_start_ts = 30, start_ts = 30, start_txn = 4, durable_stop_ts = 60, stop_ts = 40, stop_txn = 7, tw_prepare = 1\<rparr>]"

theorem aggregate_admits_windows_witness:
  "wt_time_value_validate example_session (hd example_windows) (Some (aggregate example_windows)) = Inr ()"
proof (rule aggregate_admits_windows)
  show "hd example_windows \<in> set example_windows" by (simp add: example_windows_def)
  show "\<forall>w \<in> set example_windows. wt_time_value_validate example_session w None = Inr ()" by code_simp
qed

text \<open>
  Merging aggregates is aggregating. The merge of the aggregates of two pages is the aggregate of all their
  windows, and both aggregates pass the validation against it.
\<close>

theorem aggregate_merge_homomorphism:
  "WT_TIME_AGGREGATE_MERGE (aggregate xs) (aggregate ys) = aggregate (xs @ ys) \<and>
   time_aggregate_validate_parent (aggregate xs) (aggregate (xs @ ys)) = Inr () \<and>
   time_aggregate_validate_parent (aggregate ys) (aggregate (xs @ ys)) = Inr ()"
  using aggregate_append [of xs ys] merge_above(1) [of "aggregate xs" "aggregate ys"]
    merge_above(2) [of "aggregate ys" "aggregate xs"] by simp

text \<open>
  C25: The validation of an aggregate by itself. For valid windows it fails in exactly one case, when the newest
  durable start timestamp differs from the newest durable stop timestamp and is behind the newest
  stop timestamp; it succeeds when no window's durable start timestamp is behind its stop timestamp.
  The case does arise: windows that are valid one by one, the first of an out-of-order update, aggregate
  to a rejected one.
\<close>

theorem aggregate_self_validation:
  assumes "tws \<noteq> []" "\<forall>tw \<in> set tws. wt_time_value_validate s tw None = Inr ()"
  shows "(wt_time_aggregate_validate s (aggregate tws) None =
     (if newest_start_durable_ts (aggregate tws) \<noteq> newest_stop_durable_ts (aggregate tws) \<and>
         newest_start_durable_ts (aggregate tws) > newest_stop_ts (aggregate tws) then Inl EINVAL else Inr ())) \<and>
    ((\<forall>tw \<in> set tws. durable_start_ts tw \<le> stop_ts tw) \<longrightarrow> wt_time_aggregate_validate s (aggregate tws) None = Inr ())"
proof -
  have "newest_start_durable_ts (aggregate tws) \<le> newest_stop_ts (aggregate tws)" if "\<forall>tw \<in> set tws. durable_start_ts tw \<le> stop_ts tw"
    using aggregate_attains(4) [OF assms(1)] that bounds_aggregate [of _ tws, unfolded bounds_def] by (metis order_trans)
  then show ?thesis using aggregate_self_check [OF assms] by (intro conjI impI) (auto simp: not_less)
qed

theorem aggregate_self_validation_witness:
  "wt_time_aggregate_validate example_session (aggregate example_windows) None = Inl EINVAL"
proof -
  have "example_windows \<noteq> []" "\<forall>tw \<in> set example_windows. wt_time_value_validate example_session tw None = Inr ()"
    "newest_start_durable_ts (aggregate example_windows) \<noteq> newest_stop_durable_ts (aggregate example_windows) \<and>
     newest_start_durable_ts (aggregate example_windows) > newest_stop_ts (aggregate example_windows)" by code_simp+
  then show ?thesis using aggregate_self_validation [of example_windows example_session] by simp
qed

end
