(* ===== verification/Cell.thy ===== *)
theory Cell
  imports Intpack Time_Window
begin

text \<open>
  On-page cells, \<^verbatim>\<open>src/src/include/cell.h\<close> and \<^verbatim>\<open>src/src/include/cell_inline.h\<close>: the header in front of every
  key, value and address of a page image.

  Packing returns the bytes of the header; the callers append the data. A page image is a byte list and
  a cell an offset into it. With boundary checks (\<open>chk\<close>, the argument \<^verbatim>\<open>end\<close> is not NULL) the end of the page is
  the end of the list; a read behind it is \<open>OOB_READ\<close>. \<open>diag\<close> says whether the build has
  \<^verbatim>\<open>HAVE_DIAGNOSTIC\<close>, in which the windows are validated.
\<close>

subsection \<open>Cell types\<close>

definition WT_CELL_KEY_SHORT :: u8 where "WT_CELL_KEY_SHORT = 0x01"
definition WT_CELL_KEY_SHORT_PFX :: u8 where "WT_CELL_KEY_SHORT_PFX = 0x02"
definition WT_CELL_VALUE_SHORT :: u8 where "WT_CELL_VALUE_SHORT = 0x03"
definition WT_CELL_SHORT_TYPE :: "u8 \<Rightarrow> u8" where "WT_CELL_SHORT_TYPE v = v AND 0x03"
definition WT_CELL_SHORT_MAX :: nat where "WT_CELL_SHORT_MAX = 63"
definition WT_CELL_SHORT_SHIFT :: nat where "WT_CELL_SHORT_SHIFT = 2"
definition WT_CELL_64V :: u8 where "WT_CELL_64V = 0x04"
definition WT_CELL_SECOND_DESC :: u8 where "WT_CELL_SECOND_DESC = 0x08"
definition WT_CELL_PREPARE :: u8 where "WT_CELL_PREPARE = 0x01"
definition WT_CELL_TS_DURABLE_START :: u8 where "WT_CELL_TS_DURABLE_START = 0x02"
definition WT_CELL_TS_DURABLE_STOP :: u8 where "WT_CELL_TS_DURABLE_STOP = 0x04"
definition WT_CELL_TS_START :: u8 where "WT_CELL_TS_START = 0x08"
definition WT_CELL_TS_STOP :: u8 where "WT_CELL_TS_STOP = 0x10"
definition WT_CELL_TXN_START :: u8 where "WT_CELL_TXN_START = 0x20"
definition WT_CELL_TXN_STOP :: u8 where "WT_CELL_TXN_STOP = 0x40"
definition WT_CELL_ADDR_DEL :: u8 where "WT_CELL_ADDR_DEL = 0x00"
definition WT_CELL_ADDR_INT :: u8 where "WT_CELL_ADDR_INT = 0x10"
definition WT_CELL_ADDR_LEAF :: u8 where "WT_CELL_ADDR_LEAF = 0x20"
definition WT_CELL_ADDR_LEAF_NO :: u8 where "WT_CELL_ADDR_LEAF_NO = 0x30"
definition WT_CELL_DEL :: u8 where "WT_CELL_DEL = 0x40"
definition WT_CELL_KEY :: u8 where "WT_CELL_KEY = 0x50"
definition WT_CELL_KEY_OVFL :: u8 where "WT_CELL_KEY_OVFL = 0x60"
definition WT_CELL_KEY_OVFL_RM :: u8 where "WT_CELL_KEY_OVFL_RM = 0xc0"
definition WT_CELL_KEY_PFX :: u8 where "WT_CELL_KEY_PFX = 0x70"
definition WT_CELL_VALUE :: u8 where "WT_CELL_VALUE = 0x80"
definition WT_CELL_VALUE_COPY :: u8 where "WT_CELL_VALUE_COPY = 0x90"
definition WT_CELL_VALUE_OVFL :: u8 where "WT_CELL_VALUE_OVFL = 0xa0"
definition WT_CELL_VALUE_OVFL_RM :: u8 where "WT_CELL_VALUE_OVFL_RM = 0xb0"
definition WT_CELL_TYPE_MASK :: u8 where "WT_CELL_TYPE_MASK = 0xf0"
definition WT_CELL_TYPE :: "u8 \<Rightarrow> u8" where "WT_CELL_TYPE v = v AND WT_CELL_TYPE_MASK"
definition WT_CELL_SIZE_ADJUST :: nat where "WT_CELL_SIZE_ADJUST = WT_CELL_SHORT_MAX + 1"
definition WT_CELL_UNPACK_OVERFLOW :: u8 where "WT_CELL_UNPACK_OVERFLOW = 0x1"
definition WT_CELL_UNPACK_TIME_WINDOW_CLEARED :: u8 where "WT_CELL_UNPACK_TIME_WINDOW_CLEARED = 0x2"

definition wt_cell_type :: "u8 \<Rightarrow> u8" where
  "wt_cell_type b =
     (if WT_CELL_SHORT_TYPE b = WT_CELL_KEY_SHORT \<or> WT_CELL_SHORT_TYPE b = WT_CELL_KEY_SHORT_PFX then WT_CELL_KEY
      else if WT_CELL_SHORT_TYPE b = WT_CELL_VALUE_SHORT then WT_CELL_VALUE
      else if WT_CELL_TYPE b = WT_CELL_KEY_PFX then WT_CELL_KEY
      else if WT_CELL_TYPE b = WT_CELL_KEY_OVFL_RM then WT_CELL_KEY_OVFL
      else if WT_CELL_TYPE b = WT_CELL_VALUE_OVFL_RM then WT_CELL_VALUE_OVFL
      else WT_CELL_TYPE b)"

definition wt_cell_type_raw :: "u8 \<Rightarrow> u8" where
  "wt_cell_type_raw b = (if WT_CELL_SHORT_TYPE b = 0 then WT_CELL_TYPE b else WT_CELL_SHORT_TYPE b)"

definition wt_cell_type_reset :: "bytes \<Rightarrow> u8 \<Rightarrow> bytes" where
  "wt_cell_type_reset cell new_type = ((hd cell AND NOT WT_CELL_TYPE_MASK) OR WT_CELL_TYPE new_type) # tl cell"

definition wt_cell_leaf_value_parse :: "bytes \<Rightarrow> nat \<Rightarrow> nat option" where
  "wt_cell_leaf_value_parse page cell =
     (if cell \<ge> length page then None
      else if wt_cell_type_raw (page ! cell) \<in>
        {WT_CELL_KEY, WT_CELL_KEY_OVFL, WT_CELL_KEY_OVFL_RM, WT_CELL_KEY_PFX, WT_CELL_KEY_SHORT, WT_CELL_KEY_SHORT_PFX}
      then None else Some cell)"

subsection \<open>Packing\<close>

text \<open>Packing ignores the return value of \<^verbatim>\<open>__wt_vpack_uint\<close>; optional fields set a flag and append a value.\<close>

definition pack_u :: "u64 \<Rightarrow> bytes" where
  "pack_u x = (case wt_vpack_uint 0 x of Inl e \<Rightarrow> [] | Inr bs \<Rightarrow> bs)"

definition put :: "bool \<Rightarrow> u8 \<Rightarrow> u64 \<Rightarrow> u8 \<times> bytes \<Rightarrow> u8 \<times> bytes" where
  "put c flag x st = (if c then (fst st OR flag, snd st @ pack_u x) else st)"

text \<open>The result is what is set in the descriptor byte, and the bytes that follow it.\<close>

definition cell_pack_value_validity :: "wt_time_window \<Rightarrow> u8 \<times> bytes" where
  "cell_pack_value_validity tw =
     (if WT_TIME_WINDOW_IS_EMPTY tw then (0, [])
      else
       let st = (0, []);
           st = put (start_ts tw \<noteq> WT_TS_NONE) WT_CELL_TS_START (start_ts tw) st;
           st = put (start_txn tw \<noteq> WT_TXN_NONE) WT_CELL_TXN_START (start_txn tw) st;
           st = put (durable_start_ts tw \<noteq> WT_TS_NONE \<and> durable_start_ts tw - start_ts tw > 0)
                  WT_CELL_TS_DURABLE_START (durable_start_ts tw - start_ts tw) st;
           st = put (stop_ts tw \<noteq> WT_TS_MAX) WT_CELL_TS_STOP (stop_ts tw - start_ts tw) st;
           st = put (stop_txn tw \<noteq> WT_TXN_MAX) WT_CELL_TXN_STOP (stop_txn tw - start_txn tw) st;
           st = put (durable_stop_ts tw \<noteq> WT_TS_NONE \<and> durable_stop_ts tw - stop_ts tw > 0)
                  WT_CELL_TS_DURABLE_STOP (durable_stop_ts tw - stop_ts tw) st;
           flags = (if tw_prepare tw \<noteq> 0 then fst st OR WT_CELL_PREPARE else fst st)
       in (WT_CELL_SECOND_DESC, flags # snd st))"

definition cell_pack_addr_validity :: "wt_time_aggregate \<Rightarrow> u8 \<times> bytes" where
  "cell_pack_addr_validity ta =
     (if WT_TIME_AGGREGATE_IS_EMPTY ta then (0, [])
      else
       let st = (0, []);
           st = put (oldest_start_ts ta \<noteq> WT_TS_NONE) WT_CELL_TS_START (oldest_start_ts ta) st;
           st = put (newest_txn ta \<noteq> WT_TXN_NONE) WT_CELL_TXN_START (newest_txn ta) st;
           st = put (newest_start_durable_ts ta \<noteq> WT_TS_NONE)
                  WT_CELL_TS_DURABLE_START (newest_start_durable_ts ta - oldest_start_ts ta) st;
           st = put (newest_stop_ts ta \<noteq> WT_TS_MAX) WT_CELL_TS_STOP (newest_stop_ts ta - oldest_start_ts ta) st;
           st = put (newest_stop_txn ta \<noteq> WT_TXN_MAX) WT_CELL_TXN_STOP (newest_stop_txn ta - newest_txn ta) st;
           st = put (newest_stop_durable_ts ta \<noteq> WT_TS_NONE)
                  WT_CELL_TS_DURABLE_STOP (newest_stop_durable_ts ta - newest_stop_ts ta) st;
           flags = (if ta_prepare ta \<noteq> 0 then fst st OR WT_CELL_PREPARE else fst st)
       in (WT_CELL_SECOND_DESC, flags # snd st))"

text \<open>A descriptor with an optional 64-bit value, the record number or the run length.\<close>

definition with_64v :: "bool \<Rightarrow> u8 \<Rightarrow> u64 \<Rightarrow> u8 \<times> bytes \<Rightarrow> bytes" where
  "with_64v c ty v st =
     (if c then (fst st OR (ty OR WT_CELL_64V)) # snd st @ pack_u v else (fst st OR ty) # snd st)"

definition wt_cell_pack_addr :: "u8 \<Rightarrow> u64 \<Rightarrow> wt_time_aggregate \<Rightarrow> nat \<Rightarrow> bytes" where
  "wt_cell_pack_addr cell_type recno ta sz =
     with_64v (recno \<noteq> 0) cell_type recno (cell_pack_addr_validity ta) @ pack_u (word_of_nat sz)"

definition wt_cell_pack_value :: "wt_time_window \<Rightarrow> u64 \<Rightarrow> nat \<Rightarrow> bytes" where
  "wt_cell_pack_value tw rle sz =
     (let st = cell_pack_value_validity tw;
          validity = (fst st AND WT_CELL_SECOND_DESC \<noteq> 0)
      in if \<not> validity \<and> rle < 2 \<and> sz \<le> WT_CELL_SHORT_MAX
         then (push_bit WT_CELL_SHORT_SHIFT (word_of_nat sz) OR WT_CELL_VALUE_SHORT) # snd st
         else if \<not> validity \<and> rle < 2
         then (fst st OR WT_CELL_VALUE) # snd st @ pack_u (word_of_nat (sz - WT_CELL_SIZE_ADJUST))
         else (fst st OR (WT_CELL_VALUE OR WT_CELL_64V)) # snd st @ pack_u rle @ pack_u (word_of_nat sz))"

definition wt_cell_pack_copy :: "wt_time_window \<Rightarrow> u64 \<Rightarrow> u64 \<Rightarrow> bytes" where
  "wt_cell_pack_copy tw rle v =
     with_64v (\<not> rle < 2) WT_CELL_VALUE_COPY rle (cell_pack_value_validity tw) @ pack_u v"

definition wt_cell_pack_del :: "wt_time_window \<Rightarrow> u64 \<Rightarrow> bytes" where
  "wt_cell_pack_del tw rle = with_64v (\<not> rle < 2) WT_CELL_DEL rle (cell_pack_value_validity tw)"

definition wt_cell_pack_int_key :: "nat \<Rightarrow> bytes" where
  "wt_cell_pack_int_key sz =
     (if sz \<le> WT_CELL_SHORT_MAX
      then [push_bit WT_CELL_SHORT_SHIFT (word_of_nat sz) OR WT_CELL_KEY_SHORT]
      else WT_CELL_KEY # pack_u (word_of_nat (sz - WT_CELL_SIZE_ADJUST)))"

definition wt_cell_pack_leaf_key :: "u8 \<Rightarrow> nat \<Rightarrow> bytes" where
  "wt_cell_pack_leaf_key pfx sz =
     (if sz \<le> WT_CELL_SHORT_MAX
      then if pfx = 0 then [push_bit WT_CELL_SHORT_SHIFT (word_of_nat sz) OR WT_CELL_KEY_SHORT]
           else [push_bit WT_CELL_SHORT_SHIFT (word_of_nat sz) OR WT_CELL_KEY_SHORT_PFX, pfx]
      else (if pfx = 0 then [WT_CELL_KEY] else [WT_CELL_KEY_PFX, pfx]) @
           pack_u (word_of_nat (sz - WT_CELL_SIZE_ADJUST)))"

text \<open>The window of \<^verbatim>\<open>__wt_cell_pack_ovfl\<close> is NULL for keys.\<close>

definition wt_cell_pack_ovfl :: "u8 \<Rightarrow> wt_time_window \<Rightarrow> u64 \<Rightarrow> nat \<Rightarrow> bytes" where
  "wt_cell_pack_ovfl ty tw rle sz =
     with_64v (\<not> rle < 2) ty rle
       (if ty = WT_CELL_VALUE_OVFL \<or> ty = WT_CELL_VALUE_OVFL_RM then cell_pack_value_validity tw else (0, [])) @
     pack_u (word_of_nat sz)"

subsection \<open>Unpacking\<close>

record wt_cell_unpack =
  u_cell :: int
  u_v :: u64
  u_data :: "nat option"
  u_size :: u32
  u_len :: u32
  u_prefix :: u8
  u_raw :: u8
  u_type :: u8
  u_flags :: u8

text \<open>
  \<^verbatim>\<open>__wt_vunpack_uint(&p, end == NULL ? 0 : WT_PTRDIFF(end, p), &v)\<close>, where \<open>p\<close> is the rest of the page: the limit is 0,
  which is no limit, without boundary checks and at the end of the page.
\<close>

definition unpack_u :: "bool \<Rightarrow> bytes \<Rightarrow> (u64 \<times> bytes) result" where
  "unpack_u chk p = wt_vunpack_uint (if chk then length p else 0) p"

definition get :: "bool \<Rightarrow> u8 \<Rightarrow> u8 \<Rightarrow> u64 \<Rightarrow> u64 \<Rightarrow> bytes \<Rightarrow> (u64 \<times> bytes) result" where
  "get chk flags flag base dflt p =
     (if flags AND flag \<noteq> 0 then WT_RET (unpack_u chk p) (\<lambda>(x, p). Inr (x + base, p)) else Inr (dflt, p))"

definition cell_check_value_validity :: "bool \<Rightarrow> 's time_session_scheme \<Rightarrow> wt_time_window \<Rightarrow> bool \<Rightarrow> unit result" where
  "cell_check_value_validity diag s tw expected_error =
     (if diag \<and> wt_time_value_validate s tw None \<noteq> Inr ()
      then Inl (if expected_error then WT_ERROR else WT_PANIC) else Inr ())"

definition wt_check_addr_validity :: "bool \<Rightarrow> 's time_session_scheme \<Rightarrow> wt_time_aggregate \<Rightarrow> bool \<Rightarrow> unit result" where
  "wt_check_addr_validity diag s ta expected_error =
     (if diag \<and> wt_time_aggregate_validate s ta None \<noteq> Inr ()
      then Inl (if expected_error then WT_ERROR else WT_PANIC) else Inr ())"

text \<open>The address and the value case of the switch that reads the validity window.\<close>

definition unpack_addr_validity ::
  "bool \<Rightarrow> bool \<Rightarrow> 's time_session_scheme \<Rightarrow> bytes \<Rightarrow> (wt_time_aggregate \<times> bytes) result" where
  "unpack_addr_validity chk diag s p =
     (case p of
        [] \<Rightarrow> Inl OOB_READ
      | flags # p \<Rightarrow>
          WT_RET (get chk flags WT_CELL_TS_START 0 WT_TS_NONE p) (\<lambda>(start, p).
          WT_RET (get chk flags WT_CELL_TXN_START 0 WT_TXN_NONE p) (\<lambda>(txn, p).
          WT_RET (get chk flags WT_CELL_TS_DURABLE_START start WT_TS_NONE p) (\<lambda>(durable, p).
          WT_RET (get chk flags WT_CELL_TS_STOP start WT_TS_MAX p) (\<lambda>(stop, p).
          WT_RET (get chk flags WT_CELL_TXN_STOP txn WT_TXN_MAX p) (\<lambda>(stxn, p).
          WT_RET (get chk flags WT_CELL_TS_DURABLE_STOP stop WT_TS_NONE p) (\<lambda>(sdurable, p).
          let ta = \<lparr>newest_start_durable_ts = durable, newest_stop_durable_ts = sdurable, oldest_start_ts = start,
                    newest_txn = txn, newest_stop_ts = stop, newest_stop_txn = stxn,
                    ta_prepare = (if flags AND WT_CELL_PREPARE \<noteq> 0 then 1 else 0), init_merge = 0\<rparr>
          in WT_RET (wt_check_addr_validity diag s ta chk) (\<lambda>_. Inr (ta, p)))))))))"

definition unpack_value_validity ::
  "bool \<Rightarrow> bool \<Rightarrow> 's time_session_scheme \<Rightarrow> bytes \<Rightarrow> (wt_time_window \<times> bytes) result" where
  "unpack_value_validity chk diag s p =
     (case p of
        [] \<Rightarrow> Inl OOB_READ
      | flags # p \<Rightarrow>
          WT_RET (get chk flags WT_CELL_TS_START 0 WT_TS_NONE p) (\<lambda>(start, p).
          WT_RET (get chk flags WT_CELL_TXN_START 0 WT_TXN_NONE p) (\<lambda>(txn, p).
          WT_RET (get chk flags WT_CELL_TS_DURABLE_START start start p) (\<lambda>(durable, p).
          WT_RET (get chk flags WT_CELL_TS_STOP start WT_TS_MAX p) (\<lambda>(stop, p).
          WT_RET (get chk flags WT_CELL_TXN_STOP txn WT_TXN_MAX p) (\<lambda>(stxn, p).
          WT_RET (get chk flags WT_CELL_TS_DURABLE_STOP stop (if stop \<noteq> WT_TS_MAX then stop else WT_TS_NONE) p) (\<lambda>(sdurable, p).
          let tw = \<lparr>durable_start_ts = durable, start_ts = start, start_txn = txn, durable_stop_ts = sdurable,
                    stop_ts = stop, stop_txn = stxn,
                    tw_prepare = (if flags AND WT_CELL_PREPARE \<noteq> 0 then 1 else 0)\<rparr>
          in WT_RET (cell_check_value_validity diag s tw chk) (\<lambda>_. Inr (tw, p)))))))))"

definition addr_types :: "u8 list" where
  "addr_types = [WT_CELL_ADDR_DEL, WT_CELL_ADDR_INT, WT_CELL_ADDR_LEAF, WT_CELL_ADDR_LEAF_NO]"

definition value_types :: "u8 list" where
  "value_types = [WT_CELL_DEL, WT_CELL_VALUE, WT_CELL_VALUE_COPY, WT_CELL_VALUE_OVFL, WT_CELL_VALUE_OVFL_RM]"

definition ovfl_types :: "u8 list" where
  "ovfl_types = [WT_CELL_KEY_OVFL, WT_CELL_KEY_OVFL_RM, WT_CELL_VALUE_OVFL, WT_CELL_VALUE_OVFL_RM]"

text \<open>What is unpacked: an address cell or a key or value cell, and the windows of both kinds.\<close>

datatype cell_window = Addr_window wt_time_aggregate | Kv_window wt_time_window

text \<open>
  One pass over a cell: it is unpacked, or it is a copy cell, with its window, its run length, its length and
  the distance back to the cell it refers to.
\<close>

datatype cell_pass =
    Cell_done wt_cell_unpack cell_window
  | Cell_copy cell_window u64 u32 u64

definition WT_CELL_LEN_CHK :: "bool \<Rightarrow> bytes \<Rightarrow> int \<Rightarrow> nat \<Rightarrow> unit result" where
  "WT_CELL_LEN_CHK chk page t len =
     (if chk \<and> (t < 0 \<or> t + int len > int (length page)) then Inl WT_ERROR else Inr ())"

text \<open>The cells without run length, window and data length.\<close>

definition unpack_short :: "bool \<Rightarrow> bytes \<Rightarrow> int \<Rightarrow> wt_cell_unpack \<Rightarrow> u8 \<Rightarrow> bytes \<Rightarrow> wt_cell_unpack result" where
  "unpack_short chk page cell u b0 p =
     (let sz = drop_bit WT_CELL_SHORT_SHIFT (ucast b0) in
      if u_raw u = WT_CELL_KEY_SHORT_PFX
      then WT_RET (WT_CELL_LEN_CHK chk page cell 1) (\<lambda>_.
           case p of [] \<Rightarrow> Inl OOB_READ
           | pfx # _ \<Rightarrow> Inr (u\<lparr>u_prefix := pfx, u_data := Some (nat cell + 2), u_size := sz, u_len := 2 + sz\<rparr>))
      else Inr (u\<lparr>u_prefix := 0, u_data := Some (nat cell + 1), u_size := sz, u_len := 1 + sz\<rparr>))"

text \<open>The validity window of a cell of type \<open>raw\<close>, if there is one.\<close>

definition unpack_window ::
  "bool \<Rightarrow> bool \<Rightarrow> 's time_session_scheme \<Rightarrow> bool \<Rightarrow> u8 \<Rightarrow> u8 \<Rightarrow> bytes \<Rightarrow> (cell_window \<times> bytes) result" where
  "unpack_window chk diag s is_addr raw b0 p =
     (let dflt = (if is_addr then Addr_window WT_TIME_AGGREGATE_INIT else Kv_window WT_TIME_WINDOW_INIT) in
      if raw \<in> set addr_types
      then if \<not> is_addr then Inl WT_ERROR
           else if b0 AND WT_CELL_SECOND_DESC = 0 then Inr (dflt, p)
           else WT_RET (unpack_addr_validity chk diag s p) (\<lambda>(ta, p). Inr (Addr_window ta, p))
      else if raw \<in> set value_types
      then if is_addr then Inl WT_ERROR
           else if b0 AND WT_CELL_SECOND_DESC = 0 then Inr (dflt, p)
           else WT_RET (unpack_value_validity chk diag s p) (\<lambda>(tw, p). Inr (Kv_window tw, p))
      else Inr (dflt, p))"

text \<open>The last switch: copy cells, cells with a data length and deleted cells.\<close>

definition unpack_length ::
  "bool \<Rightarrow> bool \<Rightarrow> bytes \<Rightarrow> int \<Rightarrow> u8 \<Rightarrow> wt_cell_unpack \<Rightarrow> cell_window \<Rightarrow> bytes \<Rightarrow> cell_pass result" where
  "unpack_length chk is_addr page cell b0 u w p =
     (let ptrdiff = (\<lambda>p. word_of_nat (length page - length p) - word_of_int cell :: u32) in
      if u_raw u = WT_CELL_VALUE_COPY
      then if is_addr then Inl WT_ERROR
           else WT_RET (unpack_u chk p) (\<lambda>(v, p). Inr (Cell_copy w (u_v u) (ptrdiff p) v))
      else if u_raw u \<in> set ovfl_types \<or> u_raw u \<in> set addr_types \<or>
              u_raw u = WT_CELL_KEY \<or> u_raw u = WT_CELL_KEY_PFX \<or> u_raw u = WT_CELL_VALUE
      then WT_RET (unpack_u chk p) (\<lambda>(v, p).
           let v = (if u_raw u = WT_CELL_KEY \<or> u_raw u = WT_CELL_KEY_PFX \<or>
                       u_raw u = WT_CELL_VALUE \<and> u_v u = 0 \<and> b0 AND WT_CELL_SECOND_DESC = 0
                    then v + word_of_nat WT_CELL_SIZE_ADJUST else v)
           in Inr (Cell_done (u\<lparr>u_flags := (if u_raw u \<in> set ovfl_types then WT_CELL_UNPACK_OVERFLOW else 0),
                                u_data := Some (length page - length p), u_size := ucast v,
                                u_len := ptrdiff p + ucast v\<rparr>) w))
      else if u_raw u = WT_CELL_DEL then Inr (Cell_done (u\<lparr>u_len := ptrdiff p\<rparr>) w)
      else Inl WT_ERROR)"

definition unpack_pass ::
  "bool \<Rightarrow> bool \<Rightarrow> 's time_session_scheme \<Rightarrow> bool \<Rightarrow> bytes \<Rightarrow> int \<Rightarrow> int \<Rightarrow> cell_pass result" where
  "unpack_pass chk diag s is_addr page cell0 cell =
     WT_RET (WT_CELL_LEN_CHK chk page cell 0) (\<lambda>_.
     if cell < 0 then Inl OOB_READ
     else case drop (nat cell) page of
       [] \<Rightarrow> Inl OOB_READ
     | b0 # p \<Rightarrow>
         let u = \<lparr>u_cell = cell0, u_v = 0, u_data = None, u_size = 0, u_len = 0, u_prefix = 0,
                  u_raw = wt_cell_type_raw b0, u_type = wt_cell_type b0, u_flags = 0\<rparr> in
         if u_raw u = WT_CELL_KEY_SHORT_PFX \<or> u_raw u = WT_CELL_KEY_SHORT \<or> u_raw u = WT_CELL_VALUE_SHORT
         then WT_RET (unpack_short chk page cell u b0 p) (\<lambda>u. Inr (Cell_done u
                (if is_addr then Addr_window WT_TIME_AGGREGATE_INIT else Kv_window WT_TIME_WINDOW_INIT)))
         else
          WT_RET (if u_raw u = WT_CELL_KEY_PFX
                  then (case p of [] \<Rightarrow> Inl OOB_READ
                        | pfx # p \<Rightarrow> WT_RET (WT_CELL_LEN_CHK chk page (int (length page - length p)) 0)
                                          (\<lambda>_. Inr (pfx, p)))
                  else Inr (0, p)) (\<lambda>(pfx, p).
          WT_RET (unpack_window chk diag s is_addr (u_raw u) b0 p) (\<lambda>(w, p).
          WT_RET (if b0 AND WT_CELL_64V \<noteq> 0 then unpack_u chk p else Inr (0, p)) (\<lambda>(v, p).
            unpack_length chk is_addr page cell b0 (u\<lparr>u_prefix := pfx, u_v := v\<rparr>) w p))))"

text \<open>
  \<^verbatim>\<open>__wt_cell_unpack_safe\<close> restarts at the cell a copy cell refers to, keeping the window of the first cell and the
  run length and length of the last copy cell. \<open>None\<close> is a run that has not ended after \<open>n\<close> restarts.
\<close>

fun unpack_restart ::
  "nat \<Rightarrow> bool \<Rightarrow> bool \<Rightarrow> 's time_session_scheme \<Rightarrow> bool \<Rightarrow> bytes \<Rightarrow> int \<Rightarrow> int \<Rightarrow>
     (cell_window \<times> u64 \<times> u32) option \<Rightarrow> (wt_cell_unpack \<times> cell_window) result option" where
  "unpack_restart n chk diag s is_addr page cell0 cell copy =
     (case unpack_pass chk diag s is_addr page cell0 cell of
        Inl e \<Rightarrow> Some (Inl e)
      | Inr (Cell_done u w) \<Rightarrow>
          (let (u, w) = (case copy of
                 None \<Rightarrow> (u, w)
               | Some (w0, v, len) \<Rightarrow> (u\<lparr>u_v := v, u_len := len, u_raw := WT_CELL_VALUE_COPY\<rparr>, w0))
           in Some (WT_RET (WT_CELL_LEN_CHK chk page cell (unat (u_len u))) (\<lambda>_. Inr (u, w))))
      | Inr (Cell_copy w v len dist) \<Rightarrow>
          (case n of
             0 \<Rightarrow> None
           | Suc m \<Rightarrow>
               unpack_restart m chk diag s is_addr page cell0 (cell - uint dist)
                 (Some (case copy of None \<Rightarrow> w | Some (w0, _) \<Rightarrow> w0, v, len))))"

definition wt_cell_unpack_safe ::
  "nat \<Rightarrow> bool \<Rightarrow> bool \<Rightarrow> 's time_session_scheme \<Rightarrow> bool \<Rightarrow> bytes \<Rightarrow> nat \<Rightarrow>
     (wt_cell_unpack \<times> cell_window) result option" where
  "wt_cell_unpack_safe n chk diag s is_addr page cell =
     unpack_restart n chk diag s is_addr page (int cell) (int cell) None"

definition wt_cell_rle :: "wt_cell_unpack \<Rightarrow> u64" where
  "wt_cell_rle u = (if u_v u < 2 then 1 else u_v u)"

text \<open>
  \<^verbatim>\<open>__wt_cell_pack_value_match\<close> reads the length stored in a value cell, skipping its window and run length; \<open>None\<close>
  is a cell of another type.
\<close>

definition skip_u :: "bool \<Rightarrow> bytes \<Rightarrow> bytes result" where
  "skip_u c a = (if c then WT_RET (wt_vunpack_uint 0 a) (\<lambda>(_, a). Inr a) else Inr a)"

definition match_window :: "bytes \<Rightarrow> bytes result" where
  "match_window a =
     (case a of
        [] \<Rightarrow> Inl OOB_READ
      | flags # a \<Rightarrow>
          WT_RET (skip_u (flags AND WT_CELL_TS_DURABLE_START \<noteq> 0) a) (\<lambda>a.
          WT_RET (skip_u (flags AND WT_CELL_TS_DURABLE_STOP \<noteq> 0) a) (\<lambda>a.
          WT_RET (skip_u (flags AND WT_CELL_TS_START \<noteq> 0) a) (\<lambda>a.
          WT_RET (skip_u (flags AND WT_CELL_TS_STOP \<noteq> 0) a) (\<lambda>a.
          WT_RET (skip_u (flags AND WT_CELL_TXN_START \<noteq> 0) a) (\<lambda>a.
          skip_u (flags AND WT_CELL_TXN_STOP \<noteq> 0) a))))))"

definition match_len :: "bytes \<Rightarrow> (u64 \<times> bytes) option result" where
  "match_len a =
     (case a of
        [] \<Rightarrow> Inl OOB_READ
      | b0 # a \<Rightarrow>
          if WT_CELL_SHORT_TYPE b0 = WT_CELL_VALUE_SHORT then Inr (Some (ucast (drop_bit WT_CELL_SHORT_SHIFT b0), a))
          else if WT_CELL_TYPE b0 = WT_CELL_VALUE then
            WT_RET (if b0 AND WT_CELL_SECOND_DESC = 0 then Inr a else match_window a) (\<lambda>a.
            WT_RET (skip_u (b0 AND WT_CELL_64V \<noteq> 0) a) (\<lambda>a.
            WT_RET (wt_vunpack_uint 0 a) (\<lambda>(len, a). Inr (Some (len, a)))))
          else Inr None)"

definition wt_cell_pack_value_match :: "bytes \<Rightarrow> bytes \<Rightarrow> bytes \<Rightarrow> bool result" where
  "wt_cell_pack_value_match page_cell val_cell val_data =
     WT_RET (match_len page_cell) (\<lambda>ra. case ra of None \<Rightarrow> Inr False | Some (alen, a) \<Rightarrow>
     WT_RET (match_len val_cell) (\<lambda>rb. case rb of None \<Rightarrow> Inr False | Some (blen, _) \<Rightarrow>
       if alen \<noteq> blen then Inr False
       else if length a < unat alen \<or> length val_data < unat alen then Inl OOB_READ
       else Inr (take (unat alen) a = take (unat alen) val_data)))"

subsection \<open>Cells of a previous run\<close>

definition cell_addr_window_cleanup :: "wt_time_aggregate \<Rightarrow> u8 \<Rightarrow> wt_time_aggregate \<times> u8" where
  "cell_addr_window_cleanup ta flags =
     (let (ta, flags) =
        (if newest_txn ta \<noteq> WT_TXN_NONE
         then (ta\<lparr>newest_txn := WT_TXN_NONE\<rparr>, flags OR WT_CELL_UNPACK_TIME_WINDOW_CLEARED) else (ta, flags))
      in if newest_stop_txn ta \<noteq> WT_TXN_MAX
         then (ta\<lparr>newest_stop_txn := WT_TXN_NONE,
                  newest_stop_ts := (if newest_stop_ts ta = WT_TS_MAX then WT_TS_NONE else newest_stop_ts ta)\<rparr>,
               flags OR WT_CELL_UNPACK_TIME_WINDOW_CLEARED)
         else (ta, flags))"

definition cell_kv_window_cleanup :: "wt_time_window \<Rightarrow> u8 \<Rightarrow> wt_time_window \<times> u8" where
  "cell_kv_window_cleanup tw flags =
     (let (tw, flags) =
        (if start_txn tw \<noteq> WT_TXN_NONE
         then (tw\<lparr>start_txn := WT_TXN_NONE\<rparr>, flags OR WT_CELL_UNPACK_TIME_WINDOW_CLEARED) else (tw, flags))
      in if stop_txn tw \<noteq> WT_TXN_MAX
         then (tw\<lparr>stop_txn := WT_TXN_NONE, stop_ts := (if stop_ts tw = WT_TS_MAX then WT_TS_NONE else stop_ts tw)\<rparr>,
               flags OR WT_CELL_UNPACK_TIME_WINDOW_CLEARED)
         else (tw, flags))"

text \<open>\<^verbatim>\<open>write_gen\<close> of the page against the tree's \<^verbatim>\<open>base_write_gen\<close> tells a page of a previous run.\<close>

definition cell_unpack_window_cleanup ::
  "u64 \<Rightarrow> u64 \<Rightarrow> wt_cell_unpack \<times> cell_window \<Rightarrow> wt_cell_unpack \<times> cell_window" where
  "cell_unpack_window_cleanup write_gen base_write_gen r =
     (if write_gen > base_write_gen then r
      else case r of
        (u, Addr_window ta) \<Rightarrow>
          (case cell_addr_window_cleanup ta (u_flags u) of (ta, f) \<Rightarrow> (u\<lparr>u_flags := f\<rparr>, Addr_window ta))
      | (u, Kv_window tw) \<Rightarrow>
          (case cell_kv_window_cleanup tw (u_flags u) of (tw, f) \<Rightarrow> (u\<lparr>u_flags := f\<rparr>, Kv_window tw)))"

definition wt_cell_unpack_addr ::
  "nat \<Rightarrow> bool \<Rightarrow> 's time_session_scheme \<Rightarrow> u64 \<Rightarrow> u64 \<Rightarrow> bytes \<Rightarrow> nat \<Rightarrow> (wt_cell_unpack \<times> cell_window) result option" where
  "wt_cell_unpack_addr n diag s write_gen base page cell =
     map_option (map_sum id (cell_unpack_window_cleanup write_gen base)) (wt_cell_unpack_safe n False diag s True page cell)"

definition wt_cell_unpack_kv ::
  "nat \<Rightarrow> bool \<Rightarrow> 's time_session_scheme \<Rightarrow> u64 \<Rightarrow> u64 \<Rightarrow> bytes \<Rightarrow> nat option \<Rightarrow> (wt_cell_unpack \<times> cell_window) result option" where
  "wt_cell_unpack_kv n diag s write_gen base page cell =
     (case cell of
        None \<Rightarrow>
          Some (Inr (\<lparr>u_cell = 0, u_v = 0, u_data = None, u_size = 0, u_len = 0, u_prefix = 0,
                      u_raw = WT_CELL_VALUE, u_type = WT_CELL_VALUE, u_flags = 0\<rparr>, Kv_window WT_TIME_WINDOW_INIT))
      | Some c \<Rightarrow>
          map_option (map_sum id (cell_unpack_window_cleanup write_gen base)) (wt_cell_unpack_safe n False diag s False page c))"

subsection \<open>Fields\<close>

lemma pack_u_bytes: "pack_u x = uint_bytes x"
  by (simp add: pack_u_def vpack_uint_bytes)

lemma unpack_pack_u [simp]: "unpack_u chk (pack_u x @ rest) = Inr (x, rest)"
  by (simp add: unpack_u_def pack_u_bytes vunpack_uint_bytes)

lemma get_put_field:
  "(flags AND flag \<noteq> 0) = c \<Longrightarrow>
   get chk flags flag base dflt ((if c then pack_u x else []) @ rest) = Inr (if c then x + base else dflt, rest)"
  by (auto simp: get_def)

text \<open>The bytes of the six optional fields and the flags that announce them.\<close>

definition field_flags :: "bool \<Rightarrow> bool \<Rightarrow> bool \<Rightarrow> bool \<Rightarrow> bool \<Rightarrow> bool \<Rightarrow> bool \<Rightarrow> u8" where
  "field_flags c1 c2 c3 c4 c5 c6 pr =
     (if c1 then WT_CELL_TS_START else 0) OR (if c2 then WT_CELL_TXN_START else 0) OR
     (if c3 then WT_CELL_TS_DURABLE_START else 0) OR (if c4 then WT_CELL_TS_STOP else 0) OR
     (if c5 then WT_CELL_TXN_STOP else 0) OR (if c6 then WT_CELL_TS_DURABLE_STOP else 0) OR
     (if pr then WT_CELL_PREPARE else 0)"

lemmas cell_flags = WT_CELL_TS_START_def WT_CELL_TXN_START_def WT_CELL_TS_DURABLE_START_def WT_CELL_TS_STOP_def
  WT_CELL_TXN_STOP_def WT_CELL_TS_DURABLE_STOP_def WT_CELL_PREPARE_def

lemma field_flags_test:
  "(field_flags c1 c2 c3 c4 c5 c6 pr AND WT_CELL_TS_START \<noteq> 0) = c1"
  "(field_flags c1 c2 c3 c4 c5 c6 pr AND WT_CELL_TXN_START \<noteq> 0) = c2"
  "(field_flags c1 c2 c3 c4 c5 c6 pr AND WT_CELL_TS_DURABLE_START \<noteq> 0) = c3"
  "(field_flags c1 c2 c3 c4 c5 c6 pr AND WT_CELL_TS_STOP \<noteq> 0) = c4"
  "(field_flags c1 c2 c3 c4 c5 c6 pr AND WT_CELL_TXN_STOP \<noteq> 0) = c5"
  "(field_flags c1 c2 c3 c4 c5 c6 pr AND WT_CELL_TS_DURABLE_STOP \<noteq> 0) = c6"
  "(field_flags c1 c2 c3 c4 c5 c6 pr AND WT_CELL_PREPARE \<noteq> 0) = pr"
  by (simp_all add: field_flags_def cell_flags bit.conj_disj_distrib2)

lemma put_chain:
  "(let st = (0, []); st = put c1 WT_CELL_TS_START x1 st; st = put c2 WT_CELL_TXN_START x2 st;
        st = put c3 WT_CELL_TS_DURABLE_START x3 st; st = put c4 WT_CELL_TS_STOP x4 st;
        st = put c5 WT_CELL_TXN_STOP x5 st; st = put c6 WT_CELL_TS_DURABLE_STOP x6 st;
        flags = (if pr then fst st OR WT_CELL_PREPARE else fst st)
    in (d, flags # snd st)) =
   (d, field_flags c1 c2 c3 c4 c5 c6 pr # (if c1 then pack_u x1 else []) @ (if c2 then pack_u x2 else []) @
     (if c3 then pack_u x3 else []) @ (if c4 then pack_u x4 else []) @ (if c5 then pack_u x5 else []) @
     (if c6 then pack_u x6 else []))"
  by (simp add: put_def field_flags_def Let_def or.assoc)

text \<open>
  A window that the cell format can hold: valid, with a prepare flag of 0 or 1, and without the maximal
  timestamp as its durable stop timestamp.
\<close>

definition storable_window :: "wt_time_window \<Rightarrow> bool" where
  "storable_window tw \<longleftrightarrow> start_ts tw \<le> durable_start_ts tw \<and> (stop_ts tw \<noteq> WT_TS_MAX \<longrightarrow> stop_ts tw \<le> durable_stop_ts tw) \<and>
     durable_stop_ts tw \<noteq> WT_TS_MAX \<and> tw_prepare tw \<le> 1"

definition storable_aggregate :: "wt_time_aggregate \<Rightarrow> bool" where
  "storable_aggregate ta \<longleftrightarrow> init_merge ta = 0 \<and> ta_prepare ta \<le> 1"

lemma prepare_bit: "x \<le> 1 \<Longrightarrow> (if x \<noteq> 0 then 1 else 0) = (x :: u8)"
  by (auto simp: word_le_nat_alt le_Suc_eq word_unat_eq_iff)

lemma word_diff_pos: "(0 < x - y) = (x \<noteq> (y :: u64))"
  by (simp add: word_greater_zero_iff)

lemma value_validity_fields:
  "\<not> WT_TIME_WINDOW_IS_EMPTY tw \<Longrightarrow> cell_pack_value_validity tw =
   (let c1 = start_ts tw \<noteq> WT_TS_NONE; c2 = start_txn tw \<noteq> WT_TXN_NONE;
        c3 = durable_start_ts tw \<noteq> WT_TS_NONE \<and> durable_start_ts tw \<noteq> start_ts tw;
        c4 = stop_ts tw \<noteq> WT_TS_MAX; c5 = stop_txn tw \<noteq> WT_TXN_MAX;
        c6 = durable_stop_ts tw \<noteq> WT_TS_NONE \<and> durable_stop_ts tw \<noteq> stop_ts tw
    in (WT_CELL_SECOND_DESC, field_flags c1 c2 c3 c4 c5 c6 (tw_prepare tw \<noteq> 0) # (if c1 then pack_u (start_ts tw) else []) @
      (if c2 then pack_u (start_txn tw) else []) @ (if c3 then pack_u (durable_start_ts tw - start_ts tw) else []) @
      (if c4 then pack_u (stop_ts tw - start_ts tw) else []) @ (if c5 then pack_u (stop_txn tw - start_txn tw) else []) @
      (if c6 then pack_u (durable_stop_ts tw - stop_ts tw) else [])))"
  unfolding cell_pack_value_validity_def word_diff_pos put_chain by (simp only: Let_def if_False)

lemma addr_validity_fields:
  "\<not> WT_TIME_AGGREGATE_IS_EMPTY ta \<Longrightarrow> cell_pack_addr_validity ta =
   (let c1 = oldest_start_ts ta \<noteq> WT_TS_NONE; c2 = newest_txn ta \<noteq> WT_TXN_NONE; c3 = newest_start_durable_ts ta \<noteq> WT_TS_NONE;
        c4 = newest_stop_ts ta \<noteq> WT_TS_MAX; c5 = newest_stop_txn ta \<noteq> WT_TXN_MAX; c6 = newest_stop_durable_ts ta \<noteq> WT_TS_NONE
    in (WT_CELL_SECOND_DESC, field_flags c1 c2 c3 c4 c5 c6 (ta_prepare ta \<noteq> 0) # (if c1 then pack_u (oldest_start_ts ta) else []) @
      (if c2 then pack_u (newest_txn ta) else []) @ (if c3 then pack_u (newest_start_durable_ts ta - oldest_start_ts ta) else []) @
      (if c4 then pack_u (newest_stop_ts ta - oldest_start_ts ta) else []) @ (if c5 then pack_u (newest_stop_txn ta - newest_txn ta) else []) @
      (if c6 then pack_u (newest_stop_durable_ts ta - newest_stop_ts ta) else [])))"
  unfolding cell_pack_addr_validity_def put_chain by (simp only: Let_def if_False)

lemma unpack_value_fields:
  "unpack_value_validity chk diag s (field_flags c1 c2 c3 c4 c5 c6 pr # (if c1 then pack_u x1 else []) @ (if c2 then pack_u x2 else []) @
     (if c3 then pack_u x3 else []) @ (if c4 then pack_u x4 else []) @ (if c5 then pack_u x5 else []) @ (if c6 then pack_u x6 else []) @ rest) =
   (let start = (if c1 then x1 else WT_TS_NONE); txn = (if c2 then x2 else WT_TXN_NONE); durable = (if c3 then x3 + start else start);
        stop = (if c4 then x4 + start else WT_TS_MAX); stxn = (if c5 then x5 + txn else WT_TXN_MAX);
        sdurable = (if c6 then x6 + stop else if stop \<noteq> WT_TS_MAX then stop else WT_TS_NONE);
        tw = \<lparr>durable_start_ts = durable, start_ts = start, start_txn = txn, durable_stop_ts = sdurable, stop_ts = stop, stop_txn = stxn,
              tw_prepare = (if pr then 1 else 0)\<rparr>
    in WT_RET (cell_check_value_validity diag s tw chk) (\<lambda>_. Inr (tw, rest)))"
  unfolding unpack_value_validity_def
  by (simp add: get_put_field [OF field_flags_test(1)] get_put_field [OF field_flags_test(2)] get_put_field [OF field_flags_test(3)]
      get_put_field [OF field_flags_test(4)] get_put_field [OF field_flags_test(5)] get_put_field [OF field_flags_test(6)] field_flags_test(7) Let_def)

lemma unpack_addr_fields:
  "unpack_addr_validity chk diag s (field_flags c1 c2 c3 c4 c5 c6 pr # (if c1 then pack_u x1 else []) @ (if c2 then pack_u x2 else []) @
     (if c3 then pack_u x3 else []) @ (if c4 then pack_u x4 else []) @ (if c5 then pack_u x5 else []) @ (if c6 then pack_u x6 else []) @ rest) =
   (let start = (if c1 then x1 else WT_TS_NONE); txn = (if c2 then x2 else WT_TXN_NONE); durable = (if c3 then x3 + start else WT_TS_NONE);
        stop = (if c4 then x4 + start else WT_TS_MAX); stxn = (if c5 then x5 + txn else WT_TXN_MAX);
        sdurable = (if c6 then x6 + stop else WT_TS_NONE);
        ta = \<lparr>newest_start_durable_ts = durable, newest_stop_durable_ts = sdurable, oldest_start_ts = start,
              newest_txn = txn, newest_stop_ts = stop, newest_stop_txn = stxn, ta_prepare = (if pr then 1 else 0), init_merge = 0\<rparr>
    in WT_RET (wt_check_addr_validity diag s ta chk) (\<lambda>_. Inr (ta, rest)))"
  unfolding unpack_addr_validity_def
  by (simp add: get_put_field [OF field_flags_test(1)] get_put_field [OF field_flags_test(2)] get_put_field [OF field_flags_test(3)]
      get_put_field [OF field_flags_test(4)] get_put_field [OF field_flags_test(5)] get_put_field [OF field_flags_test(6)] field_flags_test(7) Let_def)

lemma unpack_pack_value_validity:
  assumes "storable_window tw" "\<not> WT_TIME_WINDOW_IS_EMPTY tw" "diag \<longrightarrow> wt_time_value_validate s tw None = Inr ()"
  shows "unpack_value_validity chk diag s (snd (cell_pack_value_validity tw) @ rest) = Inr (tw, rest)"
proof -
  have st: "(if start_ts tw \<noteq> WT_TS_NONE then start_ts tw else WT_TS_NONE) = start_ts tw"
    "(if start_txn tw \<noteq> WT_TXN_NONE then start_txn tw else WT_TXN_NONE) = start_txn tw"
    "(if stop_ts tw \<noteq> WT_TS_MAX then stop_ts tw - start_ts tw + start_ts tw else WT_TS_MAX) = stop_ts tw"
    "(if stop_txn tw \<noteq> WT_TXN_MAX then stop_txn tw - start_txn tw + start_txn tw else WT_TXN_MAX) = stop_txn tw"
    by simp_all
  have d: "(if durable_start_ts tw \<noteq> WT_TS_NONE \<and> durable_start_ts tw \<noteq> start_ts tw then durable_start_ts tw - start_ts tw + start_ts tw
      else start_ts tw) = durable_start_ts tw"
    using assms(1) by (auto simp: storable_window_def WT_TS_NONE_def)
  have e: "(if durable_stop_ts tw \<noteq> WT_TS_NONE \<and> durable_stop_ts tw \<noteq> stop_ts tw then durable_stop_ts tw - stop_ts tw + stop_ts tw
      else if stop_ts tw \<noteq> WT_TS_MAX then stop_ts tw else WT_TS_NONE) = durable_stop_ts tw"
    using assms(1) by (auto simp: storable_window_def WT_TS_NONE_def)
  have p: "(if tw_prepare tw \<noteq> 0 then 1 else 0) = tw_prepare tw" using assms(1) by (intro prepare_bit) (simp add: storable_window_def)
  have r: "tw = \<lparr>durable_start_ts = durable_start_ts tw, start_ts = start_ts tw, start_txn = start_txn tw,
      durable_stop_ts = durable_stop_ts tw, stop_ts = stop_ts tw, stop_txn = stop_txn tw, tw_prepare = tw_prepare tw\<rparr>" by simp
  have c: "cell_check_value_validity diag s tw chk = Inr ()" using assms(3) by (simp add: cell_check_value_validity_def)
  show ?thesis
    unfolding value_validity_fields [OF assms(2)] Let_def snd_conv append_Cons append_assoc unpack_value_fields st d e p r [symmetric]
    using c by simp
qed

lemma unpack_pack_addr_validity:
  assumes "storable_aggregate ta" "\<not> WT_TIME_AGGREGATE_IS_EMPTY ta" "diag \<longrightarrow> wt_time_aggregate_validate s ta None = Inr ()"
  shows "unpack_addr_validity chk diag s (snd (cell_pack_addr_validity ta) @ rest) = Inr (ta, rest)"
proof -
  have st: "(if oldest_start_ts ta \<noteq> WT_TS_NONE then oldest_start_ts ta else WT_TS_NONE) = oldest_start_ts ta"
    "(if newest_txn ta \<noteq> WT_TXN_NONE then newest_txn ta else WT_TXN_NONE) = newest_txn ta"
    "(if newest_start_durable_ts ta \<noteq> WT_TS_NONE then newest_start_durable_ts ta - oldest_start_ts ta + oldest_start_ts ta else WT_TS_NONE) = newest_start_durable_ts ta"
    "(if newest_stop_ts ta \<noteq> WT_TS_MAX then newest_stop_ts ta - oldest_start_ts ta + oldest_start_ts ta else WT_TS_MAX) = newest_stop_ts ta"
    "(if newest_stop_txn ta \<noteq> WT_TXN_MAX then newest_stop_txn ta - newest_txn ta + newest_txn ta else WT_TXN_MAX) = newest_stop_txn ta"
    "(if newest_stop_durable_ts ta \<noteq> WT_TS_NONE then newest_stop_durable_ts ta - newest_stop_ts ta + newest_stop_ts ta else WT_TS_NONE) = newest_stop_durable_ts ta"
    by simp_all
  have p: "(if ta_prepare ta \<noteq> 0 then 1 else 0) = ta_prepare ta" using assms(1) by (intro prepare_bit) (simp add: storable_aggregate_def)
  have r: "ta = \<lparr>newest_start_durable_ts = newest_start_durable_ts ta, newest_stop_durable_ts = newest_stop_durable_ts ta, oldest_start_ts = oldest_start_ts ta,
      newest_txn = newest_txn ta, newest_stop_ts = newest_stop_ts ta, newest_stop_txn = newest_stop_txn ta, ta_prepare = ta_prepare ta, init_merge = 0\<rparr>"
    using assms(1) by (simp add: storable_aggregate_def)
  have c: "wt_check_addr_validity diag s ta chk = Inr ()" using assms(3) by (simp add: wt_check_addr_validity_def)
  show ?thesis
    unfolding addr_validity_fields [OF assms(2)] Let_def snd_conv append_Cons append_assoc unpack_addr_fields st p r [symmetric]
    using c by simp
qed

end
