(* ===== verification/Cell_Unpack.thy ===== *)
theory Cell_Unpack
  imports Cell
begin

text \<open>
  Whole cells on a page: unpacking what the packing functions of \<^verbatim>\<open>src/src/include/cell_inline.h\<close> wrote gives
  back its window, run length or record number and data, copy cells give the data of the cell they refer to, and
  the restarts at copied cells end unless a cell is a copy of itself.
\<close>

unbundle bit_operations_syntax

subsection \<open>One pass over a cell\<close>

definition long_types :: "u8 list" where
  "long_types = addr_types @ value_types @ ovfl_types @ [WT_CELL_KEY, WT_CELL_KEY_PFX]"

lemma desc_byte:
  assumes "ty \<in> set long_types" "d \<in> {0, WT_CELL_SECOND_DESC}" "v \<in> {0, WT_CELL_64V}"
  shows "wt_cell_type_raw (d OR (ty OR v)) = ty" "wt_cell_type (d OR (ty OR v)) = wt_cell_type ty"
    "((d OR (ty OR v)) AND WT_CELL_SECOND_DESC = 0) = (d = 0)" "((d OR (ty OR v)) AND WT_CELL_64V \<noteq> 0) = (v \<noteq> 0)"
    "ty \<notin> {WT_CELL_KEY_SHORT_PFX, WT_CELL_KEY_SHORT, WT_CELL_VALUE_SHORT}"
proof -
  define P where "P = (\<lambda>ty d v. wt_cell_type_raw (d OR (ty OR v)) = ty \<and> wt_cell_type (d OR (ty OR v)) = wt_cell_type ty \<and>
    ((d OR (ty OR v)) AND WT_CELL_SECOND_DESC = 0) = (d = 0) \<and> ((d OR (ty OR v)) AND WT_CELL_64V \<noteq> 0) = (v \<noteq> 0) \<and>
    ty \<notin> {WT_CELL_KEY_SHORT_PFX, WT_CELL_KEY_SHORT, WT_CELL_VALUE_SHORT})"
  have "list_all (\<lambda>ty. list_all (\<lambda>d. list_all (P ty d) [0, WT_CELL_64V]) [0, WT_CELL_SECOND_DESC]) long_types"
    unfolding P_def by code_simp
  then have "P ty d v" using assms by (simp add: list_all_iff) blast
  then show "wt_cell_type_raw (d OR (ty OR v)) = ty" "wt_cell_type (d OR (ty OR v)) = wt_cell_type ty"
    "((d OR (ty OR v)) AND WT_CELL_SECOND_DESC = 0) = (d = 0)" "((d OR (ty OR v)) AND WT_CELL_64V \<noteq> 0) = (v \<noteq> 0)"
    "ty \<notin> {WT_CELL_KEY_SHORT_PFX, WT_CELL_KEY_SHORT, WT_CELL_VALUE_SHORT}"
    unfolding P_def by blast+
qed

lemma type_lists:
  "ty \<in> set value_types \<Longrightarrow> ty \<notin> set addr_types" "WT_CELL_VALUE_COPY \<notin> set ovfl_types" "WT_CELL_VALUE_COPY \<notin> set addr_types"
  "ty \<in> set value_types \<Longrightarrow> ty \<in> set long_types" "ty \<in> set addr_types \<Longrightarrow> ty \<in> set long_types"
  "ty \<in> set value_types \<Longrightarrow> ty \<noteq> WT_CELL_KEY_PFX" "ty \<in> set addr_types \<Longrightarrow> ty \<noteq> WT_CELL_KEY_PFX"
  "ty \<in> set addr_types \<Longrightarrow> ty \<notin> {WT_CELL_VALUE_COPY, WT_CELL_KEY, WT_CELL_VALUE, WT_CELL_DEL} \<union> set ovfl_types"
  by (auto simp: value_types_def addr_types_def ovfl_types_def long_types_def WT_CELL_DEL_def WT_CELL_VALUE_def WT_CELL_VALUE_COPY_def
      WT_CELL_VALUE_OVFL_def WT_CELL_VALUE_OVFL_RM_def WT_CELL_ADDR_DEL_def WT_CELL_ADDR_INT_def WT_CELL_ADDR_LEAF_def
      WT_CELL_ADDR_LEAF_NO_def WT_CELL_KEY_PFX_def WT_CELL_KEY_def WT_CELL_KEY_OVFL_def WT_CELL_KEY_OVFL_RM_def)

lemma value_desc: "fst (cell_pack_value_validity tw) = (if WT_TIME_WINDOW_IS_EMPTY tw then 0 else WT_CELL_SECOND_DESC)"
  by (simp add: cell_pack_value_validity_def Let_def)

lemma addr_desc: "fst (cell_pack_addr_validity ta) = (if WT_TIME_AGGREGATE_IS_EMPTY ta then 0 else WT_CELL_SECOND_DESC)"
  by (simp add: cell_pack_addr_validity_def Let_def)

lemma second_desc: "WT_CELL_SECOND_DESC \<noteq> 0" "WT_CELL_64V \<noteq> 0"
  by (simp_all add: WT_CELL_SECOND_DESC_def WT_CELL_64V_def)

lemma value_window_read:
  assumes "storable_window tw" "diag \<longrightarrow> wt_time_value_validate s tw None = Inr ()" "ty \<in> set value_types" "v \<in> {0, WT_CELL_64V}"
  shows "unpack_window chk diag s False ty (fst (cell_pack_value_validity tw) OR (ty OR v)) (snd (cell_pack_value_validity tw) @ rest) =
    Inr (Kv_window tw, rest)"
proof (cases "WT_TIME_WINDOW_IS_EMPTY tw")
  case True
  then have "cell_pack_value_validity tw = (0, [])" "tw = WT_TIME_WINDOW_INIT"
    by (simp_all add: cell_pack_value_validity_def window_empty_iff)
  then show ?thesis
    using desc_byte(3) [of ty 0 v] assms(3,4) type_lists(1,4) by (simp add: unpack_window_def)
next
  case False
  then show ?thesis
    using unpack_pack_value_validity [OF assms(1) False assms(2)] desc_byte(3) [of ty WT_CELL_SECOND_DESC v] assms(3,4) type_lists(1,4) second_desc
    by (simp add: unpack_window_def value_desc)
qed

lemma empty_aggregate: "storable_aggregate ta \<Longrightarrow> WT_TIME_AGGREGATE_IS_EMPTY ta \<Longrightarrow> ta = WT_TIME_AGGREGATE_INIT"
  by (cases ta) (auto simp: storable_aggregate_def WT_TIME_AGGREGATE_IS_EMPTY_def WT_TIME_AGGREGATE_INIT_def)

lemma addr_window_read:
  assumes "storable_aggregate ta" "diag \<longrightarrow> wt_time_aggregate_validate s ta None = Inr ()" "ty \<in> set addr_types" "v \<in> {0, WT_CELL_64V}"
  shows "unpack_window chk diag s True ty (fst (cell_pack_addr_validity ta) OR (ty OR v)) (snd (cell_pack_addr_validity ta) @ rest) =
    Inr (Addr_window ta, rest)"
proof (cases "WT_TIME_AGGREGATE_IS_EMPTY ta")
  case True
  then have "cell_pack_addr_validity ta = (0, [])" "ta = WT_TIME_AGGREGATE_INIT"
    using empty_aggregate [OF assms(1)] by (simp_all add: cell_pack_addr_validity_def)
  then show ?thesis
    using desc_byte(3) [of ty 0 v] assms(3,4) type_lists(5) by (simp add: unpack_window_def)
next
  case False
  then show ?thesis
    using unpack_pack_addr_validity [OF assms(1) False assms(2)] desc_byte(3) [of ty WT_CELL_SECOND_DESC v] assms(3,4) type_lists(5) second_desc
    by (simp add: unpack_window_def addr_desc)
qed

lemma len_chk_0 [simp]: "WT_CELL_LEN_CHK chk (pre @ xs) (int (length pre)) 0 = Inr ()"
  by (simp add: WT_CELL_LEN_CHK_def)

text \<open>A cell with a window and an optional 64-bit value, up to its data length.\<close>

lemma pass_64v:
  assumes page: "page = pre @ with_64v c ty v st @ rest" and ty: "ty \<in> set long_types" "ty \<noteq> WT_CELL_KEY_PFX"
    and d: "fst st \<in> {0, WT_CELL_SECOND_DESC}"
    and w: "\<And>x rest. x \<in> {0, WT_CELL_64V} \<Longrightarrow> unpack_window chk diag s is_addr ty (fst st OR (ty OR x)) (snd st @ rest) = Inr (w, rest)"
  shows "unpack_pass chk diag s is_addr page c0 (int (length pre)) =
    unpack_length chk is_addr page (int (length pre)) (fst st OR (ty OR (if c then WT_CELL_64V else 0)))
      \<lparr>u_cell = c0, u_v = (if c then v else 0), u_data = None, u_size = 0, u_len = 0, u_prefix = 0,
       u_raw = ty, u_type = wt_cell_type ty, u_flags = 0\<rparr> w rest"
proof -
  let ?x = "if c then WT_CELL_64V else 0" and ?b = "fst st OR (ty OR (if c then WT_CELL_64V else 0))"
  have x: "?x \<in> {0, WT_CELL_64V}" by simp
  have "with_64v c ty v st = ?b # snd st @ (if c then pack_u v else [])" by (simp add: with_64v_def)
  then have dr: "drop (nat (int (length pre))) page = ?b # snd st @ (if c then pack_u v else []) @ rest"
    by (simp add: page)
  note db = desc_byte [OF ty(1) d x]
  have sh: "\<not> (ty = WT_CELL_KEY_SHORT_PFX \<or> ty = WT_CELL_KEY_SHORT \<or> ty = WT_CELL_VALUE_SHORT)" using db(5) by blast
  have u: "(if ?b AND WT_CELL_64V \<noteq> 0 then unpack_u chk ((if c then pack_u v else []) @ rest) else Inr (0, (if c then pack_u v else []) @ rest)) =
      Inr (if c then v else 0, rest)"
    using db(4) second_desc(2) by auto
  have chk: "WT_CELL_LEN_CHK chk page (int (length pre)) 0 = Inr ()" by (simp add: page)
  show ?thesis
    unfolding unpack_pass_def dr chk Let_def
    using sh w [OF x] ty(2) u by (simp add: db(1,2))
qed

subsection \<open>Cells with data\<close>

lemma ucast_nat [simp]: "ucast (word_of_nat n :: u64) = (word_of_nat n :: u32)"
  by transfer (simp add: take_bit_take_bit)

lemma unat_nat32: "n < 2 ^ 32 \<Longrightarrow> unat (word_of_nat n :: u32) = n"
  by (simp add: unat_of_nat take_bit_nat_eq_self)

text \<open>What an unpacked cell says of the header \<open>hdr\<close> it was read from and of the data behind it.\<close>

definition describes :: "wt_cell_unpack \<Rightarrow> bytes \<Rightarrow> bytes \<Rightarrow> bytes \<Rightarrow> bool" where
  "describes u pre hdr data \<longleftrightarrow> u_cell u = int (length pre) \<and> u_data u = Some (length pre + length hdr) \<and>
     unat (u_size u) = length data \<and> unat (u_len u) = length hdr + length data"

lemma unpack_length_data:
  assumes ty: "u_raw u \<noteq> WT_CELL_VALUE_COPY" "u_raw u \<in> set ovfl_types \<or> u_raw u \<in> set addr_types \<or> u_raw u = WT_CELL_KEY \<or>
      u_raw u = WT_CELL_KEY_PFX \<or> u_raw u = WT_CELL_VALUE"
    and page: "length page = length pre + hl + length q"
    and v: "(if u_raw u = WT_CELL_KEY \<or> u_raw u = WT_CELL_KEY_PFX \<or> u_raw u = WT_CELL_VALUE \<and> u_v u = 0 \<and> b0 AND WT_CELL_SECOND_DESC = 0
      then x + word_of_nat WT_CELL_SIZE_ADJUST else x) = word_of_nat n"
  shows "unpack_length chk is_addr page (int (length pre)) b0 u w (pack_u x @ q) =
    Inr (Cell_done (u\<lparr>u_flags := (if u_raw u \<in> set ovfl_types then WT_CELL_UNPACK_OVERFLOW else 0),
      u_data := Some (length pre + hl), u_size := word_of_nat n, u_len := word_of_nat (hl + n)\<rparr>) w)"
proof -
  have "length page - length q = length pre + hl" using page by simp
  then show ?thesis using ty v by (simp add: unpack_length_def Let_def cong: if_cong)
qed

lemma unpack_safe_done:
  assumes "unpack_pass chk diag s is_addr page (int c) (int c) = Inr (Cell_done u w)" "c + unat (u_len u) \<le> length page"
  shows "wt_cell_unpack_safe n chk diag s is_addr page c = Some (Inr (u, w))"
proof -
  have "int c + int (unat (u_len u)) \<le> int (length page)" using assms(2) by linarith
  then show ?thesis using assms(1) by (simp add: wt_cell_unpack_safe_def WT_CELL_LEN_CHK_def)
qed

text \<open>A cell with window, optional 64-bit value and data, unpacked as a whole.\<close>

lemma data_types: "ty \<in> set ovfl_types \<or> ty \<in> set addr_types \<or> ty = WT_CELL_KEY \<or> ty = WT_CELL_VALUE \<Longrightarrow>
    ty \<noteq> WT_CELL_VALUE_COPY \<and> ty \<noteq> WT_CELL_KEY_PFX \<and> ty \<in> set long_types"
  by (auto simp: ovfl_types_def addr_types_def long_types_def value_types_def WT_CELL_VALUE_COPY_def WT_CELL_KEY_def WT_CELL_VALUE_def WT_CELL_KEY_PFX_def
        WT_CELL_KEY_OVFL_def WT_CELL_KEY_OVFL_RM_def WT_CELL_VALUE_OVFL_def WT_CELL_VALUE_OVFL_RM_def WT_CELL_ADDR_DEL_def
        WT_CELL_ADDR_INT_def WT_CELL_ADDR_LEAF_def WT_CELL_ADDR_LEAF_NO_def)

lemma unpack_64v_data:
  assumes page: "page = pre @ (with_64v c ty v st @ pack_u x) @ data @ post" "length page < 2 ^ 32"
    and ty: "ty \<in> set ovfl_types \<or> ty \<in> set addr_types \<or> ty = WT_CELL_KEY \<or> ty = WT_CELL_VALUE"
    and x: "(if ty = WT_CELL_KEY \<or> ty = WT_CELL_VALUE \<and> (if c then v else 0) = 0 \<and> fst st = 0 then x + word_of_nat WT_CELL_SIZE_ADJUST else x) =
      word_of_nat (length data)"
    and d: "fst st \<in> {0, WT_CELL_SECOND_DESC}"
    and w: "\<And>x rest. x \<in> {0, WT_CELL_64V} \<Longrightarrow> unpack_window chk diag s is_addr ty (fst st OR (ty OR x)) (snd st @ rest) = Inr (w, rest)"
  shows "\<exists>u. wt_cell_unpack_safe n chk diag s is_addr page (length pre) = Some (Inr (u, w)) \<and>
    describes u pre (with_64v c ty v st @ pack_u x) data \<and> u_raw u = ty \<and> u_type u = wt_cell_type ty \<and>
    u_v u = (if c then v else 0) \<and> u_prefix u = 0"
proof -
  let ?hdr = "with_64v c ty v st @ pack_u x" and ?cell = "int (length pre)"
  let ?b = "fst st OR (ty OR (if c then WT_CELL_64V else 0))"
  let ?u = "\<lparr>u_cell = ?cell, u_v = (if c then v else 0), u_data = None, u_size = 0, u_len = 0, u_prefix = 0,
       u_raw = ty, u_type = wt_cell_type ty, u_flags = 0\<rparr>"
  note dt = data_types [OF ty]
  have p: "unpack_pass chk diag s is_addr page ?cell ?cell = unpack_length chk is_addr page ?cell ?b ?u w (pack_u x @ data @ post)"
    using dt by (intro pass_64v [OF _ _ _ d w]) (simp_all add: page(1))
  have "(?b AND WT_CELL_SECOND_DESC = 0) = (fst st = 0)" using dt by (intro desc_byte(3) [OF _ d]) auto
  with dt x have xv: "(if ty = WT_CELL_KEY \<or> ty = WT_CELL_KEY_PFX \<or> ty = WT_CELL_VALUE \<and> (if c then v else 0) = 0 \<and> ?b AND WT_CELL_SECOND_DESC = 0
      then x + word_of_nat WT_CELL_SIZE_ADJUST else x) = word_of_nat (length data)" by (simp cong: if_cong)
  let ?r = "?u\<lparr>u_flags := (if ty \<in> set ovfl_types then WT_CELL_UNPACK_OVERFLOW else 0), u_data := Some (length pre + length ?hdr),
      u_size := word_of_nat (length data), u_len := word_of_nat (length ?hdr + length data)\<rparr>"
  have r: "unpack_pass chk diag s is_addr page ?cell ?cell = Inr (Cell_done ?r w)"
    unfolding p using dt ty xv
    by (subst unpack_length_data [where hl = "length ?hdr" and n = "length data"]) (auto simp: page(1))
  have len: "length ?hdr + length data < 2 ^ 32" "length data < 2 ^ 32" using page by auto
  have "u_len ?r = word_of_nat (length ?hdr + length data)" by simp
  then have ul: "unat (u_len ?r) = length ?hdr + length data" by (simp only: unat_nat32 [OF len(1)])
  have "describes ?r pre ?hdr data" unfolding describes_def ul using len(2) by (simp add: unat_nat32)
  moreover have "wt_cell_unpack_safe n chk diag s is_addr page (length pre) = Some (Inr (?r, w))"
    by (rule unpack_safe_done [OF r]) (simp only: ul, simp add: page(1))
  ultimately show ?thesis by (intro exI [of _ ?r]) simp
qed

subsection \<open>Short cells\<close>

lemma short_desc:
  assumes "n \<le> 63" "ty \<in> {WT_CELL_KEY_SHORT, WT_CELL_KEY_SHORT_PFX, WT_CELL_VALUE_SHORT}"
  shows "wt_cell_type_raw (push_bit WT_CELL_SHORT_SHIFT (word_of_nat n) OR ty) = ty"
    "wt_cell_type (push_bit WT_CELL_SHORT_SHIFT (word_of_nat n) OR ty) = wt_cell_type ty"
    "drop_bit WT_CELL_SHORT_SHIFT (ucast (push_bit WT_CELL_SHORT_SHIFT (word_of_nat n) OR ty)) = (word_of_nat n :: u32)"
proof -
  define P where "P = (\<lambda>ty n. wt_cell_type_raw (push_bit WT_CELL_SHORT_SHIFT (word_of_nat n) OR ty) = ty \<and>
    wt_cell_type (push_bit WT_CELL_SHORT_SHIFT (word_of_nat n) OR ty) = wt_cell_type ty \<and>
    drop_bit WT_CELL_SHORT_SHIFT (ucast (push_bit WT_CELL_SHORT_SHIFT (word_of_nat n) OR ty)) = (word_of_nat n :: u32))"
  have "list_all (\<lambda>ty. list_all (P ty) [0..<64]) [WT_CELL_KEY_SHORT, WT_CELL_KEY_SHORT_PFX, WT_CELL_VALUE_SHORT]"
    unfolding P_def by code_simp
  then have "P ty n" using assms by (auto simp: list_all_iff simp del: upt_rec_numeral)
  then show "wt_cell_type_raw (push_bit WT_CELL_SHORT_SHIFT (word_of_nat n) OR ty) = ty"
    "wt_cell_type (push_bit WT_CELL_SHORT_SHIFT (word_of_nat n) OR ty) = wt_cell_type ty"
    "drop_bit WT_CELL_SHORT_SHIFT (ucast (push_bit WT_CELL_SHORT_SHIFT (word_of_nat n) OR ty)) = (word_of_nat n :: u32)"
    unfolding P_def by blast+
qed

lemma unpack_short_data:
  assumes page: "page = pre @ ((push_bit WT_CELL_SHORT_SHIFT (word_of_nat (length data)) OR ty) # ps) @ data @ post" "length page < 2 ^ 32"
    and ty: "ty \<in> {WT_CELL_KEY_SHORT, WT_CELL_KEY_SHORT_PFX, WT_CELL_VALUE_SHORT}" and n: "length data \<le> 63"
    and ps: "ps = (if ty = WT_CELL_KEY_SHORT_PFX then [pfx] else [])" "ty \<noteq> WT_CELL_KEY_SHORT_PFX \<longrightarrow> pfx = 0"
  shows "\<exists>u. wt_cell_unpack_safe k chk diag s is_addr page (length pre) =
      Some (Inr (u, if is_addr then Addr_window WT_TIME_AGGREGATE_INIT else Kv_window WT_TIME_WINDOW_INIT)) \<and>
    describes u pre ((push_bit WT_CELL_SHORT_SHIFT (word_of_nat (length data)) OR ty) # ps) data \<and> u_raw u = ty \<and> u_type u = wt_cell_type ty \<and>
    u_v u = 0 \<and> u_prefix u = pfx"
proof -
  let ?b = "push_bit WT_CELL_SHORT_SHIFT (word_of_nat (length data)) OR ty" and ?cell = "int (length pre)"
  let ?hdr = "?b # ps" and ?w = "if is_addr then Addr_window WT_TIME_AGGREGATE_INIT else Kv_window WT_TIME_WINDOW_INIT"
  let ?r = "\<lparr>u_cell = ?cell, u_v = 0, u_data = Some (length pre + length ?hdr), u_size = word_of_nat (length data),
      u_len = word_of_nat (length ?hdr + length data), u_prefix = pfx, u_raw = ty, u_type = wt_cell_type ty, u_flags = 0\<rparr>"
  note sd = short_desc [OF n ty]
  have dr: "drop (nat ?cell) page = ?b # ps @ data @ post" by (simp add: page(1))
  have chk: "WT_CELL_LEN_CHK chk page ?cell k = Inr ()" if "k \<le> 1" for k using that by (auto simp: WT_CELL_LEN_CHK_def page(1))
  have r: "unpack_pass chk diag s is_addr page ?cell ?cell = Inr (Cell_done ?r ?w)"
    unfolding unpack_pass_def dr using ty ps by (auto simp: chk sd unpack_short_def Let_def)
  have len: "length ?hdr + length data < 2 ^ 32" "length data < 2 ^ 32" using page by auto
  have "u_len ?r = word_of_nat (length ?hdr + length data)" by simp
  then have ul: "unat (u_len ?r) = length ?hdr + length data" by (simp only: unat_nat32 [OF len(1)])
  have "describes ?r pre ?hdr data" unfolding describes_def ul using len(2) by (simp add: unat_nat32)
  moreover have "wt_cell_unpack_safe k chk diag s is_addr page (length pre) = Some (Inr (?r, ?w))"
    by (rule unpack_safe_done [OF r]) (simp only: ul, simp add: page(1))
  ultimately show ?thesis by (intro exI [of _ ?r]) simp
qed

subsection \<open>Whole cells\<close>

lemma value_desc_range: "fst (cell_pack_value_validity tw) \<in> {0, WT_CELL_SECOND_DESC}"
  "fst (cell_pack_addr_validity ta) \<in> {0, WT_CELL_SECOND_DESC}"
  by (simp_all add: value_desc addr_desc)

lemma value_in_types: "WT_CELL_VALUE \<in> set value_types" "WT_CELL_VALUE_OVFL \<in> set value_types" "WT_CELL_VALUE_COPY \<in> set value_types"
  "WT_CELL_DEL \<in> set value_types" "wt_cell_type WT_CELL_VALUE = WT_CELL_VALUE" "wt_cell_type WT_CELL_VALUE_SHORT = WT_CELL_VALUE"
  by (code_simp+)

lemma size_adjust: "\<not> n \<le> WT_CELL_SHORT_MAX \<Longrightarrow>
    word_of_nat (n - WT_CELL_SIZE_ADJUST) + word_of_nat WT_CELL_SIZE_ADJUST = (word_of_nat n :: u64)"
  by (simp add: WT_CELL_SHORT_MAX_def WT_CELL_SIZE_ADJUST_def flip: of_nat_add)

lemma key_window: "unpack_window chk diag s False WT_CELL_KEY b p = Inr (Kv_window WT_TIME_WINDOW_INIT, p)"
  "WT_CELL_KEY \<noteq> WT_CELL_VALUE" "wt_cell_type WT_CELL_KEY = WT_CELL_KEY" "wt_cell_type WT_CELL_KEY_SHORT = WT_CELL_KEY"
proof -
  have "WT_CELL_KEY \<notin> set addr_types" "WT_CELL_KEY \<notin> set value_types" by code_simp+
  then show "unpack_window chk diag s False WT_CELL_KEY b p = Inr (Kv_window WT_TIME_WINDOW_INIT, p)" by (simp add: unpack_window_def)
  show "WT_CELL_KEY \<noteq> WT_CELL_VALUE" "wt_cell_type WT_CELL_KEY = WT_CELL_KEY" "wt_cell_type WT_CELL_KEY_SHORT = WT_CELL_KEY" by code_simp+
qed

lemma pass_pfx:
  assumes page: "page = pre @ (WT_CELL_KEY_PFX # pfx # pack_u x) @ data @ post" "length page < 2 ^ 32"
    and x: "x + word_of_nat WT_CELL_SIZE_ADJUST = word_of_nat (length data)"
  shows "\<exists>u. wt_cell_unpack_safe n chk diag s False page (length pre) = Some (Inr (u, Kv_window WT_TIME_WINDOW_INIT)) \<and>
    describes u pre (WT_CELL_KEY_PFX # pfx # pack_u x) data \<and> u_type u = WT_CELL_KEY \<and> u_prefix u = pfx"
proof -
  let ?hdr = "WT_CELL_KEY_PFX # pfx # pack_u x" and ?cell = "int (length pre)"
  let ?r = "\<lparr>u_cell = ?cell, u_v = 0, u_data = Some (length pre + length ?hdr), u_size = word_of_nat (length data),
      u_len = word_of_nat (length ?hdr + length data), u_prefix = pfx, u_raw = WT_CELL_KEY_PFX, u_type = WT_CELL_KEY, u_flags = 0\<rparr>"
  have ty: "wt_cell_type_raw WT_CELL_KEY_PFX = WT_CELL_KEY_PFX" "wt_cell_type WT_CELL_KEY_PFX = WT_CELL_KEY"
    "WT_CELL_KEY_PFX \<noteq> WT_CELL_KEY_SHORT_PFX" "WT_CELL_KEY_PFX \<noteq> WT_CELL_KEY_SHORT" "WT_CELL_KEY_PFX \<noteq> WT_CELL_VALUE_SHORT"
    "WT_CELL_KEY_PFX \<notin> set addr_types" "WT_CELL_KEY_PFX \<notin> set value_types" "WT_CELL_KEY_PFX \<notin> set ovfl_types"
    "WT_CELL_KEY_PFX AND WT_CELL_64V = 0" "WT_CELL_KEY_PFX \<noteq> WT_CELL_VALUE_COPY" by code_simp+
  have dr: "drop (nat ?cell) page = ?hdr @ data @ post" by (simp add: page(1))
  have chk: "WT_CELL_LEN_CHK chk page ?cell 0 = Inr ()" "WT_CELL_LEN_CHK chk page (int (length page - length (pack_u x @ data @ post))) 0 = Inr ()"
    by (auto simp: WT_CELL_LEN_CHK_def page(1))
  let ?u = "\<lparr>u_cell = ?cell, u_v = 0, u_data = None, u_size = 0, u_len = 0, u_prefix = pfx, u_raw = WT_CELL_KEY_PFX, u_type = WT_CELL_KEY, u_flags = 0\<rparr>"
  have "unpack_pass chk diag s False page ?cell ?cell = unpack_length chk False page ?cell WT_CELL_KEY_PFX ?u (Kv_window WT_TIME_WINDOW_INIT) (pack_u x @ data @ post)"
    unfolding unpack_pass_def dr using chk(2) by (simp add: chk(1) ty unpack_window_def Let_def)
  then have r: "unpack_pass chk diag s False page ?cell ?cell = Inr (Cell_done ?r (Kv_window WT_TIME_WINDOW_INIT))"
    using ty x by (subst (asm) unpack_length_data [where hl = "length ?hdr" and n = "length data"]) (auto simp: page(1))
  have len: "length ?hdr + length data < 2 ^ 32" "length data < 2 ^ 32" using page by auto
  have "u_len ?r = word_of_nat (length ?hdr + length data)" by simp
  then have ul: "unat (u_len ?r) = length ?hdr + length data" by (simp only: unat_nat32 [OF len(1)])
  have "describes ?r pre ?hdr data" unfolding describes_def ul using len(2) by (simp add: unat_nat32)
  moreover have "wt_cell_unpack_safe n chk diag s False page (length pre) = Some (Inr (?r, Kv_window WT_TIME_WINDOW_INIT))"
    by (rule unpack_safe_done [OF r]) (simp only: ul, simp add: page(1))
  ultimately show ?thesis by (intro exI [of _ ?r]) simp
qed

lemma unpack_leaf_key:
  assumes page: "page = pre @ wt_cell_pack_leaf_key pfx (length data) @ data @ post" "length page < 2 ^ 32"
  shows "\<exists>u. wt_cell_unpack_safe n chk diag s False page (length pre) = Some (Inr (u, Kv_window WT_TIME_WINDOW_INIT)) \<and>
    describes u pre (wt_cell_pack_leaf_key pfx (length data)) data \<and> u_type u = WT_CELL_KEY \<and> u_prefix u = pfx"
proof -
  note kd = wt_cell_pack_leaf_key_def
  have ty: "wt_cell_type WT_CELL_KEY_SHORT_PFX = WT_CELL_KEY" "WT_CELL_KEY_SHORT \<noteq> WT_CELL_KEY_SHORT_PFX" by code_simp+
  consider (sh) "length data \<le> WT_CELL_SHORT_MAX" "pfx = 0" | (shp) "length data \<le> WT_CELL_SHORT_MAX" "pfx \<noteq> 0"
    | (lg) "\<not> length data \<le> WT_CELL_SHORT_MAX" "pfx = 0" | (lgp) "\<not> length data \<le> WT_CELL_SHORT_MAX" "pfx \<noteq> 0" by blast
  then show ?thesis
  proof cases
    case sh
    then have hdr: "wt_cell_pack_leaf_key pfx (length data) = [push_bit WT_CELL_SHORT_SHIFT (word_of_nat (length data)) OR WT_CELL_KEY_SHORT]"
      by (simp add: kd)
    show ?thesis
      using unpack_short_data [OF page(1) [unfolded hdr] page(2), where pfx = 0 and is_addr = False and k = n and chk = chk and diag = diag and s = s]
        sh key_window(4) ty unfolding hdr by (auto simp: WT_CELL_SHORT_MAX_def)
  next
    case shp
    then have hdr: "wt_cell_pack_leaf_key pfx (length data) = [push_bit WT_CELL_SHORT_SHIFT (word_of_nat (length data)) OR WT_CELL_KEY_SHORT_PFX, pfx]"
      by (simp add: kd)
    show ?thesis
      using unpack_short_data [OF page(1) [unfolded hdr] page(2), where pfx = pfx and is_addr = False and k = n and chk = chk and diag = diag and s = s]
        shp ty unfolding hdr by (auto simp: WT_CELL_SHORT_MAX_def)
  next
    case lg
    let ?x = "word_of_nat (length data - WT_CELL_SIZE_ADJUST)"
    have hdr: "wt_cell_pack_leaf_key pfx (length data) = with_64v False WT_CELL_KEY 0 (0, []) @ pack_u ?x"
      using lg by (simp add: kd with_64v_def)
    have "\<exists>u. wt_cell_unpack_safe n chk diag s False page (length pre) = Some (Inr (u, Kv_window WT_TIME_WINDOW_INIT)) \<and>
      describes u pre (with_64v False WT_CELL_KEY 0 (0, []) @ pack_u ?x) data \<and> u_raw u = WT_CELL_KEY \<and> u_type u = wt_cell_type WT_CELL_KEY \<and>
      u_v u = (if False then 0 else 0) \<and> u_prefix u = 0"
      using size_adjust [OF lg(1)] by (intro unpack_64v_data [OF page(1) [unfolded hdr] page(2)]) (auto simp: key_window(1))
    then show ?thesis using lg(2) key_window(3) unfolding hdr by auto
  next
    case lgp
    let ?x = "word_of_nat (length data - WT_CELL_SIZE_ADJUST)"
    have hdr: "wt_cell_pack_leaf_key pfx (length data) = WT_CELL_KEY_PFX # pfx # pack_u ?x" using lgp by (simp add: kd)
    show ?thesis using pass_pfx [OF page(1) [unfolded hdr] page(2) size_adjust [OF lgp(1)]] by (simp add: hdr)
  qed
qed

lemma int_key_is_leaf_key: "wt_cell_pack_int_key sz = wt_cell_pack_leaf_key 0 sz"
  by (simp add: wt_cell_pack_int_key_def wt_cell_pack_leaf_key_def)

subsection \<open>Copy cells\<close>

lemma unpack_length_cell0:
  "unpack_length chk is_addr page cell b0 (u\<lparr>u_cell := c\<rparr>) w p =
    map_sum id (\<lambda>r. case r of Cell_done u w \<Rightarrow> Cell_done (u\<lparr>u_cell := c\<rparr>) w | Cell_copy w v l d \<Rightarrow> Cell_copy w v l d)
      (unpack_length chk is_addr page cell b0 u w p)"
proof (cases "unpack_u chk p")
  case (Inl e)
  then show ?thesis by (simp add: unpack_length_def Let_def)
next
  case (Inr r)
  obtain x q where "r = (x, q)" by (cases r)
  then show ?thesis by (simp add: unpack_length_def Let_def Inr)
qed

lemma pass_cell0:
  assumes "unpack_pass chk diag s is_addr page c0 cell = Inr (Cell_done u w)"
  shows "unpack_pass chk diag s is_addr page c1 cell = Inr (Cell_done (u\<lparr>u_cell := c1\<rparr>) w)"
proof -
  have l: "unpack_length chk is_addr page cell b0 \<lparr>u_cell = c1, u_v = v, u_data = d, u_size = z, u_len = n, u_prefix = pfx, u_raw = raw, u_type = ty, u_flags = f\<rparr> w' p =
      Inr (Cell_done (u\<lparr>u_cell := c1\<rparr>) w)"
    if "unpack_length chk is_addr page cell b0 \<lparr>u_cell = c0, u_v = v, u_data = d, u_size = z, u_len = n, u_prefix = pfx, u_raw = raw, u_type = ty, u_flags = f\<rparr> w' p =
      Inr (Cell_done u w)" for b0 v d z n pfx raw ty f w' p
    using unpack_length_cell0 [where chk = chk and is_addr = is_addr and page = page and cell = cell and ?b0.0 = b0 and c = c1 and w = w' and p = p and u = "\<lparr>u_cell = c0, u_v = v, u_data = d, u_size = z, u_len = n, u_prefix = pfx, u_raw = raw, u_type = ty, u_flags = f\<rparr>"] that
    by simp
  show ?thesis
  proof (cases "drop (nat cell) page")
    case Nil
    with assms show ?thesis by (auto simp: unpack_pass_def split: if_splits)
  next
    case (Cons b0 p)
    then show ?thesis
      using assms unfolding unpack_pass_def Cons Let_def
      by (cases "b0 AND WT_CELL_64V = 0"; cases "wt_cell_type_raw b0 = WT_CELL_KEY_PFX")
        (auto simp: unpack_short_def Let_def split: if_splits list.splits prod.splits dest!: l)
  qed
qed

lemma pass_copy:
  assumes tw: "storable_window tw" "diag \<longrightarrow> wt_time_value_validate s tw None = Inr ()"
    and page: "page = pre @ wt_cell_pack_copy tw rle v @ post" "length page < 2 ^ 32"
  shows "unpack_pass chk diag s False page c0 (int (length pre)) =
    Inr (Cell_copy (Kv_window tw) (if rle < 2 then 0 else rle) (word_of_nat (length (wt_cell_pack_copy tw rle v))) v)"
proof -
  let ?st = "cell_pack_value_validity tw"
  have ty: "WT_CELL_VALUE_COPY \<in> set long_types" "WT_CELL_VALUE_COPY \<noteq> WT_CELL_KEY_PFX"
    using value_in_types(3) type_lists(4,6) by blast+
  have "unpack_pass chk diag s False page c0 (int (length pre)) =
    unpack_length chk False page (int (length pre)) (fst ?st OR (WT_CELL_VALUE_COPY OR (if \<not> rle < 2 then WT_CELL_64V else 0)))
      \<lparr>u_cell = c0, u_v = (if \<not> rle < 2 then rle else 0), u_data = None, u_size = 0, u_len = 0, u_prefix = 0,
       u_raw = WT_CELL_VALUE_COPY, u_type = wt_cell_type WT_CELL_VALUE_COPY, u_flags = 0\<rparr> (Kv_window tw) (pack_u v @ post)"
    using page(1) by (intro pass_64v [OF _ ty value_desc_range(1) value_window_read [OF tw value_in_types(3)]]) (simp_all add: wt_cell_pack_copy_def)
  moreover have "length page - length post = length pre + length (wt_cell_pack_copy tw rle v)" by (simp add: page(1))
  ultimately show ?thesis by (simp add: unpack_length_def)
qed




subsection \<open>Matching of value cells\<close>

lemma skip_pack: "skip_u c ((if c then pack_u x else []) @ rest) = Inr rest"
  by (simp add: skip_u_def pack_u_bytes vunpack_uint_bytes)

lemma skip_fields:
  "WT_RET (skip_u c3 ((if c1 then pack_u x1 else []) @ (if c2 then pack_u x2 else []) @ (if c3 then pack_u x3 else []) @
     (if c4 then pack_u x4 else []) @ (if c5 then pack_u x5 else []) @ (if c6 then pack_u x6 else []) @ rest)) (\<lambda>a.
   WT_RET (skip_u c6 a) (\<lambda>a. WT_RET (skip_u c1 a) (\<lambda>a. WT_RET (skip_u c4 a) (\<lambda>a. WT_RET (skip_u c2 a) (\<lambda>a. skip_u c5 a))))) = Inr rest"
proof -
  have s: "skip_u True (pack_u x @ r) = Inr r" "skip_u False r = Inr r" for x r
    using skip_pack [of True x r] by (simp_all add: skip_u_def)
  show ?thesis by (cases c1; cases c2; cases c3; cases c4; cases c5; cases c6) (simp_all add: s)
qed

text \<open>The length that a value cell stores: less the adjustment where the length alone kept it from being a short cell.\<close>

definition stored_len :: "wt_time_window \<Rightarrow> u64 \<Rightarrow> nat \<Rightarrow> nat" where
  "stored_len tw rle n =
     (if WT_TIME_WINDOW_IS_EMPTY tw \<and> rle < 2 \<and> n > WT_CELL_SHORT_MAX then n - WT_CELL_SIZE_ADJUST else n)"

lemma match_short:
  assumes "n \<le> 63"
  shows "match_len ((push_bit WT_CELL_SHORT_SHIFT (word_of_nat n) OR WT_CELL_VALUE_SHORT) # rest) = Inr (Some (word_of_nat n, rest))"
proof -
  define P where "P = (\<lambda>n. WT_CELL_SHORT_TYPE (push_bit WT_CELL_SHORT_SHIFT (word_of_nat n) OR WT_CELL_VALUE_SHORT) = WT_CELL_VALUE_SHORT \<and>
    ucast (drop_bit WT_CELL_SHORT_SHIFT (push_bit WT_CELL_SHORT_SHIFT (word_of_nat n) OR WT_CELL_VALUE_SHORT)) = (word_of_nat n :: u64))"
  have "list_all P [0..<64]" unfolding P_def by code_simp
  then have "P n" using assms by (auto simp: list_all_iff simp del: upt_rec_numeral)
  then show ?thesis by (simp add: P_def match_len_def)
qed

lemma value_desc_byte:
  assumes "d \<in> {0, WT_CELL_SECOND_DESC}" "v \<in> {0, WT_CELL_64V}"
  shows "WT_CELL_SHORT_TYPE (d OR (WT_CELL_VALUE OR v)) \<noteq> WT_CELL_VALUE_SHORT" "WT_CELL_TYPE (d OR (WT_CELL_VALUE OR v)) = WT_CELL_VALUE"
proof -
  define P where "P = (\<lambda>d v. WT_CELL_SHORT_TYPE (d OR (WT_CELL_VALUE OR v)) \<noteq> WT_CELL_VALUE_SHORT \<and> WT_CELL_TYPE (d OR (WT_CELL_VALUE OR v)) = WT_CELL_VALUE)"
  have "list_all (\<lambda>d. list_all (P d) [0, WT_CELL_64V]) [0, WT_CELL_SECOND_DESC]" unfolding P_def by code_simp
  then have "P d v" using assms by (simp add: list_all_iff) blast
  then show "WT_CELL_SHORT_TYPE (d OR (WT_CELL_VALUE OR v)) \<noteq> WT_CELL_VALUE_SHORT" "WT_CELL_TYPE (d OR (WT_CELL_VALUE OR v)) = WT_CELL_VALUE"
    unfolding P_def by blast+
qed

lemma match_64v: "match_len (with_64v c WT_CELL_VALUE rle (cell_pack_value_validity tw) @ pack_u x @ rest) = Inr (Some (x, rest))"
proof -
  let ?v = "if c then WT_CELL_64V else 0" and ?d = "fst (cell_pack_value_validity tw)"
  let ?b = "?d OR (WT_CELL_VALUE OR ?v)"
  have in_types: "WT_CELL_VALUE \<in> set long_types" using value_in_types(1) type_lists(4) by blast
  have v: "?v \<in> {0, WT_CELL_64V}" by simp
  note db = value_desc_byte [OF value_desc_range(1) v] desc_byte(3,4) [OF in_types value_desc_range(1) v]
  have w: "with_64v c WT_CELL_VALUE rle (cell_pack_value_validity tw) =
      ?b # snd (cell_pack_value_validity tw) @ (if c then pack_u rle else [])" by (simp add: with_64v_def)
  have len: "WT_RET (skip_u (?v \<noteq> 0) ((if c then pack_u rle else []) @ pack_u x @ rest)) (\<lambda>a. WT_RET (wt_vunpack_uint 0 a) (\<lambda>(len, a). Inr (Some (len, a)))) =
      Inr (Some (x, rest))"
    using skip_pack [of c rle "pack_u x @ rest"] second_desc(2) by (cases c) (simp_all add: pack_u_bytes vunpack_uint_bytes)
  have win: "(if ?d = 0 then Inr (snd (cell_pack_value_validity tw) @ r) else match_window (snd (cell_pack_value_validity tw) @ r)) = Inr r" for r
  proof (cases "WT_TIME_WINDOW_IS_EMPTY tw")
    case True
    then show ?thesis by (simp add: cell_pack_value_validity_def)
  next
    case False
    then show ?thesis using second_desc(1)
      by (simp add: value_validity_fields [OF False] Let_def match_window_def field_flags_test skip_fields)
  qed
  show ?thesis
    unfolding w append_Cons append_assoc match_len_def list.case db(2,3,4) win using db(1) win len by simp
qed

lemma match_packed: "match_len (wt_cell_pack_value tw rle n @ rest) = Inr (Some (word_of_nat (stored_len tw rle n), rest))"
proof -
  let ?st = "cell_pack_value_validity tw"
  consider (short) "WT_TIME_WINDOW_IS_EMPTY tw" "rle < 2" "n \<le> WT_CELL_SHORT_MAX"
    | (plain) "WT_TIME_WINDOW_IS_EMPTY tw" "rle < 2" "\<not> n \<le> WT_CELL_SHORT_MAX"
    | (full) "\<not> (WT_TIME_WINDOW_IS_EMPTY tw \<and> rle < 2)" by blast
  then show ?thesis
  proof cases
    case short
    then show ?thesis using match_short [of n rest]
      by (simp add: wt_cell_pack_value_def cell_pack_value_validity_def stored_len_def WT_CELL_SHORT_MAX_def)
  next
    case plain
    then have "wt_cell_pack_value tw rle n = with_64v False WT_CELL_VALUE rle ?st @ pack_u (word_of_nat (n - WT_CELL_SIZE_ADJUST))"
      by (simp add: wt_cell_pack_value_def with_64v_def cell_pack_value_validity_def)
    then show ?thesis using plain by (simp add: match_64v stored_len_def)
  next
    case full
    then have "wt_cell_pack_value tw rle n = with_64v True WT_CELL_VALUE rle ?st @ pack_u (word_of_nat n)"
      by (auto simp: wt_cell_pack_value_def with_64v_def value_desc Let_def WT_CELL_SECOND_DESC_def)
    moreover have "stored_len tw rle n = n" using full by (auto simp: stored_len_def)
    ultimately show ?thesis by (simp add: match_64v)
  qed
qed

lemma word_of_nat_eq_64: "a < 2 ^ 32 \<Longrightarrow> b < 2 ^ 32 \<Longrightarrow> (word_of_nat a = (word_of_nat b :: u64)) = (a = b)"
  by (simp add: word_of_nat_eq_iff take_bit_nat_eq_self)

lemma unat_nat64: "n < 2 ^ 32 \<Longrightarrow> unat (word_of_nat n :: u64) = n"
  by (simp add: unat_of_nat take_bit_nat_eq_self)

lemma stored_len_le: "stored_len tw rle n \<le> n"
  by (simp add: stored_len_def)

lemma value_match_spec:
  assumes "length da < 2 ^ 32" "length db < 2 ^ 32"
  shows "wt_cell_pack_value_match (wt_cell_pack_value ta ra (length da) @ da @ post) (wt_cell_pack_value tb rb (length db)) db =
    (let n = stored_len ta ra (length da) in Inr (n = stored_len tb rb (length db) \<and> take n da = take n db))"
proof -
  let ?a = "stored_len ta ra (length da)" and ?b = "stored_len tb rb (length db)"
  note le = stored_len_le [of ta ra "length da"] stored_len_le [of tb rb "length db"]
  have lt: "?a < 2 ^ 32" "?b < 2 ^ 32" using le assms by linarith+
  have eq: "(word_of_nat ?a = (word_of_nat ?b :: u64)) = (?a = ?b)" by (rule word_of_nat_eq_64 [OF lt])
  show ?thesis
    using match_packed [of ta ra "length da" "da @ post"] match_packed [of tb rb "length db" "[]"] le
    by (auto simp: wt_cell_pack_value_match_def Let_def eq unat_nat64 [OF lt(1)] unat_nat64 [OF lt(2)])
qed

subsection \<open>Properties\<close>

text \<open>
  C26: Value cells. The cell that the packing function wrote in front of a value is unpacked, with and without
  boundary checks, as a value with the same time window and run length, and with the place and the size
  of its data.
\<close>

theorem cell_value_roundtrip:
  assumes tw: "storable_window tw" "diag \<longrightarrow> wt_time_value_validate s tw None = Inr ()"
    and page: "page = pre @ wt_cell_pack_value tw rle (length data) @ data @ post" "length page < 2 ^ 32"
  shows "\<exists>u. wt_cell_unpack_safe n chk diag s False page (length pre) = Some (Inr (u, Kv_window tw)) \<and>
    describes u pre (wt_cell_pack_value tw rle (length data)) data \<and> u_type u = WT_CELL_VALUE \<and> wt_cell_rle u = (if rle < 2 then 1 else rle)"
proof -
  let ?st = "cell_pack_value_validity tw"
  consider (short) "WT_TIME_WINDOW_IS_EMPTY tw" "rle < 2" "length data \<le> WT_CELL_SHORT_MAX"
    | (plain) "WT_TIME_WINDOW_IS_EMPTY tw" "rle < 2" "\<not> length data \<le> WT_CELL_SHORT_MAX"
    | (full) "\<not> (WT_TIME_WINDOW_IS_EMPTY tw \<and> rle < 2)" by blast
  then show ?thesis
  proof cases
    case short
    then have hdr: "wt_cell_pack_value tw rle (length data) = [push_bit WT_CELL_SHORT_SHIFT (word_of_nat (length data)) OR WT_CELL_VALUE_SHORT]"
      and w: "tw = WT_TIME_WINDOW_INIT"
      by (simp_all add: wt_cell_pack_value_def cell_pack_value_validity_def window_empty_iff)
    have ns: "WT_CELL_VALUE_SHORT \<noteq> WT_CELL_KEY_SHORT_PFX" by code_simp
    have "length data \<le> 63" using short(3) by (simp add: WT_CELL_SHORT_MAX_def)
    from unpack_short_data [OF page(1) [unfolded hdr] page(2) _ this, where pfx = 0 and is_addr = False and k = n and chk = chk and diag = diag and s = s] ns
    obtain u where "wt_cell_unpack_safe n chk diag s False page (length pre) = Some (Inr (u, Kv_window WT_TIME_WINDOW_INIT))"
      "describes u pre [push_bit WT_CELL_SHORT_SHIFT (word_of_nat (length data)) OR WT_CELL_VALUE_SHORT] data"
      "u_type u = wt_cell_type WT_CELL_VALUE_SHORT" "u_v u = 0" by (simp only: if_False insert_iff simp_thms) blast
    then show ?thesis using short(2) value_in_types(6) unfolding hdr unfolding w by (intro exI [of _ u]) (simp add: wt_cell_rle_def)
  next
    case plain
    let ?x = "word_of_nat (length data - WT_CELL_SIZE_ADJUST)"
    have hdr: "wt_cell_pack_value tw rle (length data) = with_64v False WT_CELL_VALUE 0 ?st @ pack_u ?x"
      using plain by (simp add: wt_cell_pack_value_def with_64v_def cell_pack_value_validity_def)
    have st0: "fst ?st = 0" using plain by (simp add: value_desc)
    have "\<exists>u. wt_cell_unpack_safe n chk diag s False page (length pre) = Some (Inr (u, Kv_window tw)) \<and>
      describes u pre (with_64v False WT_CELL_VALUE 0 ?st @ pack_u ?x) data \<and> u_raw u = WT_CELL_VALUE \<and> u_type u = wt_cell_type WT_CELL_VALUE \<and>
      u_v u = (if False then 0 else 0) \<and> u_prefix u = 0"
      using st0 size_adjust [OF plain(3)] value_desc_range(1)
      by (intro unpack_64v_data [OF page(1) [unfolded hdr] page(2)] value_window_read [OF tw value_in_types(1)]) auto
    then show ?thesis using plain(2) value_in_types(5) by (auto simp: hdr wt_cell_rle_def)
  next
    case full
    let ?x = "word_of_nat (length data)"
    have hdr: "wt_cell_pack_value tw rle (length data) = with_64v True WT_CELL_VALUE rle ?st @ pack_u ?x"
      using full by (auto simp: wt_cell_pack_value_def with_64v_def value_desc Let_def WT_CELL_SECOND_DESC_def)
    have "fst ?st \<noteq> 0 \<or> rle \<noteq> 0" using full second_desc(1) by (auto simp: value_desc)
    then have "\<exists>u. wt_cell_unpack_safe n chk diag s False page (length pre) = Some (Inr (u, Kv_window tw)) \<and>
      describes u pre (with_64v True WT_CELL_VALUE rle ?st @ pack_u ?x) data \<and> u_raw u = WT_CELL_VALUE \<and> u_type u = wt_cell_type WT_CELL_VALUE \<and>
      u_v u = (if True then rle else 0) \<and> u_prefix u = 0"
      using value_desc_range(1) second_desc
      by (intro unpack_64v_data [OF page(1) [unfolded hdr] page(2)] value_window_read [OF tw value_in_types(1)])
        (auto simp: WT_CELL_VALUE_def WT_CELL_KEY_def)
    then show ?thesis using value_in_types(5) by (auto simp: hdr wt_cell_rle_def)
  qed
qed

definition example_window :: wt_time_window where
  "example_window = \<lparr>durable_start_ts = 30, start_ts = 20, start_txn = 7, durable_stop_ts = 90, stop_ts = 90, stop_txn = 9, tw_prepare = 0\<rparr>"

definition example_sess :: time_session where
  "example_sess = \<lparr>has_stable_timestamp = False, stable_timestamp = 0, recovery_timestamp = 0, is_metadata = False\<rparr>"

definition example_page :: bytes where
  "example_page = [0] @ wt_cell_pack_value example_window 5 3 @ [1, 2, 3] @ wt_cell_pack_copy WT_TIME_WINDOW_INIT 8 13 @ [0]"

theorem cell_value_roundtrip_witness:
  "\<exists>u. wt_cell_unpack_safe 0 True True example_sess False example_page 1 = Some (Inr (u, Kv_window example_window)) \<and> wt_cell_rle u = 5"
proof -
  have p: "example_page = [0] @ wt_cell_pack_value example_window 5 (length [1, 2, 3 :: u8]) @ [1, 2, 3] @ wt_cell_pack_copy WT_TIME_WINDOW_INIT 8 13 @ [0]"
    by (simp add: example_page_def numeral_3_eq_3)
  have "storable_window example_window" "wt_time_value_validate example_sess example_window None = Inr ()" "length example_page < 50"
    by code_simp+
  then show ?thesis
    using cell_value_roundtrip [where tw = example_window and diag = True and s = example_sess and n = 0 and chk = True, OF _ _ p] by auto
qed

text \<open>
  C27: Address cells. The cell in front of a block address is unpacked with the same aggregated time window,
  address type and record number, and with the place and the size of the address.
\<close>

theorem cell_addr_roundtrip:
  assumes ta: "storable_aggregate ta" "diag \<longrightarrow> wt_time_aggregate_validate s ta None = Inr ()" and ty: "ty \<in> set addr_types"
    and page: "page = pre @ wt_cell_pack_addr ty recno ta (length data) @ data @ post" "length page < 2 ^ 32"
  shows "\<exists>u. wt_cell_unpack_safe n chk diag s True page (length pre) = Some (Inr (u, Addr_window ta)) \<and>
    describes u pre (wt_cell_pack_addr ty recno ta (length data)) data \<and> u_raw u = ty \<and> u_v u = recno"
proof -
  let ?st = "cell_pack_addr_validity ta"
  have "\<exists>u. wt_cell_unpack_safe n chk diag s True page (length pre) = Some (Inr (u, Addr_window ta)) \<and>
      describes u pre (with_64v (recno \<noteq> 0) ty recno ?st @ pack_u (word_of_nat (length data))) data \<and> u_raw u = ty \<and> u_type u = wt_cell_type ty \<and>
      u_v u = (if recno \<noteq> 0 then recno else 0) \<and> u_prefix u = 0"
    using value_desc_range(2) ty type_lists(8) [OF ty]
    by (intro unpack_64v_data [OF page(1) [unfolded wt_cell_pack_addr_def] page(2)] addr_window_read [OF ta ty]) auto
  then show ?thesis by (auto simp: wt_cell_pack_addr_def)
qed

definition example_aggregate :: wt_time_aggregate where
  "example_aggregate = (WT_TIME_AGGREGATE_UPDATE WT_TIME_AGGREGATE_INIT_MERGE example_window)\<lparr>init_merge := 0\<rparr>"

definition example_addr_page :: bytes where
  "example_addr_page = wt_cell_pack_addr WT_CELL_ADDR_LEAF 77 example_aggregate 2 @ [8, 9] @ []"

theorem cell_addr_roundtrip_witness:
  "\<exists>u. wt_cell_unpack_safe 0 True True example_sess True example_addr_page 0 = Some (Inr (u, Addr_window example_aggregate)) \<and> u_v u = 77"
proof -
  have p: "example_addr_page = [] @ wt_cell_pack_addr WT_CELL_ADDR_LEAF 77 example_aggregate (length [8, 9 :: u8]) @ [8, 9] @ []"
    by (simp add: example_addr_page_def numeral_2_eq_2)
  have "storable_aggregate example_aggregate" "wt_time_aggregate_validate example_sess example_aggregate None = Inr ()"
    "WT_CELL_ADDR_LEAF \<in> set addr_types" "length example_addr_page < 50" by code_simp+
  then show ?thesis
    using cell_addr_roundtrip [where ta = example_aggregate and diag = True and s = example_sess and n = 0 and chk = True, OF _ _ _ p] by auto
qed

text \<open>
  Key cells. Both key packing functions write a cell that is unpacked as a key with the same prefix
  count (none on internal pages) and with the place and the size of its data.
\<close>

theorem cell_key_roundtrip:
  assumes "page = pre @ (if leaf then wt_cell_pack_leaf_key pfx (length data) else wt_cell_pack_int_key (length data)) @ data @ post"
    "length page < 2 ^ 32"
  shows "\<exists>u. wt_cell_unpack_safe n chk diag s False page (length pre) = Some (Inr (u, Kv_window WT_TIME_WINDOW_INIT)) \<and>
    describes u pre (if leaf then wt_cell_pack_leaf_key pfx (length data) else wt_cell_pack_int_key (length data)) data \<and>
    u_type u = WT_CELL_KEY \<and> u_prefix u = (if leaf then pfx else 0)"
  using unpack_leaf_key [of page pre "if leaf then pfx else 0" data post n chk diag s] assms by (auto simp: int_key_is_leaf_key)

theorem cell_key_roundtrip_witness:
  "\<exists>u. wt_cell_unpack_safe 0 True True example_sess False (wt_cell_pack_leaf_key 4 2 @ [1, 2]) 0 = Some (Inr (u, Kv_window WT_TIME_WINDOW_INIT)) \<and>
    u_prefix u = 4"
proof -
  have "length (wt_cell_pack_leaf_key 4 2 @ [1, 2]) < 50" by code_simp
  then have "length (wt_cell_pack_leaf_key 4 2 @ [1, 2]) < 2 ^ 32" by simp
  moreover have "length [1, 2 :: u8] = 2" by simp
  ultimately show ?thesis
    using cell_key_roundtrip [of "wt_cell_pack_leaf_key 4 2 @ [1, 2]" "[]" True 4 "[1, 2]" "[]" 0 True True example_sess]
    by (simp only: if_True append_Nil append_Nil2 list.size(3)) blast
qed

text \<open>
  C28: Copy cells. A copy cell is unpacked as the data of the cell it refers to, with the time window and the run
  length of the copy and the length of the copy cell itself.
\<close>

theorem copy_cell_reads_original:
  assumes tw: "storable_window tw" "diag \<longrightarrow> wt_time_value_validate s tw None = Inr ()"
    and page: "page = pre @ wt_cell_pack_copy tw rle (word_of_nat (length pre - orig)) @ post" "length page < 2 ^ 32" "orig < length pre"
    and orig: "wt_cell_unpack_safe 0 chk diag s False page orig = Some (Inr (u, w))"
  shows "wt_cell_unpack_safe (Suc n) chk diag s False page (length pre) =
    Some (Inr (u\<lparr>u_cell := int (length pre), u_v := if rle < 2 then 0 else rle,
      u_len := word_of_nat (length (wt_cell_pack_copy tw rle (word_of_nat (length pre - orig)))), u_raw := WT_CELL_VALUE_COPY\<rparr>, Kv_window tw))"
proof -
  let ?hdr = "wt_cell_pack_copy tw rle (word_of_nat (length pre - orig))"
  have o: "unpack_pass chk diag s False page (int orig) (int orig) = Inr (Cell_done u w)"
    using orig by (auto simp: wt_cell_unpack_safe_def split: sum.splits cell_pass.splits)
  have "length pre < 2 ^ 32" using page(1,2) by simp
  then have "length pre - orig < 2 ^ 64" by simp
  then have "uint (word_of_nat (length pre - orig) :: u64) = int (length pre - orig)"
    by (simp only: uint_nat unat_of_nat take_bit_nat_eq_self len_of_numeral_defs) (simp add: take_bit_nat_eq_self)
  then have d: "int (length pre) - uint (word_of_nat (length pre - orig) :: u64) = int orig" using page(3) by simp
  have "length ?hdr < 2 ^ 32" using page(1,2) by simp
  then have "unat (word_of_nat (length ?hdr) :: u32) = length ?hdr" by (rule unat_nat32)
  then have "WT_CELL_LEN_CHK chk page (int orig) (unat (word_of_nat (length ?hdr) :: u32)) = Inr ()"
    using page(1,3) by (simp add: WT_CELL_LEN_CHK_def)
  then show ?thesis
    using pass_copy [OF tw page(1,2), of chk "int (length pre)"] pass_cell0 [OF o, of "int (length pre)"] d
    by (simp add: wt_cell_unpack_safe_def)
qed

theorem copy_cell_reads_original_witness:
  "\<exists>u w. wt_cell_unpack_safe 0 True True example_sess False example_page 1 = Some (Inr (u, w)) \<and>
    wt_cell_unpack_safe 1 True True example_sess False example_page 14 =
      Some (Inr (u\<lparr>u_cell := 14, u_v := 8, u_len := 3, u_raw := WT_CELL_VALUE_COPY\<rparr>, Kv_window WT_TIME_WINDOW_INIT))"
proof -
  let ?pre = "[0] @ wt_cell_pack_value example_window 5 3 @ [1, 2, 3]"
  have l: "length ?pre = 14" "length (wt_cell_pack_copy WT_TIME_WINDOW_INIT 8 13) = 3" by code_simp+
  have p: "example_page = ?pre @ wt_cell_pack_copy WT_TIME_WINDOW_INIT 8 (word_of_nat (length ?pre - 1)) @ [0]"
    unfolding l by (simp add: example_page_def)
  have c: "storable_window WT_TIME_WINDOW_INIT" "wt_time_value_validate example_sess WT_TIME_WINDOW_INIT None = Inr ()" "length example_page < 50"
    "wt_cell_unpack_safe 0 True True example_sess False example_page 1 \<noteq> None" by code_simp+
  have "(case wt_cell_unpack_safe 0 True True example_sess False example_page 1 of Some (Inr _) \<Rightarrow> True | _ \<Rightarrow> False)" by code_simp
  then obtain u w where u: "wt_cell_unpack_safe 0 True True example_sess False example_page 1 = Some (Inr (u, w))"
    by (auto split: option.splits sum.splits)
  have "wt_cell_unpack_safe (Suc 0) True True example_sess False example_page (length ?pre) =
      Some (Inr (u\<lparr>u_cell := int (length ?pre), u_v := if (8 :: u64) < 2 then 0 else 8,
        u_len := word_of_nat (length (wt_cell_pack_copy WT_TIME_WINDOW_INIT 8 (word_of_nat (length ?pre - 1)))), u_raw := WT_CELL_VALUE_COPY\<rparr>,
        Kv_window WT_TIME_WINDOW_INIT))"
    using c l by (intro copy_cell_reads_original [OF _ _ p _ _ u]) auto
  then show ?thesis using u unfolding l by (simp add: l)
qed



text \<open>
  C30: Matching of value cells. The comparison of a value cell on a page with a new value decides on the
  stored lengths and on that many bytes. It is equality of the values where neither cell stores an adjusted length,
  that is for short values and for cells with a window or run length; two long values without both match although they
  differ in their last 64 bytes.
\<close>

theorem cell_value_match:
  assumes "length da < 2 ^ 32" "length db < 2 ^ 32"
  shows "(stored_len ta ra (length da) = length da \<and> stored_len tb rb (length db) = length db \<longrightarrow>
      wt_cell_pack_value_match (wt_cell_pack_value ta ra (length da) @ da @ post) (wt_cell_pack_value tb rb (length db)) db = Inr (da = db)) \<and>
    (stored_len ta ra (length da) = length da - WT_CELL_SIZE_ADJUST \<and> stored_len tb rb (length db) = length db - WT_CELL_SIZE_ADJUST \<and>
       length da = length db \<longrightarrow>
      wt_cell_pack_value_match (wt_cell_pack_value ta ra (length da) @ da @ post) (wt_cell_pack_value tb rb (length db)) db =
        Inr (take (length da - WT_CELL_SIZE_ADJUST) da = take (length da - WT_CELL_SIZE_ADJUST) db))"
  using value_match_spec [OF assms, of ta ra post tb rb] by (auto simp: Let_def)

theorem cell_value_match_witness:
  "wt_cell_pack_value_match (wt_cell_pack_value WT_TIME_WINDOW_INIT 0 65 @ replicate 65 0) (wt_cell_pack_value WT_TIME_WINDOW_INIT 0 65)
    (replicate 64 0 @ [1]) = Inr True \<and> replicate 65 0 \<noteq> replicate 64 0 @ [1 :: u8]"
proof -
  let ?a = "replicate 65 0 :: bytes" and ?b = "replicate 64 0 @ [1] :: bytes"
  have s: "stored_len WT_TIME_WINDOW_INIT 0 65 = 65 - WT_CELL_SIZE_ADJUST" "take (65 - WT_CELL_SIZE_ADJUST) ?a = take (65 - WT_CELL_SIZE_ADJUST) ?b"
    "?a \<noteq> ?b" by code_simp+
  have l: "length ?a = 65" "length ?b = 65" by simp_all
  show ?thesis
    using cell_value_match [of ?a ?b WT_TIME_WINDOW_INIT 0 WT_TIME_WINDOW_INIT 0 "[]"] s unfolding l by simp
qed



end
