(* ===== verification/Struct_Pack.thy ===== *)
theory Struct_Pack
  imports Intpack
begin

text \<open>
  Structure packing, \<^verbatim>\<open>src/src/include/packing_inline.h\<close> and \<^verbatim>\<open>src/src/packing/pack_impl.c\<close>: records of typed fields,
  described by a format string, as byte strings. Format strings are HOL strings without the terminating NUL;
  the iterator over a format has the memory of the string with the NUL. Arguments are the values of the C argument
  list: a string argument is the memory behind the pointer, an item its bytes. A missing argument, one of another type and
  a pointer that is moved out of its object are \<open>OOB_READ\<close>.

  Differences of pointers and sizes are natural numbers. Where the code subtracts below zero it goes on with a
  large value, the model with 0: both let every following size check pass. The JSON types, which only the
  JSON cursors use and no format contains, are left out. A value whose union does not hold the member of its type, which no caller
  makes, is an error. \<^verbatim>\<open>__wt_illegal_value\<close> panics the connection.
\<close>

subsection \<open>Types\<close>

datatype pack_u = U_i i64 | U_u u64 | U_s bytes | U_item bytes

record wt_pack_value =
  pv_u :: pack_u
  pv_size :: u32
  pv_havesize :: bool
  pv_type :: char

definition WT_PACK_VALUE_INIT :: wt_pack_value where
  "WT_PACK_VALUE_INIT = \<lparr>pv_u = U_i 0, pv_size = 1, pv_havesize = False, pv_type = CHR 0x00\<rparr>"

text \<open>\<open>pk_cur\<close> is the memory from the cursor on, \<open>pk_left\<close> the distance from the cursor to \<^verbatim>\<open>end\<close>.\<close>

record wt_pack =
  pk_cur :: string
  pk_left :: int
  pk_repeats :: nat
  pk_lastv :: wt_pack_value

datatype pack_arg = Arg_int u32 | Arg_int64 u64 | Arg_str bytes | Arg_item bytes

subsection \<open>Iteration over a format\<close>

definition pack_initn :: "string \<Rightarrow> nat \<Rightarrow> wt_pack result" where
  "pack_initn fmt len =
     (case fmt of
        [] \<Rightarrow> Inl OOB_READ
      | c # cs \<Rightarrow>
          if c = CHR ''@'' \<or> c = CHR ''<'' \<or> c = CHR ''>'' then Inl EINVAL
          else Inr \<lparr>pk_cur = (if c = CHR ''.'' then cs else fmt), pk_left = int len, pk_repeats = 0,
                    pk_lastv = WT_PACK_VALUE_INIT\<rparr>)"

definition pack_init :: "string \<Rightarrow> wt_pack result" where
  "pack_init fmt = pack_initn (fmt @ [CHR 0x00]) (length (takeWhile (\<lambda>c. c \<noteq> CHR 0x00) fmt))"

definition wt_isdigit :: "char \<Rightarrow> bool" where
  "wt_isdigit c \<longleftrightarrow> 48 \<le> (of_char c :: int) \<and> (of_char c :: int) \<le> 57"

text \<open>\<^verbatim>\<open>strtoul\<close> in base 10 at a digit: the number, not larger than \<^verbatim>\<open>ULONG_MAX\<close>, and the rest.\<close>

definition digit_value :: "char \<Rightarrow> int" where
  "digit_value c = of_char c - 48"

definition strtoul :: "string \<Rightarrow> u64 \<times> string" where
  "strtoul cs =
     (let n = foldl (\<lambda>n d. 10 * n + digit_value d) 0 (takeWhile wt_isdigit cs)
      in (if n > 0xffffffffffffffff then 0xffffffffffffffff else word_of_int n, dropWhile wt_isdigit cs))"

definition integral_types :: string where
  "integral_types = ''bhiBHIlLqQrR''"

text \<open>An optional size in front of a type, by default 1.\<close>

definition pack_prefix :: "string \<Rightarrow> bool \<times> u32 \<times> string" where
  "pack_prefix cur =
     (if cur \<noteq> [] \<and> wt_isdigit (hd cur) then (True, ucast (fst (strtoul cur)), snd (strtoul cur)) else (False, 1, cur))"

text \<open>The switch on the type; \<open>None\<close> is \<^verbatim>\<open>goto next\<close>, for integral types that are repeated 0 times.\<close>

definition pack_switch :: "bool \<Rightarrow> u32 \<Rightarrow> char \<Rightarrow> string \<Rightarrow> int \<Rightarrow> (wt_pack_value \<times> wt_pack) option result" where
  "pack_switch havesize sz ty cur left =
     (let pv = \<lparr>pv_u = U_i 0, pv_size = sz, pv_havesize = havesize, pv_type = ty\<rparr>;
          pk = \<lparr>pk_cur = cur, pk_left = left, pk_repeats = 0, pk_lastv = WT_PACK_VALUE_INIT\<rparr>
      in if ty = CHR ''S'' \<or> ty = CHR ''x'' \<or> ty = CHR ''U'' then Inr (Some (pv, pk))
         else if ty = CHR ''s'' then if sz < 1 then Inl EINVAL else Inr (Some (pv, pk))
         else if ty = CHR ''t'' then if sz < 1 \<or> sz > 8 then Inl EINVAL else Inr (Some (pv, pk))
         else if ty = CHR ''u'' then
           (case cur of
              [] \<Rightarrow> Inl OOB_READ
            | d # _ \<Rightarrow> Inr (Some (if \<not> havesize \<and> d \<noteq> CHR 0x00 then pv\<lparr>pv_type := CHR ''U''\<rparr> else pv, pk)))
         else if ty \<in> set integral_types then
           if sz = 0 then Inr None
           else let pv = pv\<lparr>pv_havesize := False\<rparr> in Inr (Some (pv, pk\<lparr>pk_repeats := unat sz - 1, pk_lastv := pv\<rparr>))
         else Inl EINVAL)"

lemma strtoul_shorter: "length (snd (strtoul cs)) \<le> length cs"
  by (simp add: strtoul_def Let_def length_dropWhile_le)

lemma pack_prefix_shorter: "pack_prefix cur = (h, sz, ty # cur') \<Longrightarrow> length cur' < length cur"
  using strtoul_shorter [of cur] by (auto simp: pack_prefix_def split: if_splits)

lemma pack_switch_cur: "pack_switch h sz ty cur left = Inr (Some (pv, pk)) \<Longrightarrow> pk_cur pk = cur"
  by (auto simp: pack_switch_def Let_def split: if_splits list.splits)

text \<open>The part of \<^verbatim>\<open>__pack_next\<close> behind the label \<^verbatim>\<open>next\<close>.\<close>

function pack_field :: "string \<Rightarrow> int \<Rightarrow> (wt_pack_value \<times> wt_pack) result" where
  "pack_field cur left =
     (if left = 0 then Inl WT_NOTFOUND
      else case pack_prefix cur of
        (havesize, sz, []) \<Rightarrow> Inl OOB_READ
      | (havesize, sz, ty # cur') \<Rightarrow>
          let left' = left - int (length cur - length cur')
          in WT_RET (pack_switch havesize sz ty cur' left') (\<lambda>r. case r of None \<Rightarrow> pack_field cur' left' | Some x \<Rightarrow> Inr x))"
  by pat_completeness auto
termination
  by (relation "measure (\<lambda>(cur, left). length cur)") (auto dest!: pack_prefix_shorter [OF sym])

definition pack_next :: "wt_pack \<Rightarrow> (wt_pack_value \<times> wt_pack) result" where
  "pack_next pack =
     (if pk_repeats pack > 0 then Inr (pk_lastv pack, pack\<lparr>pk_repeats := pk_repeats pack - 1\<rparr>)
      else pack_field (pk_cur pack) (pk_left pack))"

lemma pack_field_shorter: "pack_field cur left = Inr (pv, pk) \<Longrightarrow> length (pk_cur pk) < length cur"
proof (induction cur left rule: pack_field.induct)
  case (1 cur left)
  obtain h sz rest where p: "pack_prefix cur = (h, sz, rest)" by (cases "pack_prefix cur") auto
  show ?case
  proof (cases rest)
    case Nil
    with 1(2) p show ?thesis by (simp split: if_splits)
  next
    case (Cons ty cur')
    have lt: "length cur' < length cur" using p Cons pack_prefix_shorter by blast
    let ?l = "left - int (length cur - length cur')"
    have n: "left \<noteq> 0" using 1(2) by (auto split: if_splits)
    with 1(2) p Cons obtain r where r: "pack_switch h sz ty cur' ?l = Inr r" "(case r of None \<Rightarrow> pack_field cur' ?l | Some x \<Rightarrow> Inr x) = Inr (pv, pk)"
      by (auto simp: Let_def simp del: pack_field.simps simp add: pack_field.simps [of cur])
    show ?thesis
    proof (cases r)
      case None
      then have "length (pk_cur pk) < length cur'"
        using r 1(1) [OF n p [symmetric] refl Cons refl r(1) None] by simp
      with lt show ?thesis by simp
    next
      case (Some x)
      with r lt pack_switch_cur show ?thesis by auto
    qed
  qed
qed

declare pack_field.simps [simp del]

text \<open>The loop \<^verbatim>\<open>while ((ret = __pack_next(&pack, &pv)) == 0)\<close> with a body that may return an error, and \<^verbatim>\<open>WT_RET_NOTFOUND_OK\<close>.\<close>

function pack_loop :: "(wt_pack_value \<Rightarrow> 's \<Rightarrow> 's result) \<Rightarrow> wt_pack \<Rightarrow> 's \<Rightarrow> 's result" where
  "pack_loop body pack st =
     (case pack_next pack of
        Inl e \<Rightarrow> if e = WT_NOTFOUND then Inr st else Inl e
      | Inr (pv, pack') \<Rightarrow> WT_RET (body pv st) (\<lambda>st. pack_loop body pack' st))"
  by pat_completeness auto
termination
  by (relation "measures [\<lambda>(body, pack, st). length (pk_cur pack), \<lambda>(body, pack, st). pk_repeats pack]")
    (auto simp: pack_next_def dest: pack_field_shorter split: if_splits)

declare pack_loop.simps [simp del]

subsection \<open>Arguments\<close>

text \<open>\<^verbatim>\<open>WT_PACK_GET\<close> takes the argument of a field; smaller integer types are passed as \<^verbatim>\<open>int\<close>.\<close>

definition WT_PACK_GET :: "wt_pack_value \<Rightarrow> pack_arg list \<Rightarrow> (wt_pack_value \<times> pack_arg list) result" where
  "WT_PACK_GET pv ap =
     (if pv_type pv = CHR ''x'' then Inr (pv, ap)
      else if pv_type pv = CHR ''s'' \<or> pv_type pv = CHR ''S'' then
        (case ap of Arg_str s # ap \<Rightarrow> Inr (pv\<lparr>pv_u := U_s s\<rparr>, ap) | _ \<Rightarrow> Inl OOB_READ)
      else if pv_type pv = CHR ''U'' \<or> pv_type pv = CHR ''u'' then
        (case ap of Arg_item d # ap \<Rightarrow> Inr (pv\<lparr>pv_u := U_item d\<rparr>, ap) | _ \<Rightarrow> Inl OOB_READ)
      else if pv_type pv \<in> set ''bhil'' then
        (case ap of Arg_int w # ap \<Rightarrow> Inr (pv\<lparr>pv_u := U_i (scast w)\<rparr>, ap) | _ \<Rightarrow> Inl OOB_READ)
      else if pv_type pv \<in> set ''BHILt'' then
        (case ap of Arg_int w # ap \<Rightarrow> Inr (pv\<lparr>pv_u := U_u (ucast w)\<rparr>, ap) | _ \<Rightarrow> Inl OOB_READ)
      else if pv_type pv = CHR ''q'' then
        (case ap of Arg_int64 w # ap \<Rightarrow> Inr (pv\<lparr>pv_u := U_i w\<rparr>, ap) | _ \<Rightarrow> Inl OOB_READ)
      else if pv_type pv \<in> set ''QrR'' then
        (case ap of Arg_int64 w # ap \<Rightarrow> Inr (pv\<lparr>pv_u := U_u w\<rparr>, ap) | _ \<Rightarrow> Inl OOB_READ)
      else Inl WT_PANIC)"

text \<open>\<^verbatim>\<open>WT_UNPACK_PUT\<close> stores a field through the argument's type; the result is what is stored.\<close>

definition WT_UNPACK_PUT :: "wt_pack_value \<Rightarrow> pack_arg list result" where
  "WT_UNPACK_PUT pv =
     (if pv_type pv = CHR ''x'' then Inr []
      else case pv_u pv of
        U_s s \<Rightarrow> if pv_type pv = CHR ''s'' \<or> pv_type pv = CHR ''S'' then Inr [Arg_str s] else Inl WT_PANIC
      | U_item d \<Rightarrow> if pv_type pv = CHR ''U'' \<or> pv_type pv = CHR ''u'' then Inr [Arg_item d] else Inl WT_PANIC
      | U_i i \<Rightarrow>
          if pv_type pv = CHR ''b'' then Inr [Arg_int (scast (ucast i :: u8))]
          else if pv_type pv = CHR ''h'' then Inr [Arg_int (scast (ucast i :: u16))]
          else if pv_type pv = CHR ''i'' \<or> pv_type pv = CHR ''l'' then Inr [Arg_int (ucast i)]
          else if pv_type pv = CHR ''q'' then Inr [Arg_int64 i] else Inl WT_PANIC
      | U_u u \<Rightarrow>
          if pv_type pv = CHR ''B'' \<or> pv_type pv = CHR ''t'' then Inr [Arg_int (ucast (ucast u :: u8))]
          else if pv_type pv = CHR ''H'' then Inr [Arg_int (ucast (ucast u :: u16))]
          else if pv_type pv = CHR ''I'' \<or> pv_type pv = CHR ''L'' then Inr [Arg_int (ucast u)]
          else if pv_type pv \<in> set ''QrR'' then Inr [Arg_int64 u] else Inl WT_PANIC)"

subsection \<open>One field\<close>

definition wt_strlen :: "bytes \<Rightarrow> nat result" where
  "wt_strlen s = (if 0 \<in> set s then Inr (length (takeWhile (\<lambda>b. b \<noteq> 0) s)) else Inl OOB_READ)"

definition wt_strnlen :: "bytes \<Rightarrow> nat \<Rightarrow> nat result" where
  "wt_strnlen s n =
     (let k = length (takeWhile (\<lambda>b. b \<noteq> 0) (take n s)) in if k < n \<and> k = length s then Inl OOB_READ else Inr k)"

text \<open>The bytes of an item that are written and the padding behind them, for a given size.\<close>

definition item_pad :: "wt_pack_value \<Rightarrow> nat \<Rightarrow> nat \<times> nat" where
  "item_pad pv s =
     (if pv_havesize pv \<and> unat (pv_size pv) < s then (unat (pv_size pv), 0)
      else if pv_havesize pv then (s, unat (pv_size pv) - s) else (s, 0))"

definition pack_size :: "wt_pack_value \<Rightarrow> nat result" where
  "pack_size pv =
     (if pv_type pv = CHR ''x'' then Inr (unat (pv_size pv))
      else case pv_u pv of
        U_s s \<Rightarrow>
          if pv_type pv = CHR ''s'' \<or> pv_type pv = CHR ''S'' then
            if pv_type pv = CHR ''s'' \<or> pv_havesize pv then Inr (unat (pv_size pv))
            else WT_RET (wt_strlen s) (\<lambda>n. Inr (n + 1))
          else Inl EINVAL
      | U_item d \<Rightarrow>
          if pv_type pv = CHR ''U'' \<or> pv_type pv = CHR ''u'' then
            (let (s, pad) = item_pad pv (length d);
                 s = (if pv_type pv = CHR ''U'' then s + wt_vsize_uint (word_of_nat (s + pad)) else s)
             in Inr (s + pad))
          else Inl EINVAL
      | U_i i \<Rightarrow>
          if pv_type pv = CHR ''b'' then Inr 1
          else if pv_type pv \<in> set ''hilq'' then Inr (wt_vsize_int i) else Inl EINVAL
      | U_u u \<Rightarrow>
          if pv_type pv = CHR ''B'' \<or> pv_type pv = CHR ''t'' then Inr 1
          else if pv_type pv \<in> set ''HILQr'' then Inr (wt_vsize_uint u)
          else if pv_type pv = CHR ''R'' then Inr 8 else Inl EINVAL)"

text \<open>A 64-bit integer in memory, on a little-endian machine.\<close>

definition le_bytes :: "u64 \<Rightarrow> bytes" where
  "le_bytes u = map (\<lambda>i. ucast (drop_bit (8 * i) u)) [0, 1, 2, 3, 4, 5, 6, 7]"

fun le_value :: "bytes \<Rightarrow> u64" where
  "le_value [] = 0"
| "le_value (b # bs) = ucast b OR push_bit 8 (le_value bs)"

definition pack_write :: "wt_pack_value \<Rightarrow> nat \<Rightarrow> bytes result" where
  "pack_write pv maxlen =
     (if pv_type pv = CHR ''x'' then WT_SIZE_CHECK_PACK (unat (pv_size pv)) maxlen (Inr (replicate (unat (pv_size pv)) 0))
      else case pv_u pv of
        U_s s \<Rightarrow>
          if pv_type pv = CHR ''s'' then
            WT_SIZE_CHECK_PACK (unat (pv_size pv)) maxlen
              (if length s < unat (pv_size pv) then Inl OOB_READ else Inr (take (unat (pv_size pv)) s))
          else if pv_type pv = CHR ''S'' then
            WT_RET (if pv_havesize pv
                    then WT_RET (wt_strnlen s (unat (pv_size pv))) (\<lambda>n. Inr (n, unat (pv_size pv) - n))
                    else WT_RET (wt_strlen s) (\<lambda>n. Inr (n, 1))) (\<lambda>(n, pad).
            WT_SIZE_CHECK_PACK (n + pad) maxlen (Inr (take n s @ replicate pad 0)))
          else Inl EINVAL
      | U_item d \<Rightarrow>
          if pv_type pv = CHR ''U'' \<or> pv_type pv = CHR ''u'' then
            (let (s, pad) = item_pad pv (length d) in
             WT_RET (if pv_type pv = CHR ''U''
                     then WT_SIZE_CHECK_PACK 1 maxlen (wt_vpack_uint maxlen (word_of_nat (s + pad))) else Inr []) (\<lambda>hdr.
             WT_SIZE_CHECK_PACK (s + pad) (maxlen - length hdr) (Inr (hdr @ take s d @ replicate pad 0))))
          else Inl EINVAL
      | U_i i \<Rightarrow>
          if pv_type pv = CHR ''b'' then WT_SIZE_CHECK_PACK 1 maxlen (Inr [ucast (i + 0x80)])
          else if pv_type pv \<in> set ''hilq'' then WT_SIZE_CHECK_PACK 1 maxlen (wt_vpack_int maxlen i)
          else Inl EINVAL
      | U_u u \<Rightarrow>
          if pv_type pv = CHR ''B'' \<or> pv_type pv = CHR ''t'' then WT_SIZE_CHECK_PACK 1 maxlen (Inr [ucast u])
          else if pv_type pv \<in> set ''HILQr'' then WT_SIZE_CHECK_PACK 1 maxlen (wt_vpack_uint maxlen u)
          else if pv_type pv = CHR ''R'' then WT_SIZE_CHECK_PACK 8 maxlen (Inr (le_bytes u))
          else Inl EINVAL)"

text \<open>Moves the read pointer; out of the buffer it is an error that C does not have.\<close>

definition advance :: "nat \<Rightarrow> bytes \<Rightarrow> (bytes \<times> bytes) result" where
  "advance n p = (if length p < n then Inl OOB_READ else Inr (take n p, drop n p))"

definition unpack_read :: "wt_pack_value \<Rightarrow> bytes \<Rightarrow> nat \<Rightarrow> (wt_pack_value \<times> bytes) result" where
  "unpack_read pv p maxlen =
     (if pv_type pv = CHR ''x'' then
        WT_SIZE_CHECK_UNPACK (unat (pv_size pv)) maxlen
          (WT_RET (advance (unat (pv_size pv)) p) (\<lambda>(_, q). Inr (pv, q)))
      else if pv_type pv = CHR ''s'' \<or> pv_type pv = CHR ''S'' then
        WT_RET (if pv_type pv = CHR ''s'' \<or> pv_havesize pv then Inr (unat (pv_size pv))
                else WT_RET (wt_strlen p) (\<lambda>n. Inr (n + 1))) (\<lambda>s.
        WT_SIZE_CHECK_UNPACK s maxlen
          (WT_RET (advance s p) (\<lambda>(_, q). Inr (if s > 0 then pv\<lparr>pv_u := U_s p\<rparr> else pv, q))))
      else if pv_type pv = CHR ''U'' \<or> pv_type pv = CHR ''u'' then
        WT_RET (if pv_type pv = CHR ''U''
                then WT_SIZE_CHECK_UNPACK 1 maxlen (WT_RET (wt_vunpack_uint maxlen p) (\<lambda>(u, q). Inr (unat u, q)))
                else Inr (maxlen, p)) (\<lambda>(n, q).
        let s = (if pv_havesize pv then unat (pv_size pv) else n)
        in WT_SIZE_CHECK_UNPACK s maxlen (WT_RET (advance s q) (\<lambda>(d, r). Inr (pv\<lparr>pv_u := U_item d\<rparr>, r))))
      else if pv_type pv = CHR ''b'' then
        WT_SIZE_CHECK_UNPACK 1 maxlen
          (case p of [] \<Rightarrow> Inl OOB_READ | b # q \<Rightarrow> Inr (pv\<lparr>pv_u := U_i (scast (b - 0x80))\<rparr>, q))
      else if pv_type pv = CHR ''B'' \<or> pv_type pv = CHR ''t'' then
        WT_SIZE_CHECK_UNPACK 1 maxlen
          (case p of [] \<Rightarrow> Inl OOB_READ | b # q \<Rightarrow> Inr (pv\<lparr>pv_u := U_u (ucast b)\<rparr>, q))
      else if pv_type pv \<in> set ''hilq'' then
        WT_SIZE_CHECK_UNPACK 1 maxlen (WT_RET (wt_vunpack_int maxlen p) (\<lambda>(i, q). Inr (pv\<lparr>pv_u := U_i i\<rparr>, q)))
      else if pv_type pv \<in> set ''HILQr'' then
        WT_SIZE_CHECK_UNPACK 1 maxlen (WT_RET (wt_vunpack_uint maxlen p) (\<lambda>(u, q). Inr (pv\<lparr>pv_u := U_u u\<rparr>, q)))
      else if pv_type pv = CHR ''R'' then
        WT_SIZE_CHECK_UNPACK 8 maxlen (WT_RET (advance 8 p) (\<lambda>(bs, q). Inr (pv\<lparr>pv_u := U_u (le_value bs)\<rparr>, q)))
      else Inl EINVAL)"

subsection \<open>Whole structures\<close>

text \<open>
  A format of one character is not iterated over. Behind the end of the buffer \<^verbatim>\<open>(size_t)(end - p)\<close> is a huge number, which no check
  refuses, as no check refuses the 0 that the subtraction of natural numbers gives.
\<close>

definition single_pv :: "char \<Rightarrow> wt_pack_value" where
  "single_pv c = WT_PACK_VALUE_INIT\<lparr>pv_type := c\<rparr>"

definition pack_step :: "nat \<Rightarrow> wt_pack_value \<Rightarrow> bytes \<times> pack_arg list \<Rightarrow> (bytes \<times> pack_arg list) result" where
  "pack_step sz pv st =
     WT_RET (WT_PACK_GET pv (snd st)) (\<lambda>(pv, ap).
     WT_RET (pack_write pv (sz - length (fst st))) (\<lambda>bs. Inr (fst st @ bs, ap)))"

definition wt_struct_packv :: "nat \<Rightarrow> string \<Rightarrow> pack_arg list \<Rightarrow> bytes result" where
  "wt_struct_packv sz fmt ap =
     WT_RET
      (case fmt of
         [c] \<Rightarrow> pack_step sz (single_pv c) ([], ap)
       | _ \<Rightarrow> WT_RET (pack_init fmt) (\<lambda>pack. pack_loop (pack_step sz) pack ([], ap))) (\<lambda>st. Inr (fst st))"

definition size_step :: "wt_pack_value \<Rightarrow> nat \<times> pack_arg list \<Rightarrow> (nat \<times> pack_arg list) result" where
  "size_step pv st =
     WT_RET (WT_PACK_GET pv (snd st)) (\<lambda>(pv, ap). WT_RET (pack_size pv) (\<lambda>v. Inr (fst st + v, ap)))"

definition wt_struct_sizev :: "string \<Rightarrow> pack_arg list \<Rightarrow> nat result" where
  "wt_struct_sizev fmt ap =
     WT_RET
      (case fmt of
         [c] \<Rightarrow> size_step (single_pv c) (0, ap)
       | _ \<Rightarrow> WT_RET (pack_init fmt) (\<lambda>pack. pack_loop size_step pack (0, ap))) (\<lambda>st. Inr (fst st))"

definition unpack_step :: "wt_pack_value \<Rightarrow> bytes \<times> pack_arg list \<Rightarrow> (bytes \<times> pack_arg list) result" where
  "unpack_step pv st =
     WT_RET (unpack_read pv (fst st) (length (fst st))) (\<lambda>(pv, p).
     WT_RET (WT_UNPACK_PUT pv) (\<lambda>vs. Inr (p, snd st @ vs)))"

definition wt_struct_unpackv :: "bytes \<Rightarrow> string \<Rightarrow> pack_arg list result" where
  "wt_struct_unpackv buffer fmt =
     WT_RET
      (case fmt of
         [c] \<Rightarrow> unpack_step (single_pv c) (buffer, [])
       | _ \<Rightarrow> WT_RET (pack_init fmt) (\<lambda>pack. pack_loop unpack_step pack (buffer, []))) (\<lambda>st. Inr (snd st))"

text \<open>The result of \<^verbatim>\<open>__wt_struct_check\<close> for a caller that asks for it: the size of a fixed-length bit field.\<close>

definition wt_struct_check :: "string \<Rightarrow> nat \<Rightarrow> u32 option result" where
  "wt_struct_check fmt len =
     WT_RET (pack_initn fmt len) (\<lambda>pack.
     WT_RET (pack_loop (\<lambda>pv pvs. Inr (pvs @ [pv])) pack []) (\<lambda>pvs.
     Inr (if pvs = [] then Some 0
          else if length pvs = 1 \<and> pv_type (last pvs) = CHR ''t'' then Some (pv_size (last pvs)) else None)))"

text \<open>
  The part of a packed structure that a shorter format describes: its start and its size. Where no field is taken, the
  source sets a null pointer as the start and a size that is the difference of a pointer with it, here \<open>None\<close>.
\<close>

definition repack_step ::
  "nat \<Rightarrow> wt_pack_value \<Rightarrow> wt_pack \<times> bytes \<times> nat option \<Rightarrow> (wt_pack \<times> bytes \<times> nat option) result" where
  "repack_step inlen pvout st =
     (case st of (packin, p, start) \<Rightarrow>
      if p = [] then Inl EINVAL
      else if pv_type pvout = CHR ''x'' \<and> pv_size pvout = 0 \<and> pv_havesize pvout then Inr st
      else WT_RET (pack_next packin) (\<lambda>(pvin, packin).
           WT_RET (unpack_read pvin p (length p)) (\<lambda>(_, q).
           if pv_type pvout \<noteq> pv_type pvin then Inl ENOTSUP
           else Inr (packin, q, if start = None then Some (inlen - length p) else start))))"

definition wt_struct_repack :: "string \<Rightarrow> string \<Rightarrow> bytes \<Rightarrow> (nat \<times> nat) option result" where
  "wt_struct_repack infmt outfmt inbuf =
     WT_RET (pack_init outfmt) (\<lambda>packout.
     WT_RET (pack_init infmt) (\<lambda>packin.
     WT_RET (pack_loop (repack_step (length inbuf)) packout (packin, inbuf, None)) (\<lambda>(_, p, start).
     Inr (map_option (\<lambda>s. (s, length inbuf - length p - s)) start))))"

text \<open>\<^verbatim>\<open>__wt_struct_size_adjust\<close>, with a bound on the number of iterations.\<close>

fun size_adjust_loop :: "nat \<Rightarrow> nat \<Rightarrow> nat \<Rightarrow> nat option" where
  "size_adjust_loop 0 curr_size prev_field_size = None"
| "size_adjust_loop (Suc n) curr_size prev_field_size =
     (let field_size = wt_vsize_uint (word_of_nat curr_size)
      in if field_size = prev_field_size then Some curr_size
         else size_adjust_loop n (curr_size + field_size - prev_field_size) field_size)"

definition wt_struct_size_adjust :: "nat \<Rightarrow> nat option" where
  "wt_struct_size_adjust sz = size_adjust_loop 10 sz 1"

subsection \<open>The bytes of one field\<close>

text \<open>An argument that is in the range of its field and has the memory that is read.\<close>

definition arg_ok :: "wt_pack_value \<Rightarrow> bool" where
  "arg_ok pv \<longleftrightarrow>
     pv_type pv = CHR ''x'' \<or>
     (case pv_u pv of
        U_s s \<Rightarrow> pv_type pv = CHR ''s'' \<and> pv_size pv \<noteq> 0 \<and> unat (pv_size pv) \<le> length s \<or>
          pv_type pv = CHR ''S'' \<and> (if pv_havesize pv then pv_size pv \<noteq> 0 \<and> (unat (pv_size pv) \<le> length s \<or> 0 \<in> set (take (unat (pv_size pv)) s)) else 0 \<in> set s)
      | U_item d \<Rightarrow> pv_type pv \<in> set ''Uu'' \<and> int (length d) < 0x10000000000000000
      | U_i i \<Rightarrow> pv_type pv = CHR ''b'' \<and> sint i \<in> {-128..<128} \<or> pv_type pv = CHR ''h'' \<and> sint i \<in> {-32768..<32768} \<or> pv_type pv \<in> set ''ilq''
      | U_u u \<Rightarrow> pv_type pv \<in> set ''Bt'' \<and> u < 256 \<or> pv_type pv = CHR ''H'' \<and> u < 65536 \<or> pv_type pv \<in> set ''ILQrR'')"

abbreviation c_string :: "bytes \<Rightarrow> bytes" where
  "c_string s \<equiv> takeWhile (\<lambda>b. b \<noteq> 0) s"

definition sized_item :: "wt_pack_value \<Rightarrow> bytes \<Rightarrow> bytes" where
  "sized_item pv d = (if pv_havesize pv then take (unat (pv_size pv)) d @ replicate (unat (pv_size pv) - length d) 0 else d)"

definition field_enc :: "wt_pack_value \<Rightarrow> bytes" where
  "field_enc pv =
     (let n = unat (pv_size pv) in
      if pv_type pv = CHR ''x'' then replicate n 0
      else case pv_u pv of
        U_s s \<Rightarrow> if pv_type pv = CHR ''s'' then take n s
               else if pv_havesize pv then c_string (take n s) @ replicate (n - length (c_string (take n s))) 0 else c_string s @ [0]
      | U_item d \<Rightarrow> (if pv_type pv = CHR ''U'' then uint_bytes (word_of_nat (length (sized_item pv d))) else []) @ sized_item pv d
      | U_i i \<Rightarrow> if pv_type pv = CHR ''b'' then [ucast (i + 0x80)] else int_bytes i
      | U_u u \<Rightarrow> if pv_type pv \<in> set ''Bt'' then [ucast u] else if pv_type pv = CHR ''R'' then le_bytes u else uint_bytes u)"

lemma item_pad_enc: "item_pad pv (length d) = (s, pad) \<Longrightarrow> take s d @ replicate pad 0 = sized_item pv d \<and> s + pad = length (sized_item pv d)"
  by (auto simp: item_pad_def sized_item_def split: if_splits)

lemma length_le_bytes [simp]: "length (le_bytes u) = 8"
  by (simp add: le_bytes_def)

lemma c_string_len: "length (c_string (take n s)) \<le> n"
  by (rule order_trans [OF length_takeWhile_le]) simp

lemma c_string_take: "take (length (c_string (take n s))) s = c_string (take n s)"
proof -
  have "take (length (c_string (take n s))) s = take (length (c_string (take n s))) (take n s)"
    using c_string_len [of n s] by (simp add: min_absorb1)
  also have "\<dots> = c_string (take n s)" by (metis takeWhile_eq_take)
  finally show ?thesis .
qed

lemma strnlen_ok:
  assumes "n \<le> length s \<or> 0 \<in> set (take n s)"
  shows "wt_strnlen s n = Inr (length (c_string (take n s)))"
proof -
  have "\<not> (length (c_string (take n s)) < n \<and> length (c_string (take n s)) = length s)"
  proof
    assume a: "length (c_string (take n s)) < n \<and> length (c_string (take n s)) = length s"
    then have "0 \<in> set (take n s)" using assms by auto
    then have "length (c_string (take n s)) < length (take n s)" by (intro takeWhile_shorter) auto
    moreover have "length (take n s) \<le> length s" by simp
    ultimately show False using a by linarith
  qed
  then show ?thesis by (simp add: wt_strnlen_def Let_def)
qed

lemma pack_size_enc: "arg_ok pv \<Longrightarrow> pack_size pv = Inr (length (field_enc pv))"
  using c_string_len [of "unat (pv_size pv)"]
  by (auto simp: arg_ok_def pack_size_def field_enc_def Let_def wt_strlen_def vsize_int_bytes vsize_uint_bytes simp del: of_nat_add
      split: pack_u.splits if_splits prod.splits dest!: item_pad_enc)

lemma pack_write_enc:
  assumes "arg_ok pv" "k = 0 \<or> length (field_enc pv) \<le> k"
  shows "pack_write pv k = Inr (field_enc pv)"
proof (cases "pv_type pv = CHR ''x''")
  case True
  then show ?thesis using assms by (auto simp: pack_write_def field_enc_def Let_def wt_macros)
next
  case x: False
  show ?thesis
  proof (cases "pv_u pv")
    case (U_i i)
    then show ?thesis using assms x
      by (auto simp: arg_ok_def pack_write_def field_enc_def Let_def wt_macros vpack_int_bytes)
  next
    case (U_u u)
    then show ?thesis using assms x
      by (auto simp: arg_ok_def pack_write_def field_enc_def Let_def wt_macros vpack_uint_bytes)
  next
    case (U_s s)
    let ?n = "unat (pv_size pv)"
    consider "pv_type pv = CHR ''s''" "?n \<le> length s"
      | "pv_type pv = CHR ''S''" "pv_havesize pv" "?n \<le> length s \<or> 0 \<in> set (take ?n s)"
      | "pv_type pv = CHR ''S''" "\<not> pv_havesize pv" "0 \<in> set s"
      using assms(1) x U_s by (auto simp: arg_ok_def split: if_splits)
    then show ?thesis using assms(2) U_s c_string_len [of ?n s]
      by cases (simp_all add: pack_write_def field_enc_def Let_def wt_macros wt_strlen_def strnlen_ok c_string_take takeWhile_eq_take [symmetric] not_less)
  next
    case (U_item d)
    obtain m pad where p: "item_pad pv (length d) = (m, pad)" by (cases "item_pad pv (length d)") auto
    note i = item_pad_enc [OF p]
    from U_item show ?thesis using assms x i p
      by (auto simp: arg_ok_def pack_write_def field_enc_def Let_def wt_macros vpack_uint_bytes simp del: of_nat_add)
  qed
qed

end
