(* ===== verification/Struct_Roundtrip.thy ===== *)
theory Struct_Roundtrip
  imports Struct_Pack
begin

text \<open>
  What the packing functions of \<^verbatim>\<open>src/src/include/packing_inline.h\<close> write: unpacking reads it back, the size function announces its
  length, packed keys sort as their fields do, and where the checks of the buffer's length fail.
\<close>

subsection \<open>Conversions of integer arguments\<close>

lemma byte_shift: "ucast (x + 0x80 :: u64) - 0x80 = (ucast x :: u8)"
proof (transfer, goal_cases)
  case (1 x)
  show ?case using take_bit_diff [of 8 "x + 128" 128] take_bit_diff [of 8 "take_bit 64 (x + 128)" 128] by (simp add: take_bit_take_bit)
qed

lemma ucast_scast_8: "ucast (scast (y :: u8) :: u64) = y"
  by transfer (simp add: take_bit_signed_take_bit take_bit_take_bit)

lemma int8_back: 
  fixes w :: u32
  assumes "sint (scast w :: u64) \<in> {-128..<128}" shows "scast (ucast (scast w :: u64) :: u8) = w"
proof (rule signed_word_eqI)
  have a: "sint (scast w :: u64) = sint w" by transfer (simp add: signed_take_bit_signed_take_bit)
  have "sint (scast (ucast (scast w :: u64) :: u8) :: u32) = sint (ucast (scast w :: u64) :: u8)"
    by transfer (simp add: signed_take_bit_signed_take_bit)
  also have "\<dots> = signed_take_bit 7 (sint w)" by transfer (simp add: signed_take_bit_take_bit take_bit_signed_take_bit signed_take_bit_signed_take_bit)
  also have "\<dots> = sint w" using assms unfolding a by (auto simp: signed_take_bit_int_eq_self)
  finally show "sint (scast (ucast (scast w :: u64) :: u8) :: u32) = sint w" .
qed
lemma int16_back: 
  fixes w :: u32
  assumes "sint (scast w :: u64) \<in> {-32768..<32768}" shows "scast (ucast (scast w :: u64) :: u16) = w"
proof (rule signed_word_eqI)
  have a: "sint (scast w :: u64) = sint w" by transfer (simp add: signed_take_bit_signed_take_bit)
  have "sint (scast (ucast (scast w :: u64) :: u16) :: u32) = sint (ucast (scast w :: u64) :: u16)"
    by transfer (simp add: signed_take_bit_signed_take_bit)
  also have "\<dots> = signed_take_bit 15 (sint w)" by transfer (simp add: signed_take_bit_take_bit take_bit_signed_take_bit signed_take_bit_signed_take_bit)
  also have "\<dots> = sint w" using assms unfolding a by (auto simp: signed_take_bit_int_eq_self)
  finally show "sint (scast (ucast (scast w :: u64) :: u16) :: u32) = sint w" .
qed

lemma ucast_scast_32: "ucast (scast (w :: u32) :: u64) = w"
  by transfer (simp add: take_bit_signed_take_bit take_bit_take_bit)
lemma ucast_ucast_8: "ucast (ucast (b :: u8) :: u64) = b"
  by transfer (simp add: take_bit_take_bit)

lemma ucast_ucast_32: "ucast (ucast (w :: u32) :: u64) = w"
  by transfer (simp add: take_bit_take_bit)
lemma uint8_back: "(ucast (w :: u32) :: u64) < 256 \<Longrightarrow> ucast (ucast (ucast w :: u64) :: u8) = w"
proof (transfer, goal_cases)
  case (1 w)
  then have "take_bit 32 w < 2 ^ 8" "0 \<le> take_bit 32 w" by (simp_all add: take_bit_take_bit)
  then have "take_bit 8 (take_bit 32 w) = take_bit 32 w" by (intro take_bit_int_eq_self)
  then show ?case by (simp add: take_bit_take_bit)
qed
lemma uint16_back: "(ucast (w :: u32) :: u64) < 65536 \<Longrightarrow> ucast (ucast (ucast w :: u64) :: u16) = w"
proof (transfer, goal_cases)
  case (1 w)
  then have "take_bit 32 w < 2 ^ 16" "0 \<le> take_bit 32 w" by (simp_all add: take_bit_take_bit)
  then have "take_bit 16 (take_bit 32 w) = take_bit 32 w" by (intro take_bit_int_eq_self)
  then show ?case by (simp add: take_bit_take_bit)
qed

lemma le_step: "ucast (ucast u :: u8) OR push_bit 8 (take_bit n (drop_bit 8 u)) = (take_bit (8 + n) u :: u64)"
  by (rule bit_word_eqI) (auto simp: bit_simps)

lemma le_value_bytes: "le_value (le_bytes u) = u"
proof -
  have s: "ucast (drop_bit m u) = (ucast (drop_bit m u) :: u8)" for m ..
  have "le_bytes u = map (\<lambda>i. ucast (drop_bit (8 * i) u)) [0..<8]" by (simp add: le_bytes_def upt_rec)
  moreover have "le_value (map (\<lambda>i. ucast (drop_bit (8 * (k + i)) u)) [0..<n]) = take_bit (8 * n) (drop_bit (8 * k) u)" for n k
  proof (induction n arbitrary: k)
    case (Suc n)
    have "map (\<lambda>i. ucast (drop_bit (8 * (k + i)) u) :: u8) [0..<Suc n] = ucast (drop_bit (8 * k) u) # map (\<lambda>i. ucast (drop_bit (8 * (Suc k + i)) u)) [0..<n]"
      by (simp add: map_upt_Suc ac_simps del: upt_Suc)
    then show ?case using Suc [of "Suc k"] le_step [of "drop_bit (8 * k) u" "8 * n"] by (simp add: add.commute)
  qed simp
  from this [of 0 8] have "le_value (map (\<lambda>i. ucast (drop_bit (8 * i) u)) [0..<8]) = take_bit 64 u" by simp
  ultimately show ?thesis by (simp add: take_bit_word_eq_self)
qed

text \<open>What of an argument is packed: a string up to its NUL and its size, an item with its padding.\<close>

definition field_value :: "wt_pack_value \<Rightarrow> pack_arg \<Rightarrow> pack_arg" where
  "field_value pv a =
     (case a of
        Arg_str s \<Rightarrow> Arg_str (if pv_type pv = CHR ''s'' then take (unat (pv_size pv)) s
                             else c_string (if pv_havesize pv then take (unat (pv_size pv)) s else s))
      | Arg_item d \<Rightarrow> Arg_item (sized_item pv d)
      | _ \<Rightarrow> a)"

definition greedy :: "wt_pack_value \<Rightarrow> bool" where
  "greedy pv \<longleftrightarrow> pv_type pv = CHR ''u'' \<and> \<not> pv_havesize pv"

lemma c_string_replicate: "c_string (c_string s @ replicate n 0) = c_string s"
  by (induction s) (auto simp: takeWhile_replicate)

lemma c_string_enc: "0 \<in> set s \<Longrightarrow> c_string (c_string s @ 0 # rest) = c_string s"
  by (induction s) auto

lemma check_unpack_ok: "l \<le> k \<Longrightarrow> WT_SIZE_CHECK_UNPACK l k r = r"
  by (simp add: wt_macros)

lemma uint_bytes_pos: "0 < length (uint_bytes x)" "0 < length (int_bytes x)"
  by (simp_all add: uint_bytes_def int_bytes_def Let_def)

lemma get_cases:
  assumes "WT_PACK_GET pv ap = Inr (pv', ap')" "pv_type pv \<noteq> CHR ''x''"
  obtains (int) w where "pv_type pv \<in> set ''bhil''" "ap = Arg_int w # ap'" "pv' = pv\<lparr>pv_u := U_i (scast w)\<rparr>"
    | (uint) w where "pv_type pv \<in> set ''BHILt''" "ap = Arg_int w # ap'" "pv' = pv\<lparr>pv_u := U_u (ucast w)\<rparr>"
    | (int64) w where "pv_type pv = CHR ''q''" "ap = Arg_int64 w # ap'" "pv' = pv\<lparr>pv_u := U_i w\<rparr>"
    | (uint64) w where "pv_type pv \<in> set ''QrR''" "ap = Arg_int64 w # ap'" "pv' = pv\<lparr>pv_u := U_u w\<rparr>"
    | (str) s where "pv_type pv \<in> set ''sS''" "ap = Arg_str s # ap'" "pv' = pv\<lparr>pv_u := U_s s\<rparr>"
    | (item) d where "pv_type pv \<in> set ''Uu''" "ap = Arg_item d # ap'" "pv' = pv\<lparr>pv_u := U_item d\<rparr>"
proof (cases ap)
  case Nil
  with assms show ?thesis by (simp add: WT_PACK_GET_def split: if_splits)
next
  case (Cons a aq)
  then show ?thesis using assms that
    by (cases a) (simp_all add: WT_PACK_GET_def split: if_splits)
qed

lemmas read_defs = unpack_step_def unpack_read_def WT_UNPACK_PUT_def field_enc_def Let_def check_unpack_ok Suc_le_eq

lemma read_int:
  assumes "pv_type pv \<in> set ''bhil''" "arg_ok (pv\<lparr>pv_u := U_i (scast w)\<rparr>)"
  shows "unpack_step pv (field_enc (pv\<lparr>pv_u := U_i (scast w)\<rparr>) @ rest, acc) = Inr (rest, acc @ [Arg_int w])"
proof -
  let ?i = "scast w :: u64"
  consider "pv_type pv = CHR ''b''" "sint ?i \<in> {-128..<128}" | "pv_type pv = CHR ''h''" "sint ?i \<in> {-32768..<32768}"
    | "pv_type pv = CHR ''i''" | "pv_type pv = CHR ''l''"
    using assms by (auto simp: arg_ok_def)
  then show ?thesis
    using uint_bytes_pos by cases (simp_all add: read_defs vunpack_int_bytes byte_shift ucast_scast_8 int8_back int16_back ucast_scast_32)
qed

lemma read_uint:
  assumes "pv_type pv \<in> set ''BHILt''" "arg_ok (pv\<lparr>pv_u := U_u (ucast w)\<rparr>)"
  shows "unpack_step pv (field_enc (pv\<lparr>pv_u := U_u (ucast w)\<rparr>) @ rest, acc) = Inr (rest, acc @ [Arg_int w])"
proof -
  let ?i = "ucast w :: u64"
  consider "pv_type pv = CHR ''B''" "?i < 256" | "pv_type pv = CHR ''t''" "?i < 256" | "pv_type pv = CHR ''H''" "?i < 65536"
    | "pv_type pv = CHR ''I''" | "pv_type pv = CHR ''L''"
    using assms by (auto simp: arg_ok_def)
  then show ?thesis
    using uint_bytes_pos by cases (simp_all add: read_defs vunpack_uint_bytes uint8_back uint16_back ucast_ucast_8 ucast_ucast_32)
qed

lemma read_int64:
  "pv_type pv = CHR ''q'' \<Longrightarrow> unpack_step pv (field_enc (pv\<lparr>pv_u := U_i w\<rparr>) @ rest, acc) = Inr (rest, acc @ [Arg_int64 w])"
  using uint_bytes_pos by (simp add: read_defs vunpack_int_bytes)

lemma read_uint64:
  assumes "pv_type pv \<in> set ''QrR''"
  shows "unpack_step pv (field_enc (pv\<lparr>pv_u := U_u w\<rparr>) @ rest, acc) = Inr (rest, acc @ [Arg_int64 w])"
proof -
  consider "pv_type pv = CHR ''Q''" | "pv_type pv = CHR ''r''" | "pv_type pv = CHR ''R''" using assms by auto
  then show ?thesis
    using uint_bytes_pos by cases (simp_all add: read_defs vunpack_uint_bytes advance_def le_value_bytes)
qed

lemma read_str:
  assumes "pv_type pv \<in> set ''sS''" "arg_ok (pv\<lparr>pv_u := U_s s\<rparr>)"
  shows "\<exists>b. unpack_step pv (field_enc (pv\<lparr>pv_u := U_s s\<rparr>) @ rest, acc) = Inr (rest, acc @ [b]) \<and>
    field_value pv b = field_value pv (Arg_str s)"
proof -
  let ?n = "unat (pv_size pv)"
  consider (s) "pv_type pv = CHR ''s''" "0 < ?n" "?n \<le> length s"
    | (sized) "pv_type pv = CHR ''S''" "pv_havesize pv" "0 < ?n"
    | (str) "pv_type pv = CHR ''S''" "\<not> pv_havesize pv" "0 \<in> set s"
    using assms by (auto simp: arg_ok_def unat_gt_0 split: if_splits)
  then show ?thesis
  proof cases
    case s
    then show ?thesis by (simp add: read_defs advance_def field_value_def min_absorb2)
  next
    case sized
    then show ?thesis using c_string_len [of ?n s]
      by (simp add: read_defs advance_def field_value_def c_string_replicate)
  next
    case str
    have "length (c_string (c_string s @ 0 # rest)) = length (c_string s)" using str(3) by (simp add: c_string_enc)
    with str show ?thesis
      by (simp add: read_defs advance_def wt_strlen_def field_value_def c_string_enc)
  qed
qed

lemma read_item:
  assumes "pv_type pv \<in> set ''Uu''" "length d < 2 ^ 64" "greedy pv \<Longrightarrow> rest = []"
  shows "\<exists>b. unpack_step pv (field_enc (pv\<lparr>pv_u := U_item d\<rparr>) @ rest, acc) = Inr (rest, acc @ [b]) \<and>
    field_value pv b = field_value pv (Arg_item d)"
proof -
  let ?n = "unat (pv_size pv)" and ?d = "sized_item pv d"
  have e: "sized_item (pv\<lparr>pv_u := u\<rparr>) d = ?d" for u by (simp add: sized_item_def)
  have n: "length ?d = (if pv_havesize pv then ?n else length d)" by (simp add: sized_item_def min_def)
  have "?n < 2 ^ 64" using unsigned_less [of "pv_size pv", where ?'a = nat] by simp
  with n assms(2) have l: "unat (word_of_nat (length ?d) :: u64) = length ?d" by (simp add: unat_of_nat take_bit_nat_eq_self)
  have v: "field_value pv (Arg_item ?d) = field_value pv (Arg_item d)" by (simp add: field_value_def sized_item_def min_def)
  consider "pv_type pv = CHR ''U''" | "pv_type pv = CHR ''u''" "pv_havesize pv" | "pv_type pv = CHR ''u''" "\<not> pv_havesize pv" "rest = []"
    using assms by (auto simp: greedy_def)
  then have "unpack_step pv (field_enc (pv\<lparr>pv_u := U_item d\<rparr>) @ rest, acc) = Inr (rest, acc @ [Arg_item ?d])"
    using uint_bytes_pos n l by cases (simp_all add: read_defs e advance_def vunpack_uint_bytes)
  with v show ?thesis by blast
qed

lemma read_field:
  assumes "WT_PACK_GET pv ap = Inr (pv', ap')" "arg_ok pv'" "pv_type pv \<noteq> CHR ''x''" "greedy pv \<Longrightarrow> rest = []"
  shows "\<exists>a b. ap = a # ap' \<and> unpack_step pv (field_enc pv' @ rest, acc) = Inr (rest, acc @ [b]) \<and> field_value pv b = field_value pv a"
  using assms(1,3)
proof (cases rule: get_cases)
  case (int w)
  then show ?thesis using read_int assms(2) by auto
next
  case (uint w)
  then show ?thesis using read_uint assms(2) by auto
next
  case (int64 w)
  then show ?thesis using read_int64 by auto
next
  case (uint64 w)
  then show ?thesis using read_uint64 by auto
next
  case (str s)
  then show ?thesis using read_str assms(2) by blast
next
  case (item d)
  then have "length d < 2 ^ 64" using assms(2) by (auto simp: arg_ok_def)
  with item show ?thesis using read_item assms(4) by blast
qed

lemma read_pad:
  assumes "pv_type pv = CHR ''x''"
  shows "unpack_step pv (field_enc pv @ rest, acc) = Inr (rest, acc)"
  using assms by (simp add: read_defs advance_def)

subsection \<open>Lists of fields\<close>

fun fold_fields :: "(wt_pack_value \<Rightarrow> 's \<Rightarrow> 's result) \<Rightarrow> wt_pack_value list \<Rightarrow> 's \<Rightarrow> 's result" where
  "fold_fields body [] st = Inr st"
| "fold_fields body (pv # pvs) st = WT_RET (body pv st) (\<lambda>st. fold_fields body pvs st)"

text \<open>The fields of a format.\<close>

definition format_fields :: "string \<Rightarrow> wt_pack_value list result" where
  "format_fields fmt = WT_RET (pack_init fmt) (\<lambda>pack. pack_loop (\<lambda>pv pvs. Inr (pvs @ [pv])) pack [])"

lemma collect_prefix: "pack_loop (\<lambda>pv pvs. Inr (pvs @ [pv])) pack acc = Inr r \<Longrightarrow> \<exists>q. r = acc @ q"
proof (induction "\<lambda>pv pvs. Inr (pvs @ [pv]) :: wt_pack_value list result" pack acc rule: pack_loop.induct)
  case (1 pack acc)
  show ?case
  proof (cases "pack_next pack")
    case (Inl e)
    with 1(2) show ?thesis by (auto simp: pack_loop.simps [of _ pack] split: if_splits)
  next
    case (Inr p)
    obtain pv pack' where p: "p = (pv, pack')" by (cases p)
    from 1(2) have "pack_loop (\<lambda>pv pvs. Inr (pvs @ [pv])) pack' (acc @ [pv]) = Inr r"
      by (simp add: pack_loop.simps [of _ pack] Inr p)
    with 1(1) [OF Inr p [symmetric]] show ?thesis by auto
  qed
qed

lemma loop_fold:
  "pack_loop (\<lambda>pv pvs. Inr (pvs @ [pv])) pack acc = Inr (acc @ pvs) \<Longrightarrow> pack_loop body pack st = fold_fields body pvs st"
proof (induction body pack st arbitrary: acc pvs rule: pack_loop.induct)
  case (1 body pack st)
  show ?case
  proof (cases "pack_next pack")
    case (Inl e)
    with 1(2) have "e = WT_NOTFOUND" "pvs = []" by (auto simp: pack_loop.simps [of _ pack] split: if_splits)
    with Inl show ?thesis by (simp add: pack_loop.simps [of _ pack])
  next
    case (Inr p)
    obtain pv pack' where p: "p = (pv, pack')" by (cases p)
    from 1(2) have l: "pack_loop (\<lambda>pv pvs. Inr (pvs @ [pv])) pack' (acc @ [pv]) = Inr (acc @ pvs)"
      by (simp add: pack_loop.simps [of _ pack] Inr p)
    then obtain q where q: "pvs = pv # q" using collect_prefix by fastforce
    have "WT_RET (body pv st) (pack_loop body pack') = WT_RET (body pv st) (fold_fields body q)"
    proof (rule WT_RET_cong [OF refl])
      fix v assume "body pv st = Inr v"
      then show "pack_loop body pack' v = fold_fields body q v"
        using 1(1) [OF Inr p [symmetric], of v "acc @ [pv]" q] l q by simp
    qed
    then show ?thesis by (simp add: pack_loop.simps [of _ pack] Inr p q)
  qed
qed

lemma single_format:
  assumes "format_fields [c] = Inr pvs" "c \<noteq> CHR ''.''" "c \<noteq> CHR 0x00"
  shows "pvs = [single_pv c]"
proof -
  have "\<not> wt_isdigit (CHR 0x00)" by code_simp
  then show ?thesis
    using assms
    by (auto simp: format_fields_def pack_init_def pack_initn_def pack_loop.simps pack_next_def pack_field.simps pack_prefix_def
      pack_switch_def Let_def single_pv_def WT_PACK_VALUE_INIT_def strtoul_def integral_types_def split: if_splits)
qed

lemma format_loop:
  assumes "format_fields fmt = Inr pvs"
  shows "WT_RET (pack_init fmt) (\<lambda>pack. pack_loop body pack st) = fold_fields body pvs st"
  using assms loop_fold [of _ "[]"] by (auto simp: format_fields_def)

lemma format_cases:
  assumes "format_fields fmt = Inr pvs" "hd fmt \<noteq> CHR ''.''" "CHR 0x00 \<notin> set fmt"
  shows "(case fmt of [c] \<Rightarrow> body (single_pv c) st | _ \<Rightarrow> WT_RET (pack_init fmt) (\<lambda>pack. pack_loop body pack st)) = fold_fields body pvs st"
proof (cases "\<exists>c. fmt = [c]")
  case True
  then obtain c where c: "fmt = [c]" by blast
  with assms have "pvs = [single_pv c]" by (auto intro: single_format)
  then show ?thesis by (cases "body (single_pv c) st") (simp_all add: c)
next
  case False
  then show ?thesis using format_loop [OF assms(1), of body st] by (auto split: list.splits)
qed

text \<open>The arguments suit the fields; and what of them is packed.\<close>

fun args_ok :: "wt_pack_value list \<Rightarrow> pack_arg list \<Rightarrow> bool" where
  "args_ok [] ap = (ap = [])"
| "args_ok (pv # pvs) ap = (case WT_PACK_GET pv ap of Inl _ \<Rightarrow> False | Inr (pv', ap') \<Rightarrow> arg_ok pv' \<and> args_ok pvs ap')"

fun fields_value :: "wt_pack_value list \<Rightarrow> pack_arg list \<Rightarrow> pack_arg list" where
  "fields_value [] ap = []"
| "fields_value (pv # pvs) ap =
     (if pv_type pv = CHR ''x'' then fields_value pvs ap else field_value pv (hd ap) # fields_value pvs (tl ap))"

fun fields_enc :: "wt_pack_value list \<Rightarrow> pack_arg list \<Rightarrow> bytes" where
  "fields_enc [] ap = []"
| "fields_enc (pv # pvs) ap = (case WT_PACK_GET pv ap of Inl _ \<Rightarrow> [] | Inr (pv', ap') \<Rightarrow> field_enc pv' @ fields_enc pvs ap')"

fun greedy_last :: "wt_pack_value list \<Rightarrow> bool" where
  "greedy_last [] = True"
| "greedy_last (pv # pvs) = ((greedy pv \<longrightarrow> pvs = []) \<and> greedy_last pvs)"

lemma size_fields: "args_ok pvs ap \<Longrightarrow> fold_fields size_step pvs (n, ap) = Inr (n + length (fields_enc pvs ap), [])"
  by (induction pvs ap arbitrary: n rule: args_ok.induct) (auto simp: size_step_def pack_size_enc split: sum.splits)

lemma pack_fields:
  "args_ok pvs ap \<Longrightarrow> length out + length (fields_enc pvs ap) \<le> sz \<Longrightarrow>
   fold_fields (pack_step sz) pvs (out, ap) = Inr (out @ fields_enc pvs ap, [])"
proof (induction pvs ap arbitrary: out rule: args_ok.induct)
  case (2 pv pvs ap)
  then obtain pv' ap' where g: "WT_PACK_GET pv ap = Inr (pv', ap')" "arg_ok pv'" "args_ok pvs ap'" by (auto split: sum.splits)
  have le: "length out + length (field_enc pv') + length (fields_enc pvs ap') \<le> sz" using 2(3) g by simp
  then have "pack_write pv' (sz - length out) = Inr (field_enc pv')" by (intro pack_write_enc [OF g(2)]) auto
  then show ?case using 2(1) [OF g(1) refl g(3), of "out @ field_enc pv'"] g le by (simp add: pack_step_def)
qed simp

lemma get_pad: "WT_PACK_GET pv ap = Inr (pv', ap') \<Longrightarrow> pv_type pv = CHR ''x'' \<Longrightarrow> pv' = pv \<and> ap' = ap"
  by (simp add: WT_PACK_GET_def)

lemma unpack_fields:
  "args_ok pvs ap \<Longrightarrow> greedy_last pvs \<Longrightarrow>
   \<exists>outs. fold_fields unpack_step pvs (fields_enc pvs ap, acc) = Inr ([], acc @ outs) \<and> fields_value pvs outs = fields_value pvs ap"
proof (induction pvs ap arbitrary: acc rule: args_ok.induct)
  case (2 pv pvs ap)
  then obtain pv' ap' where g: "WT_PACK_GET pv ap = Inr (pv', ap')" "arg_ok pv'" "args_ok pvs ap'" by (auto split: sum.splits)
  have gl: "greedy_last pvs" and gr: "greedy pv \<Longrightarrow> fields_enc pvs ap' = []" using 2(3) by auto
  note IH = 2(1) [OF g(1) refl g(3) gl]
  show ?case
  proof (cases "pv_type pv = CHR ''x''")
    case True
    with get_pad [OF g(1)] have e: "pv' = pv" "ap' = ap" by blast+
    then show ?thesis using IH [of acc] g True by (simp add: read_pad)
  next
    case False
    obtain a b where ab: "ap = a # ap'" "unpack_step pv (field_enc pv' @ fields_enc pvs ap', acc) = Inr (fields_enc pvs ap', acc @ [b])"
      "field_value pv b = field_value pv a"
      using read_field [OF g(1,2) False gr] by blast
    obtain outs where o: "fold_fields unpack_step pvs (fields_enc pvs ap', acc @ [b]) = Inr ([], (acc @ [b]) @ outs)"
      "fields_value pvs outs = fields_value pvs ap'" using IH by blast
    show ?thesis using g ab o False by (intro exI [of _ "b # outs"]) simp
  qed
qed simp

subsection \<open>Formats\<close>

text \<open>A format string as C has it: no NUL, and none of the characters in front that have a meaning of their own.\<close>

definition plain_format :: "string \<Rightarrow> bool" where
  "plain_format fmt \<longleftrightarrow> CHR 0x00 \<notin> set fmt \<and> hd (fmt @ [CHR 0x00]) \<noteq> CHR ''.''"

text \<open>The iterator inside a format: the cursor is as far from the NUL as from the end.\<close>

definition pack_wf :: "string \<Rightarrow> wt_pack \<Rightarrow> bool" where
  "pack_wf s pack \<longleftrightarrow> pk_cur pack = s @ [CHR 0x00] \<and> pk_left pack = int (length s) \<and> CHR 0x00 \<notin> set s \<and>
     (pk_repeats pack > 0 \<longrightarrow> \<not> greedy (pk_lastv pack))"

lemma plain_init:
  assumes "plain_format fmt" "pack_init fmt = Inr pack"
  shows "pack_wf fmt pack"
proof -
  have "takeWhile (\<lambda>c. c \<noteq> CHR 0x00) fmt = fmt" using assms(1) unfolding plain_format_def takeWhile_eq_all_conv by metis
  with assms(2) have "pack_initn (fmt @ [CHR 0x00]) (length fmt) = Inr pack" by (simp only: pack_init_def)
  then show ?thesis using assms(1) by (cases fmt) (auto simp: pack_initn_def plain_format_def pack_wf_def split: if_splits)
qed

lemma not_digit_NUL: "\<not> wt_isdigit (CHR 0x00)"
  by (simp add: wt_isdigit_def)

lemma pack_prefix_NUL:
  assumes "CHR 0x00 \<notin> set s"
  obtains h sz s1 where "pack_prefix (s @ [CHR 0x00]) = (h, sz, s1 @ [CHR 0x00])" "CHR 0x00 \<notin> set s1" "\<not> h \<Longrightarrow> s1 = s" "length s1 \<le> length s"
proof -
  have d: "dropWhile wt_isdigit (s @ [CHR 0x00]) = dropWhile wt_isdigit s @ [CHR 0x00]"
    using not_digit_NUL by (induction s) auto
  show ?thesis
  proof (cases "s \<noteq> [] \<and> wt_isdigit (hd s)")
    case True
    have n: "CHR 0x00 \<notin> set (dropWhile wt_isdigit s)" using assms set_dropWhileD by metis
    show ?thesis using True d n
      by (intro that [of True _ "dropWhile wt_isdigit s"]) (simp_all add: pack_prefix_def strtoul_def Let_def length_dropWhile_le)
  next
    case False
    then have "\<not> wt_isdigit (hd (s @ [CHR 0x00]))" using not_digit_NUL by (cases s) auto
    then show ?thesis using assms by (intro that [of False 1 s]) (simp_all add: pack_prefix_def)
  qed
qed

lemma switch_wf:
  assumes "pack_switch h sz ty (s @ [CHR 0x00]) (int (length s)) = Inr (Some (pv, pack))" "CHR 0x00 \<notin> set s"
  shows "pack_wf s pack \<and> (greedy pv \<longrightarrow> s = [] \<and> pk_repeats pack = 0)"
  using assms by (cases s) (auto simp: pack_switch_def Let_def pack_wf_def greedy_def split: if_splits)

lemma switch_NUL: "pack_switch h sz (CHR 0x00) cur left = Inl EINVAL"
  by (simp add: pack_switch_def Let_def integral_types_def)

lemma pack_field_step:
  assumes "pack_prefix cur = (h, sz, ty # cur')" "left \<noteq> 0"
  shows "pack_field cur left = WT_RET (pack_switch h sz ty cur' (left - int (length cur - length cur')))
    (\<lambda>r. case r of None \<Rightarrow> pack_field cur' (left - int (length cur - length cur')) | Some x \<Rightarrow> Inr x)"
  using assms by (simp add: pack_field.simps [of cur] Let_def)

lemma field_wf:
  "pack_field cur left = Inr (pv, pack) \<Longrightarrow> cur = s @ [CHR 0x00] \<Longrightarrow> left = int (length s) \<Longrightarrow> CHR 0x00 \<notin> set s \<Longrightarrow>
   \<exists>s'. pack_wf s' pack \<and> (greedy pv \<longrightarrow> s' = [] \<and> pk_repeats pack = 0)"
proof (induction cur left arbitrary: s rule: pack_field.induct)
  case (1 cur left)
  obtain h sz s1 where p: "pack_prefix (s @ [CHR 0x00]) = (h, sz, s1 @ [CHR 0x00])" "CHR 0x00 \<notin> set s1" "length s1 \<le> length s"
    using pack_prefix_NUL [OF 1(5)] by metis
  have l: "left \<noteq> 0" using 1(2) by (auto simp: pack_field.simps)
  show ?case
  proof (cases s1)
    case Nil
    then show ?thesis using 1(2,3) p l by (auto simp: pack_field.simps [of "s @ [CHR 0x00]"] switch_NUL Let_def)
  next
    case (Cons ty s2)
    let ?l = "left - int (length cur - length (s2 @ [CHR 0x00]))"
    have ll: "?l = int (length s2)" using p(3) Cons 1(3,4) by auto
    have n: "CHR 0x00 \<notin> set s2" using p(2) Cons by simp
    have pc: "pack_prefix cur = (h, sz, ty # s2 @ [CHR 0x00])" using p(1) Cons 1(3) by simp
    obtain r where r: "pack_switch h sz ty (s2 @ [CHR 0x00]) ?l = Inr r"
      "(case r of None \<Rightarrow> pack_field (s2 @ [CHR 0x00]) ?l | Some x \<Rightarrow> Inr x) = Inr (pv, pack)"
      using 1(2) unfolding pack_field_step [OF pc l] WT_RET_eq_Inr by blast
    show ?thesis
    proof (cases r)
      case None
      have "\<exists>s'. pack_wf s' pack \<and> (greedy pv \<longrightarrow> s' = [] \<and> pk_repeats pack = 0)"
        by (rule 1(1) [OF l pc [symmetric] refl refl refl r(1) None _ refl ll n]) (use r(2) None in simp)
      then show ?thesis .
    next
      case (Some x)
      then show ?thesis using r ll n switch_wf [of h sz ty s2 pv pack] by auto
    qed
  qed
qed

lemma loop_greedy_last:
  "pack_loop (\<lambda>pv pvs. Inr (pvs @ [pv])) pack acc = Inr (acc @ pvs) \<Longrightarrow> pack_wf s pack \<Longrightarrow> greedy_last pvs"
proof (induction "\<lambda>pv pvs. Inr (pvs @ [pv]) :: wt_pack_value list result" pack acc arbitrary: pvs s rule: pack_loop.induct)
  case (1 pack acc)
  show ?case
  proof (cases "pack_next pack")
    case (Inl e)
    with 1(2) show ?thesis by (auto simp: pack_loop.simps [of _ pack] split: if_splits)
  next
    case (Inr p)
    obtain pv pack' where p: "p = (pv, pack')" by (cases p)
    from 1(2) have l: "pack_loop (\<lambda>pv pvs. Inr (pvs @ [pv])) pack' (acc @ [pv]) = Inr (acc @ pvs)"
      by (simp add: pack_loop.simps [of _ pack] Inr p)
    then obtain q where q: "pvs = pv # q" using collect_prefix by fastforce
    have "\<exists>s'. pack_wf s' pack' \<and> (greedy pv \<longrightarrow> s' = [] \<and> pk_repeats pack' = 0)"
    proof (cases "pk_repeats pack > 0")
      case True
      then show ?thesis using Inr p 1(3) by (auto simp: pack_next_def pack_wf_def intro!: exI [of _ s])
    next
      case False
      then show ?thesis using Inr p 1(3) field_wf [of "pk_cur pack" "pk_left pack" pv pack' s] by (auto simp: pack_next_def pack_wf_def)
    qed
    then obtain s' where s': "pack_wf s' pack'" "greedy pv \<longrightarrow> s' = [] \<and> pk_repeats pack' = 0" by blast
    have "greedy_last q" using 1(1) [OF Inr p [symmetric] refl, of q s'] l q s'(1) by simp
    moreover have "q = []" if "greedy pv"
    proof -
      have "pack_next pack' = Inl WT_NOTFOUND" using s' that by (simp add: pack_next_def pack_wf_def pack_field.simps)
      then show ?thesis using l q by (simp add: pack_loop.simps [of _ pack'])
    qed
    ultimately show ?thesis using q by simp
  qed
qed

lemma format_greedy_last: "plain_format fmt \<Longrightarrow> format_fields fmt = Inr pvs \<Longrightarrow> greedy_last pvs"
  using plain_init loop_greedy_last [of _ "[]" pvs] by (auto simp: format_fields_def)

lemma plain_single: "plain_format fmt \<Longrightarrow> fmt \<noteq> [] \<Longrightarrow> hd fmt \<noteq> CHR ''.''"
  by (simp add: plain_format_def hd_append)

lemma plain_loop:
  assumes "plain_format fmt" "format_fields fmt = Inr pvs"
  shows "(case fmt of [c] \<Rightarrow> body (single_pv c) st | _ \<Rightarrow> WT_RET (pack_init fmt) (\<lambda>pack. pack_loop body pack st)) = fold_fields body pvs st"
proof (cases fmt)
  case Nil
  then show ?thesis using format_loop [OF assms(2), of body st] by simp
next
  case (Cons c cs)
  then show ?thesis using format_cases [OF assms(2), of body st] assms(1) by (simp add: plain_format_def)
qed

lemma fold_append: "fold_fields body (xs @ ys) st = WT_RET (fold_fields body xs st) (\<lambda>st. fold_fields body ys st)"
proof (induction xs arbitrary: st)
  case (Cons x xs)
  then show ?case by (cases "body x st") simp_all
qed simp

lemma get_more: "WT_PACK_GET pv ap = Inr (pv', ap') \<Longrightarrow> WT_PACK_GET pv (ap @ aq) = Inr (pv', ap' @ aq)"
  by (auto simp: WT_PACK_GET_def split: if_splits list.splits pack_arg.splits)

lemma pack_fields_more:
  "args_ok pvs ap \<Longrightarrow> length out + length (fields_enc pvs ap) \<le> sz \<Longrightarrow>
   fold_fields (pack_step sz) pvs (out, ap @ aq) = Inr (out @ fields_enc pvs ap, aq)"
proof (induction pvs ap arbitrary: out rule: args_ok.induct)
  case (2 pv pvs ap)
  then obtain pv' ap' where g: "WT_PACK_GET pv ap = Inr (pv', ap')" "arg_ok pv'" "args_ok pvs ap'" by (auto split: sum.splits)
  have le: "length out + length (field_enc pv') + length (fields_enc pvs ap') \<le> sz" using 2(3) g by simp
  then have "pack_write pv' (sz - length out) = Inr (field_enc pv')" by (intro pack_write_enc [OF g(2)]) auto
  then show ?case using 2(1) [OF g(1) refl g(3), of "out @ field_enc pv'"] g le get_more [OF g(1)] by (simp add: pack_step_def)
qed simp

lemma pack_fields_full:
  "args_ok pvs ap \<Longrightarrow> sz \<le> length out \<Longrightarrow> fold_fields (pack_step sz) pvs (out, ap) = Inr (out @ fields_enc pvs ap, [])"
proof (induction pvs ap arbitrary: out rule: args_ok.induct)
  case (2 pv pvs ap)
  then obtain pv' ap' where g: "WT_PACK_GET pv ap = Inr (pv', ap')" "arg_ok pv'" "args_ok pvs ap'" by (auto split: sum.splits)
  have "pack_write pv' (sz - length out) = Inr (field_enc pv')" using 2(3) by (intro pack_write_enc [OF g(2)]) auto
  then show ?case using 2(1) [OF g(1) refl g(3), of "out @ field_enc pv'"] g 2(3) by (simp add: pack_step_def)
qed simp

subsection \<open>A leading dot\<close>

lemma field_past_end:
  "cur = s @ [CHR 0x00] \<Longrightarrow> left = int (length s) + 1 \<Longrightarrow> CHR 0x00 \<notin> set s \<Longrightarrow>
   (case pack_field cur left of Inl e \<Rightarrow> e = EINVAL
    | Inr (pv, pack) \<Rightarrow> \<exists>s'. pk_cur pack = s' @ [CHR 0x00] \<and> pk_left pack = int (length s') + 1 \<and> CHR 0x00 \<notin> set s')"
proof (induction cur left arbitrary: s rule: pack_field.induct)
  case (1 cur left)
  obtain h sz s1 where p: "pack_prefix (s @ [CHR 0x00]) = (h, sz, s1 @ [CHR 0x00])" "CHR 0x00 \<notin> set s1" "length s1 \<le> length s"
    using pack_prefix_NUL [OF 1(4)] by metis
  have l: "left \<noteq> 0" using 1(3) by simp
  show ?case
  proof (cases s1)
    case Nil
    then show ?thesis using 1(2) p l by (simp add: pack_field.simps [of "s @ [CHR 0x00]"] switch_NUL Let_def)
  next
    case (Cons ty s2)
    let ?l = "left - int (length cur - length (s2 @ [CHR 0x00]))"
    have ll: "?l = int (length s2) + 1" using p(3) Cons 1(2,3) by auto
    have n: "CHR 0x00 \<notin> set s2" using p(2) Cons by simp
    have e: "pack_field cur left = WT_RET (pack_switch h sz ty (s2 @ [CHR 0x00]) ?l) (\<lambda>r. case r of None \<Rightarrow> pack_field (s2 @ [CHR 0x00]) ?l | Some x \<Rightarrow> Inr x)"
      using p(1) Cons 1(2) by (intro pack_field_step [OF _ l]) simp
    show ?thesis
    proof (cases "pack_switch h sz ty (s2 @ [CHR 0x00]) ?l")
      case (Inl err)
      then have "err = EINVAL" by (cases s2) (auto simp: pack_switch_def Let_def split: if_splits)
      then show ?thesis unfolding e Inl by simp
    next
      case (Inr r)
      show ?thesis
      proof (cases r)
        case None
        have "pack_prefix cur = (h, sz, ty # s2 @ [CHR 0x00])" using p Cons 1(2) by simp
        from 1(1) [OF l this [symmetric] refl refl refl Inr None refl ll n] show ?thesis unfolding e Inr None by (simp only: WT_RET_simps option.case)
      next
        case (Some x)
        obtain pv pack where x: "x = (pv, pack)" by (cases x)
        have "pk_cur pack = s2 @ [CHR 0x00]" "pk_left pack = ?l"
          using Inr Some x by (auto simp: pack_switch_def Let_def split: if_splits list.splits)
        then show ?thesis using ll n unfolding e Inr Some x by simp
      qed
    qed
  qed
qed

lemma loop_past_end:
  "pk_cur pack = s @ [CHR 0x00] \<Longrightarrow> pk_left pack = int (length s) + 1 \<Longrightarrow> CHR 0x00 \<notin> set s \<Longrightarrow>
   pack_loop (\<lambda>pv pvs. Inr (pvs @ [pv])) pack acc = Inl EINVAL"
proof (induction "\<lambda>pv pvs. Inr (pvs @ [pv]) :: wt_pack_value list result" pack acc arbitrary: s rule: pack_loop.induct)
  case (1 pack acc)
  have "case pack_next pack of Inl e \<Rightarrow> e = EINVAL
    | Inr (pv, pack') \<Rightarrow> \<exists>s'. pk_cur pack' = s' @ [CHR 0x00] \<and> pk_left pack' = int (length s') + 1 \<and> CHR 0x00 \<notin> set s'"
    using field_past_end [OF 1(2,3,4)] 1(2,3,4) by (auto simp: pack_next_def)
  then show ?case using 1(1) by (auto simp: pack_loop.simps [of _ pack] split: sum.splits)
qed

lemma dot_rejected:
  assumes "CHR 0x00 \<notin> set fmt"
  shows "format_fields (CHR ''.'' # fmt) = Inl EINVAL"
proof -
  have "takeWhile (\<lambda>c. c \<noteq> CHR 0x00) (CHR ''.'' # fmt) = CHR ''.'' # fmt" using assms unfolding takeWhile_eq_all_conv by auto
  then have "pack_init (CHR ''.'' # fmt) = Inr \<lparr>pk_cur = fmt @ [CHR 0x00], pk_left = int (length fmt) + 1, pk_repeats = 0, pk_lastv = WT_PACK_VALUE_INIT\<rparr>"
    unfolding pack_init_def by (simp only:) (simp add: pack_initn_def)
  then show ?thesis using loop_past_end [OF _ _ assms] by (simp add: format_fields_def)
qed

subsection \<open>Sizes that include themselves\<close>

lemma vsize_mono:
  assumes "unat x \<le> unat y"
  shows "wt_vsize_uint x \<le> wt_vsize_uint y"
proof (cases "unat x < 8256")
  case True
  then show ?thesis using assms multi_len_bounds(1) [of "y - 8256"] by (auto simp: vsize_uint_bytes uint_bytes_def Let_def)
next
  case False
  then have "unat (x - 8256) \<le> unat (y - 8256)" using assms by (simp add: unat_sub_if')
  then show ?thesis using multi_len_mono False assms by (auto simp: vsize_uint_bytes uint_bytes_def Let_def)
qed

lemma vsize_ge_1: "1 \<le> wt_vsize_uint x"
  using uint_bytes_pos(1) [of x] by (simp add: vsize_uint_bytes Suc_le_eq)

lemma adjust_loop:
  assumes "prev \<le> wt_vsize_uint (word_of_nat cur)" "prev \<le> cur" "cur - prev + 9 < 2 ^ 64" "10 \<le> k + prev"
  shows "\<exists>r. size_adjust_loop k cur prev = Some r \<and> r = cur - prev + wt_vsize_uint (word_of_nat r)"
  using assms
proof (induction k arbitrary: cur prev)
  case 0
  then show ?case using vsize_uint_le [of "word_of_nat cur"] by (simp add: WT_INTPACK64_MAXSIZE_def)
next
  case (Suc k)
  let ?f = "wt_vsize_uint (word_of_nat cur)"
  show ?case
  proof (cases "?f = prev")
    case True
    then show ?thesis using Suc.prems(2) by simp
  next
    case False
    let ?c = "cur + ?f - prev"
    have lt: "prev < ?f" and le9: "?f \<le> 9" using False Suc.prems(1) vsize_uint_le [of "word_of_nat cur"] by (simp_all add: WT_INTPACK64_MAXSIZE_def)
    have u: "unat (word_of_nat n :: u64) = n" if "n < 2 ^ 64" for n using that by (simp add: unat_of_nat take_bit_nat_eq_self)
    have c: "cur \<le> ?c" "?c < 2 ^ 64" "?c - ?f = cur - prev" "?f \<le> ?c" using lt le9 Suc.prems(2,3) by auto
    then have "unat (word_of_nat cur :: u64) \<le> unat (word_of_nat ?c :: u64)" using u [of cur] u [of ?c] by auto
    then have "?f \<le> wt_vsize_uint (word_of_nat ?c)" by (rule vsize_mono)
    then have "\<exists>r. size_adjust_loop k ?c ?f = Some r \<and> r = ?c - ?f + wt_vsize_uint (word_of_nat r)"
      using Suc.prems(3,4) lt c by (intro Suc.IH) auto
    then show ?thesis using False c(3) by (simp add: Let_def)
  qed
qed

subsection \<open>Properties\<close>

text \<open>
  C32: Structure packing round trip. For a format and arguments that suit its fields, a buffer of at least the announced
  size is filled with exactly the announced number of bytes, and unpacking them gives values with the same contents.
\<close>

theorem struct_roundtrip:
  assumes "plain_format fmt" "format_fields fmt = Inr pvs" "args_ok pvs args"
  shows "\<exists>n bs outs. wt_struct_sizev fmt args = Inr n \<and> (\<forall>sz \<ge> n. wt_struct_packv sz fmt args = Inr bs) \<and> length bs = n \<and>
    wt_struct_unpackv bs fmt = Inr outs \<and> fields_value pvs outs = fields_value pvs args"
proof -
  have loop: "(case fmt of [c] \<Rightarrow> body (single_pv c) st | _ \<Rightarrow> WT_RET (pack_init fmt) (\<lambda>pack. pack_loop body pack st)) = fold_fields body pvs st"
    for body :: "wt_pack_value \<Rightarrow> 's \<Rightarrow> 's result" and st
    by (rule plain_loop [OF assms(1,2)])
  obtain outs where "fold_fields unpack_step pvs (fields_enc pvs args, []) = Inr ([], [] @ outs)" "fields_value pvs outs = fields_value pvs args"
    using unpack_fields [OF assms(3) format_greedy_last [OF assms(1,2)]] by blast
  then show ?thesis
    using size_fields [OF assms(3), of 0] pack_fields [OF assms(3), of "[]"]
    by (intro exI [of _ "length (fields_enc pvs args)"] exI [of _ "fields_enc pvs args"] exI [of _ outs])
      (simp add: wt_struct_sizev_def wt_struct_packv_def wt_struct_unpackv_def loop)
qed

definition example_args :: "pack_arg list" where
  "example_args = [Arg_int (-7), Arg_int 300, Arg_str [72, 105, 0], Arg_int64 70000, Arg_item [1, 2, 3]]"

theorem struct_roundtrip_witness:
  "\<exists>bs. wt_struct_packv 20 ''2iSQu'' example_args = Inr bs \<and> wt_struct_unpackv bs ''2iSQu'' \<noteq> Inl EINVAL"
proof -
  obtain pvs where p: "format_fields ''2iSQu'' = Inr pvs"
    by (cases "format_fields ''2iSQu''") (auto, code_simp)
  have "args_ok (projr (format_fields ''2iSQu'')) example_args" by code_simp
  then have a: "args_ok pvs example_args" by (simp add: p)
  have "plain_format ''2iSQu''" by code_simp
  from struct_roundtrip [OF this p a] obtain n bs outs where r: "wt_struct_sizev ''2iSQu'' example_args = Inr n"
    "\<forall>sz \<ge> n. wt_struct_packv sz ''2iSQu'' example_args = Inr bs" "wt_struct_unpackv bs ''2iSQu'' = Inr outs" by blast
  have "wt_struct_sizev ''2iSQu'' example_args = Inr 12" by code_simp
  with r have "n = 12" by simp
  with r show ?thesis by auto
qed

text \<open>
  C34: A full buffer is written behind its end. Where the first fields of a structure fill the buffer exactly, the remaining length is 0, which
  every size check takes as unlimited: the other fields are written behind the buffer and the call succeeds.
\<close>

theorem struct_pack_overflow:
  assumes "plain_format fmt" "format_fields fmt = Inr (pvs1 @ pvs2)" "args_ok pvs1 args1" "args_ok pvs2 args2"
  shows "\<exists>bs. wt_struct_packv (length (fields_enc pvs1 args1)) fmt (args1 @ args2) = Inr bs \<and>
    length bs = length (fields_enc pvs1 args1) + length (fields_enc pvs2 args2)"
proof -
  let ?n = "length (fields_enc pvs1 args1)"
  have loop: "(case fmt of [c] \<Rightarrow> body (single_pv c) st | _ \<Rightarrow> WT_RET (pack_init fmt) (\<lambda>pack. pack_loop body pack st)) =
      fold_fields body (pvs1 @ pvs2) st" for body :: "wt_pack_value \<Rightarrow> 's \<Rightarrow> 's result" and st
    by (rule plain_loop [OF assms(1,2)])
  have "fold_fields (pack_step ?n) pvs1 ([], args1 @ args2) = Inr (fields_enc pvs1 args1, args2)"
    using pack_fields_more [OF assms(3), of "[]" ?n args2] by simp
  then have "fold_fields (pack_step ?n) (pvs1 @ pvs2) ([], args1 @ args2) = Inr (fields_enc pvs1 args1 @ fields_enc pvs2 args2, [])"
    using pack_fields_full [OF assms(4), of ?n "fields_enc pvs1 args1"] by (simp add: fold_append)
  then show ?thesis by (simp add: wt_struct_packv_def loop)
qed

theorem struct_pack_overflow_witness: "\<exists>bs. wt_struct_packv 1 ''iS'' [Arg_int 5, Arg_str [72, 72, 72, 0]] = Inr bs \<and> length bs = 5"
proof -
  define pvs where "pvs = projr (format_fields ''iS'')"
  have p: "plain_format ''iS''" "format_fields ''iS'' = Inr ([hd pvs] @ tl pvs)" "args_ok [hd pvs] [Arg_int 5]" "args_ok (tl pvs) [Arg_str [72, 72, 72, 0]]"
    "length (fields_enc [hd pvs] [Arg_int 5]) = 1" "length (fields_enc (tl pvs) [Arg_str [72, 72, 72, 0]]) = 4" unfolding pvs_def by code_simp+
  then show ?thesis using struct_pack_overflow [OF p(1-4)] by simp
qed

text \<open>
  A leading dot. The iterator steps over the dot but still takes the whole length from there, so it runs into
  the terminating NUL, and every format that starts with a dot is rejected, whatever follows.
\<close>

theorem dot_format_rejected:
  "CHR 0x00 \<notin> set fmt \<Longrightarrow> format_fields (CHR ''.'' # fmt) = Inl EINVAL"
  by (rule dot_rejected)

theorem dot_format_rejected_witness: "format_fields ''.iS'' = Inl EINVAL"
  by (rule dot_format_rejected) simp

text \<open>
  The size of a structure that holds its own size. Starting from the size with a one-byte size field, the adjustment ends within 10
  iterations with the size of the structure including the bytes that this size takes itself.
\<close>

theorem size_adjust_correct:
  assumes "0 < sz" "sz < 2 ^ 63"
  shows "\<exists>r. wt_struct_size_adjust sz = Some r \<and> r = sz - 1 + wt_vsize_uint (word_of_nat r)"
  using adjust_loop [of 1 sz 10, OF vsize_ge_1] assms by (simp add: wt_struct_size_adjust_def)

theorem size_adjust_correct_witness: "wt_struct_size_adjust 64 = Some 65"
proof -
  have "\<exists>r. wt_struct_size_adjust 64 = Some r \<and> r = 64 - 1 + wt_vsize_uint (word_of_nat r)" by (rule size_adjust_correct) simp_all
  moreover have "wt_struct_size_adjust 64 = Some 65" by code_simp
  ultimately show ?thesis by simp
qed

end
