(* ===== verification/Struct_Order.thy ===== *)
theory Struct_Order
  imports Struct_Roundtrip
begin

text \<open>
  The order of packed structures, \<^verbatim>\<open>src/src/include/packing_inline.h\<close>: keys of integers and NUL-terminated strings are compared
  by the byte order of their packed forms.
\<close>

subsection \<open>Order\<close>

text \<open>The types whose packed forms sort as their values, and the comparison of the values.\<close>

definition ordered_pv :: "wt_pack_value \<Rightarrow> bool" where
  "ordered_pv pv \<longleftrightarrow> pv_type pv \<in> set ''bBthHiIlLqQr'' \<or> pv_type pv = CHR ''S'' \<and> \<not> pv_havesize pv"

definition field_cmp :: "wt_pack_value \<Rightarrow> pack_arg \<Rightarrow> pack_arg \<Rightarrow> int" where
  "field_cmp pv a b =
     (case (a, b) of
        (Arg_str s, Arg_str t) \<Rightarrow> lexcmp (c_string s) (c_string t)
      | (Arg_int v, Arg_int w) \<Rightarrow> if pv_type pv \<in> set ''bhil'' then cmp (sint v) (sint w) else cmp (uint v) (uint w)
      | (Arg_int64 v, Arg_int64 w) \<Rightarrow> if pv_type pv = CHR ''q'' then cmp (sint v) (sint w) else cmp (uint v) (uint w)
      | _ \<Rightarrow> 0)"

fun fields_cmp :: "wt_pack_value list \<Rightarrow> pack_arg list \<Rightarrow> pack_arg list \<Rightarrow> int" where
  "fields_cmp (pv # pvs) (a # as) (b # bs) = (if field_cmp pv a b = 0 then fields_cmp pvs as bs else field_cmp pv a b)"
| "fields_cmp _ _ _ = 0"

lemma lexcmp_prefix_free:
  assumes "lexcmp xs ys \<noteq> 0" "\<And>r s. xs @ r = ys @ s \<Longrightarrow> xs = ys"
  shows "lexcmp (xs @ us) (ys @ vs) = lexcmp xs ys"
  using assms
proof (induction xs ys rule: lexcmp.induct)
  case (2 b bs)
  from 2(2) [of "b # bs" "[]"] show ?case by simp
next
  case (3 a as)
  from 3(2) [of "[]" "a # as"] show ?case by simp
next
  case (4 a as b bs)
  show ?case
  proof (cases "a = b")
    case True
    have "as = bs" if "as @ r = bs @ s" for r s using 4(3) [of r s] that True by simp
    then have "lexcmp (as @ us) (bs @ vs) = lexcmp as bs" by (intro 4(1)) (use 4(2) True in auto)
    then show ?thesis using True by simp
  next
    case False
    then show ?thesis by auto
  qed
qed simp

lemma enc_prefix_free:
  "uint_bytes x @ r = uint_bytes y @ s \<Longrightarrow> uint_bytes x = uint_bytes y"
  "int_bytes x @ r = int_bytes y @ s \<Longrightarrow> int_bytes x = int_bytes y"
proof -
  show "uint_bytes x = uint_bytes y" if "uint_bytes x @ r = uint_bytes y @ s"
    using arg_cong [OF that, of "wt_vunpack_uint 0"] by (simp only: vunpack_uint_bytes) simp
  show "int_bytes x = int_bytes y" if "int_bytes x @ r = int_bytes y @ s"
    using arg_cong [OF that, of "wt_vunpack_int 0"] by (simp only: vunpack_int_bytes) simp
qed

lemma cmp_zero: "cmp a b = 0 \<longleftrightarrow> a = b"
  by (auto simp: cmp_def)

lemma lexcmp_uint_enc: "lexcmp (uint_bytes x @ us) (uint_bytes y @ vs) = (if x = y then lexcmp us vs else cmp (uint x) (uint y))"
proof -
  have c: "lexcmp (uint_bytes x) (uint_bytes y) = cmp (uint x) (uint y)"
    by (rule vuint.lexcmp_pack) (simp_all add: vpack_uint_bytes)
  show ?thesis
  proof (cases "x = y")
    case False
    then have "cmp (uint x) (uint y) \<noteq> 0" by (auto simp: cmp_zero word_uint_eq_iff)
    then show ?thesis using lexcmp_prefix_free [of "uint_bytes x" "uint_bytes y" us vs] enc_prefix_free(1) c False by metis
  qed simp
qed

lemma lexcmp_int_enc: "lexcmp (int_bytes x @ us) (int_bytes y @ vs) = (if x = y then lexcmp us vs else cmp (sint x) (sint y))"
proof -
  have c: "lexcmp (int_bytes x) (int_bytes y) = cmp (sint x) (sint y)"
    by (rule vint.lexcmp_pack) (simp_all add: vpack_int_bytes)
  show ?thesis
  proof (cases "x = y")
    case False
    then have "cmp (sint x) (sint y) \<noteq> 0" by (auto simp: cmp_zero signed_word_eqI)
    then show ?thesis using lexcmp_prefix_free [of "int_bytes x" "int_bytes y" us vs] enc_prefix_free(2) c False by metis
  qed simp
qed

lemma lexcmp_str_enc:
  assumes "0 \<notin> set s" "0 \<notin> set t"
  shows "lexcmp (s @ 0 # us) (t @ 0 # vs) = (if s = t then lexcmp us vs else lexcmp s t)"
  using assms
proof (induction s t rule: lexcmp.induct)
  case (2 b bs)
  then have "0 < b" using word_gt_0 by auto
  then show ?case by simp
next
  case (3 a as)
  then have "0 < a" using word_gt_0 by auto
  then show ?case by auto
qed auto

lemma c_string_no_NUL: "0 \<notin> set (c_string s)"
  by (auto dest: set_takeWhileD)

lemma sint_scast_32: "sint (scast (w :: u32) :: u64) = sint w"
  by transfer (simp add: signed_take_bit_signed_take_bit)

lemma uint_ucast_32: "uint (ucast (w :: u32) :: u64) = uint w"
  by transfer (simp add: take_bit_take_bit)

lemma byte_of_int8:
  fixes w :: u32
  assumes "sint (scast w :: u64) \<in> {-128..<128}"
  shows "uint (ucast (scast w + 0x80 :: u64) :: u8) = sint w + 128"
proof -
  let ?x = "scast w + 0x80 :: u64"
  have r: "sint w \<in> {-128..<128}" using assms by (simp add: sint_scast_32)
  have x: "?x = word_of_int (sint w + 128)" unfolding scast_eq by simp
  have "uint (ucast ?x :: u8) = take_bit 8 (take_bit 64 (sint w + 128))"
    unfolding x unsigned_ucast_eq uint_word_of_int_eq by simp
  also have "\<dots> = sint w + 128" using r by (auto simp: take_bit_take_bit take_bit_int_eq_self)
  finally show ?thesis .
qed

lemma byte_of_uint8:
  fixes w :: u32
  assumes "(ucast w :: u64) < 256"
  shows "uint (ucast (ucast w :: u64) :: u8) = uint w"
  using assms
proof (transfer, goal_cases)
  case (1 w)
  then have "take_bit 32 w < 2 ^ 8" "0 \<le> take_bit 32 w" by (simp_all add: take_bit_take_bit)
  then have "take_bit 8 (take_bit 32 w) = take_bit 32 w" by (intro take_bit_int_eq_self)
  then show ?case by (simp add: take_bit_take_bit)
qed

lemma lexcmp_byte: "lexcmp (x # us) (y # vs) = (if cmp (uint x) (uint y) = 0 then lexcmp us vs else cmp (uint x) (uint y))"
  by (auto simp: cmp_def word_less_def word_uint_eq_iff)

lemma cmp_shift: "cmp (a + k) (b + k) = cmp a (b :: int)"
  by (simp add: cmp_def)

lemma word_cmp_zero: "cmp (uint v) (uint w) = 0 \<longleftrightarrow> v = w" "cmp (sint v) (sint w) = 0 \<longleftrightarrow> v = w"
proof -
  show "cmp (uint v) (uint w) = 0 \<longleftrightarrow> v = w" by (simp add: cmp_zero word_uint_eq_iff)
  show "cmp (sint v) (sint w) = 0 \<longleftrightarrow> v = w" by (auto simp: cmp_zero signed_word_eqI)
qed

lemma scast_32_inj: "(scast (v :: u32) :: u64) = scast w \<longleftrightarrow> v = w"
  by (metis ucast_scast_32)

lemma ucast_32_inj: "(ucast (v :: u32) :: u64) = ucast w \<longleftrightarrow> v = w"
  by (metis ucast_ucast_32)

lemma field_order:
  assumes "ordered_pv pv" "WT_PACK_GET pv as = Inr (pa, as')" "WT_PACK_GET pv bs = Inr (pb, bs')" "arg_ok pa" "arg_ok pb"
  shows "\<exists>a b. as = a # as' \<and> bs = b # bs' \<and>
    lexcmp (field_enc pa @ us) (field_enc pb @ vs) = (if field_cmp pv a b = 0 then lexcmp us vs else field_cmp pv a b)"
proof -
  have nx: "pv_type pv \<noteq> CHR ''x''" using assms(1) by (auto simp: ordered_pv_def)
  note simps = field_cmp_def field_enc_def Let_def word_cmp_zero scast_32_inj ucast_32_inj lexcmp_int_enc lexcmp_uint_enc sint_scast_32 uint_ucast_32
  show ?thesis
  using assms(2) nx
  proof (cases rule: get_cases)
    case (int v)
    obtain w where w: "bs = Arg_int w # bs'" "pb = pv\<lparr>pv_u := U_i (scast w)\<rparr>" using assms(3) nx by (cases rule: get_cases) (use int in auto)
    consider (b) "pv_type pv = CHR ''b''" | "pv_type pv = CHR ''h''" | "pv_type pv = CHR ''i''" | "pv_type pv = CHR ''l''" using int(1) by auto
    then show ?thesis
    proof cases
      case b
      then have "sint (scast v :: u64) \<in> {-128..<128}" "sint (scast w :: u64) \<in> {-128..<128}" using int w assms(4,5) by (simp_all add: arg_ok_def)
      with b show ?thesis by (simp add: int w simps lexcmp_byte byte_of_int8 cmp_shift del: lexcmp.simps)
    qed (simp_all add: int w simps)
  next
    case (uint v)
    obtain w where w: "bs = Arg_int w # bs'" "pb = pv\<lparr>pv_u := U_u (ucast w)\<rparr>" using assms(3) nx by (cases rule: get_cases) (use uint in auto)
    consider "pv_type pv = CHR ''B''" | "pv_type pv = CHR ''t''" | "pv_type pv = CHR ''H''" | "pv_type pv = CHR ''I''" | "pv_type pv = CHR ''L''"
      using uint(1) by auto
    then show ?thesis
      using assms(4,5) by cases (simp_all add: uint w simps arg_ok_def lexcmp_byte byte_of_uint8 del: lexcmp.simps)
  next
    case (int64 v)
    obtain w where "bs = Arg_int64 w # bs'" "pb = pv\<lparr>pv_u := U_i w\<rparr>" using assms(3) nx by (cases rule: get_cases) (use int64 in auto)
    then show ?thesis using int64 by (simp add: simps)
  next
    case (uint64 v)
    obtain w where w: "bs = Arg_int64 w # bs'" "pb = pv\<lparr>pv_u := U_u w\<rparr>" using assms(3) nx by (cases rule: get_cases) (use uint64 in auto)
    consider "pv_type pv = CHR ''Q''" | "pv_type pv = CHR ''r''" | "pv_type pv = CHR ''R''" using uint64(1) by auto
    then show ?thesis using assms(1) by cases (simp_all add: uint64 w simps ordered_pv_def)
  next
    case (str s)
    obtain t where t: "bs = Arg_str t # bs'" "pb = pv\<lparr>pv_u := U_s t\<rparr>" using assms(3) nx by (cases rule: get_cases) (use str in auto)
    consider "pv_type pv = CHR ''s''" | "pv_type pv = CHR ''S''" using str(1) by auto
    then show ?thesis using assms(1) c_string_no_NUL
      by cases (simp_all add: str t field_cmp_def field_enc_def Let_def ordered_pv_def lexcmp_str_enc)
  next
    case (item d)
    then show ?thesis using assms(1) by (auto simp: ordered_pv_def)
  qed
qed

lemma fields_order:
  "list_all ordered_pv pvs \<Longrightarrow> args_ok pvs as \<Longrightarrow> args_ok pvs bs \<Longrightarrow> lexcmp (fields_enc pvs as) (fields_enc pvs bs) = fields_cmp pvs as bs"
proof (induction pvs arbitrary: as bs)
  case (Cons pv pvs)
  obtain pa as' where a: "WT_PACK_GET pv as = Inr (pa, as')" "arg_ok pa" "args_ok pvs as'" using Cons.prems(2) by (auto split: sum.splits)
  obtain pb bs' where b: "WT_PACK_GET pv bs = Inr (pb, bs')" "arg_ok pb" "args_ok pvs bs'" using Cons.prems(3) by (auto split: sum.splits)
  have "ordered_pv pv" using Cons.prems(1) by simp
  from field_order [OF this a(1) b(1) a(2) b(2), of "fields_enc pvs as'" "fields_enc pvs bs'"]
  show ?case using Cons.IH [of as' bs'] Cons.prems(1) a b by auto
qed simp

subsection \<open>Properties\<close>

text \<open>
  C33: Packed keys sort as their fields. For a format of integers and NUL-terminated strings the byte order of two packed structures is
  the order of the first fields that differ, signed, unsigned or by bytes.
\<close>

theorem struct_pack_order:
  assumes "plain_format fmt" "format_fields fmt = Inr pvs" "list_all ordered_pv pvs" "args_ok pvs as" "args_ok pvs bs"
    "wt_struct_packv n fmt as = Inr a" "wt_struct_packv m fmt bs = Inr b" "wt_struct_sizev fmt as = Inr n" "wt_struct_sizev fmt bs = Inr m"
  shows "wt_lex_compare bd a b False = Inr (fields_cmp pvs as bs)"
proof -
  have loop: "(case fmt of [c] \<Rightarrow> body (single_pv c) st | _ \<Rightarrow> WT_RET (pack_init fmt) (\<lambda>pack. pack_loop body pack st)) = fold_fields body pvs st"
    for body :: "wt_pack_value \<Rightarrow> 's \<Rightarrow> 's result" and st
    by (rule plain_loop [OF assms(1,2)])
  have "a = fields_enc pvs as" using assms(6,8) size_fields [OF assms(4), of 0] pack_fields [OF assms(4), of "[]" n]
    by (simp add: wt_struct_sizev_def wt_struct_packv_def loop)
  moreover have "b = fields_enc pvs bs" using assms(7,9) size_fields [OF assms(5), of 0] pack_fields [OF assms(5), of "[]" m]
    by (simp add: wt_struct_sizev_def wt_struct_packv_def loop)
  ultimately show ?thesis using fields_order [OF assms(3,4,5)] by (simp add: wt_lex_compare_lexcmp)
qed

theorem struct_pack_order_witness:
  "\<exists>a b. wt_struct_packv 3 ''iS'' [Arg_int (-7), Arg_str [72, 0]] = Inr a \<and> wt_struct_packv 2 ''iS'' [Arg_int 5, Arg_str [0]] = Inr b \<and>
    wt_lex_compare X86INTRIN a b False = Inr (-1)"
proof -
  let ?as = "[Arg_int (-7), Arg_str [72, 0]]" and ?bs = "[Arg_int 5, Arg_str [0]]"
  define pvs where "pvs = projr (format_fields ''iS'')"
  have p: "plain_format ''iS''" "format_fields ''iS'' = Inr pvs" unfolding pvs_def by code_simp+
  have o: "list_all ordered_pv pvs" "args_ok pvs ?as" "args_ok pvs ?bs" "fields_cmp pvs ?as ?bs = -1" unfolding pvs_def by code_simp+
  have s: "wt_struct_sizev ''iS'' ?as = Inr 3" "wt_struct_sizev ''iS'' ?bs = Inr 2" by code_simp+
  have k: "wt_struct_packv 3 ''iS'' ?as = Inr (projr (wt_struct_packv 3 ''iS'' ?as))" "wt_struct_packv 2 ''iS'' ?bs = Inr (projr (wt_struct_packv 2 ''iS'' ?bs))"
    by code_simp+
  show ?thesis using struct_pack_order [OF p o(1-3) k s] k o(4) by (metis)
qed

end
