(* ===== verification/Rwlock.thy ===== *)
theory Rwlock
  imports Prelude
begin

text \<open>
  The read/write ticket lock of \<^verbatim>\<open>src/src/support/mtx_rw.c\<close>. A successful compare-and-swap replaces a lock value that is still the
  one the new value was computed from, so every operation is a function on the lock value and happens at once; a compare-and-swap that fails
  changes nothing and is tried again. Threads run interleaved: each step of the relation \<open>rw_step\<close> is one such operation, or
  one test of a waiting thread that finds its turn has come.
\<close>

subsection \<open>The lock\<close>

record wt_rwlock =
  rw_current :: u8
  rw_next :: u8
  rw_reader :: u8
  rw_readers_queued :: u8
  rw_readers_active :: u32

definition wt_rwlock_init :: wt_rwlock where
  "wt_rwlock_init = \<lparr>rw_current = 0, rw_next = 0, rw_reader = 0, rw_readers_queued = 0, rw_readers_active = 0\<rparr>"

definition wt_try_readlock :: "wt_rwlock \<Rightarrow> wt_rwlock result" where
  "wt_try_readlock l =
     (if rw_current l \<noteq> rw_next l then Inl EBUSY
      else let active = rw_readers_active l + 1 in
           if active = 0 then Inl EBUSY else Inr (l\<lparr>rw_readers_active := active\<rparr>))"

definition read_blocked :: "u8 \<Rightarrow> wt_rwlock \<Rightarrow> bool" where
  "read_blocked ticket l \<longleftrightarrow> ticket \<noteq> rw_current l"

text \<open>The fast path of a read lock, and the queue: \<open>None\<close> where the thread stalls or finds the other case.\<close>

definition readlock_join :: "wt_rwlock \<Rightarrow> wt_rwlock option" where
  "readlock_join l =
     (if rw_current l = rw_next l
      then let active = rw_readers_active l + 1 in if active = 0 then None else Some (l\<lparr>rw_readers_active := active\<rparr>)
      else None)"

text \<open>The number of writers is a difference of two bytes as C integers, so it is negative once the next ticket has wrapped around.\<close>

definition writers_active :: "wt_rwlock \<Rightarrow> int" where
  "writers_active l = uint (rw_next l) - uint (rw_current l)"

definition readlock_queue :: "wt_rwlock \<Rightarrow> (wt_rwlock \<times> u8) option" where
  "readlock_queue l =
     (if rw_current l = rw_next l then None
      else if rw_readers_queued l = 0xff \<or> uint (rw_readers_queued l) > writers_active l then None
      else let reader = (if rw_readers_queued l = 0 then rw_next l else rw_reader l) in
           Some (l\<lparr>rw_readers_queued := rw_readers_queued l + 1, rw_reader := reader\<rparr>, reader))"

definition wt_readunlock :: "wt_rwlock \<Rightarrow> wt_rwlock" where
  "wt_readunlock l = l\<lparr>rw_readers_active := rw_readers_active l - 1\<rparr>"

definition wt_try_writelock :: "wt_rwlock \<Rightarrow> wt_rwlock result" where
  "wt_try_writelock l =
     (if rw_current l \<noteq> rw_next l \<or> rw_readers_active l \<noteq> 0 then Inl EBUSY else Inr (l\<lparr>rw_next := rw_next l + 1\<rparr>))"

definition write_blocked :: "u8 \<Rightarrow> wt_rwlock \<Rightarrow> bool" where
  "write_blocked ticket l \<longleftrightarrow> ticket \<noteq> rw_current l \<or> rw_readers_active l \<noteq> 0"

definition writelock_ticket :: "wt_rwlock \<Rightarrow> (wt_rwlock \<times> u8) option" where
  "writelock_ticket l =
     (let ticket = rw_next l; next' = ticket + 1 in
      if rw_current l = next' then None else Some (l\<lparr>rw_next := next'\<rparr>, ticket))"

definition wt_writeunlock :: "wt_rwlock \<Rightarrow> wt_rwlock" where
  "wt_writeunlock l =
     (let current = rw_current l + 1 in
      if current = rw_reader l
      then l\<lparr>rw_current := current, rw_readers_active := ucast (rw_readers_queued l), rw_readers_queued := 0\<rparr>
      else l\<lparr>rw_current := current\<rparr>)"

definition wt_rwlock_islocked :: "wt_rwlock \<Rightarrow> bool" where
  "wt_rwlock_islocked l \<longleftrightarrow> rw_current l \<noteq> rw_next l \<or> rw_readers_active l \<noteq> 0"

subsection \<open>Threads\<close>

datatype rw_pc = Idle | ReadWait u8 | Reading | WriteWait u8 | Writing

record rw_state =
  lk :: wt_rwlock
  pcs :: "nat \<Rightarrow> rw_pc"

definition rw_start :: rw_state where
  "rw_start = \<lparr>lk = wt_rwlock_init, pcs = (\<lambda>_. Idle)\<rparr>"

definition move :: "rw_state \<Rightarrow> wt_rwlock \<Rightarrow> nat \<Rightarrow> rw_pc \<Rightarrow> rw_state" where
  "move s l i p = \<lparr>lk = l, pcs = (pcs s)(i := p)\<rparr>"

inductive rw_step :: "rw_state \<Rightarrow> rw_state \<Rightarrow> bool" where
  try_read: "pcs s i = Idle \<Longrightarrow> wt_try_readlock (lk s) = Inr l \<Longrightarrow> rw_step s (move s l i Reading)"
| read_join: "pcs s i = Idle \<Longrightarrow> readlock_join (lk s) = Some l \<Longrightarrow> rw_step s (move s l i Reading)"
| read_queue: "pcs s i = Idle \<Longrightarrow> readlock_queue (lk s) = Some (l, t) \<Longrightarrow> rw_step s (move s l i (ReadWait t))"
| read_enter: "pcs s i = ReadWait t \<Longrightarrow> \<not> read_blocked t (lk s) \<Longrightarrow> rw_step s (move s (lk s) i Reading)"
| read_unlock: "pcs s i = Reading \<Longrightarrow> rw_step s (move s (wt_readunlock (lk s)) i Idle)"
| try_write: "pcs s i = Idle \<Longrightarrow> wt_try_writelock (lk s) = Inr l \<Longrightarrow> rw_step s (move s l i Writing)"
| write_ticket: "pcs s i = Idle \<Longrightarrow> writelock_ticket (lk s) = Some (l, t) \<Longrightarrow> rw_step s (move s l i (WriteWait t))"
| write_enter: "pcs s i = WriteWait t \<Longrightarrow> \<not> write_blocked t (lk s) \<Longrightarrow> rw_step s (move s (lk s) i Writing)"
| write_unlock: "pcs s i = Writing \<Longrightarrow> rw_step s (move s (wt_writeunlock (lk s)) i Idle)"

inductive_cases rw_stepE: "rw_step s s'"

inductive rw_reach :: "rw_state \<Rightarrow> bool" where
  start: "rw_reach rw_start"
| step: "rw_reach s \<Longrightarrow> rw_step s s' \<Longrightarrow> rw_reach s'"

subsection \<open>Distances between tickets\<close>

definition dist :: "u8 \<Rightarrow> u8 \<Rightarrow> nat" where
  "dist a b = unat (b - a)"

lemma dist_0 [simp]: "dist a b = 0 \<longleftrightarrow> a = b"
  by (auto simp: dist_def unat_eq_zero)

lemma dist_self [simp]: "dist a a = 0"
  by simp

lemma unat_plus_one: "x + 1 \<noteq> 0 \<Longrightarrow> unat (x + 1) = Suc (unat x)"
  using unat_minus_one_word [of "x + 1"] by (cases "unat (x + 1)") (auto simp: unat_eq_zero)

lemma dist_next: "a \<noteq> b + 1 \<Longrightarrow> dist a (b + 1) = Suc (dist a b)"
proof -
  assume ne: "a \<noteq> b + 1"
  then have "b + 1 - a \<noteq> 0" by auto
  moreover have "b + 1 - a - 1 = b - a" by simp
  ultimately have "unat (b - a) = unat (b + 1 - a) - 1" "unat (b + 1 - a) \<noteq> 0"
    using unat_minus_one_word [of "b + 1 - a"] by (auto simp: unat_eq_zero)
  then show ?thesis by (simp add: dist_def)
qed

lemma dist_advance: "a \<noteq> b \<Longrightarrow> dist a b = Suc (dist (a + 1) b)"
proof -
  assume ne: "a \<noteq> b"
  then have "unat (b - a - 1) = unat (b - a) - 1" "unat (b - a) \<noteq> 0" using unat_minus_one_word [of "b - a"] by (auto simp: unat_eq_zero)
  moreover have e: "b - (a + 1) = b - a - 1" by (simp add: algebra_simps)
  ultimately show ?thesis unfolding dist_def e by simp
qed

lemma dist_at: "d < 256 \<Longrightarrow> dist a (a + word_of_nat d) = d"
  by (simp add: dist_def unat_of_nat)

lemma at_dist: "a + word_of_nat (dist a b) = b"
  by (simp add: dist_def)

lemma dist_inj: "dist a b = dist a c \<Longrightarrow> b = c"
  by (metis at_dist)

lemma dist_bound: "dist a b < 256"
  using unsigned_less [of "b - a", where ?'a = nat] by (simp add: dist_def)

subsection \<open>The invariant\<close>

abbreviation cur :: "rw_state \<Rightarrow> u8" where "cur s \<equiv> rw_current (lk s)"
abbreviation nxt :: "rw_state \<Rightarrow> u8" where "nxt s \<equiv> rw_next (lk s)"

text \<open>Readers that have the lock, also those that have not noticed it yet, readers in the queue, and the tickets of writers.\<close>

definition active_readers :: "rw_state \<Rightarrow> nat set" where
  "active_readers s = {i. pcs s i = Reading \<or> pcs s i = ReadWait (cur s)}"

definition queued_readers :: "rw_state \<Rightarrow> nat set" where
  "queued_readers s = {i. \<exists>t. pcs s i = ReadWait t \<and> t \<noteq> cur s}"

definition wticket :: "rw_state \<Rightarrow> nat \<Rightarrow> u8 option" where
  "wticket s i = (case pcs s i of WriteWait t \<Rightarrow> Some t | Writing \<Rightarrow> Some (cur s) | _ \<Rightarrow> None)"

definition readers_inv :: "rw_state \<Rightarrow> bool" where
  "readers_inv s \<longleftrightarrow>
     finite (active_readers s) \<and> finite (queued_readers s) \<and>
     card (active_readers s) = unat (rw_readers_active (lk s)) \<and> card (queued_readers s) = unat (rw_readers_queued (lk s)) \<and>
     (\<forall>i t. pcs s i = ReadWait t \<and> t \<noteq> cur s \<longrightarrow> t = rw_reader (lk s) \<and> dist (cur s) t \<le> dist (cur s) (nxt s))"

definition writers_inv :: "rw_state \<Rightarrow> bool" where
  "writers_inv s \<longleftrightarrow>
     (\<forall>i t. wticket s i = Some t \<longrightarrow> dist (cur s) t < dist (cur s) (nxt s)) \<and>
     (\<forall>i j t. wticket s i = Some t \<and> wticket s j = Some t \<longrightarrow> i = j) \<and>
     (\<forall>t. dist (cur s) t < dist (cur s) (nxt s) \<longrightarrow> (\<exists>i. wticket s i = Some t))"

definition rw_inv :: "rw_state \<Rightarrow> bool" where
  "rw_inv s \<longleftrightarrow> readers_inv s \<and> writers_inv s \<and> (\<forall>i. pcs s i = Writing \<longrightarrow> rw_readers_active (lk s) = 0)"

lemma move_sel [simp]: "lk (move s l i p) = l" "pcs (move s l i p) = (pcs s)(i := p)"
  by (simp_all add: move_def)

lemma active_move:
  assumes "rw_current l = cur s"
  shows "active_readers (move s l i p) = (if p = Reading \<or> p = ReadWait (cur s) then insert i (active_readers s) else active_readers s - {i})"
  using assms by (auto simp: active_readers_def)

lemma queued_move:
  assumes "rw_current l = cur s"
  shows "queued_readers (move s l i p) = (if \<exists>t. p = ReadWait t \<and> t \<noteq> cur s then insert i (queued_readers s) else queued_readers s - {i})"
  using assms by (auto simp: queued_readers_def)

lemma wticket_move:
  assumes "rw_current l = cur s"
  shows "wticket (move s l i p) j =
    (if j = i then (case p of WriteWait t \<Rightarrow> Some t | Writing \<Rightarrow> Some (cur s) | _ \<Rightarrow> None) else wticket s j)"
  using assms by (auto simp: wticket_def split: rw_pc.split)

lemma start_inv: "rw_inv rw_start"
  by (simp add: rw_inv_def readers_inv_def writers_inv_def rw_start_def wt_rwlock_init_def active_readers_def queued_readers_def wticket_def dist_def)

text \<open>A step that keeps the tickets keeps what concerns writers if the writers' tickets stay.\<close>

lemma writers_keep:
  "writers_inv s \<Longrightarrow> rw_current l = cur s \<Longrightarrow> rw_next l = nxt s \<Longrightarrow>
   (case p of WriteWait t \<Rightarrow> Some t | Writing \<Rightarrow> Some (cur s) | _ \<Rightarrow> None) = wticket s i \<Longrightarrow> writers_inv (move s l i p)"
proof -
  assume "writers_inv s" "rw_current l = cur s" "rw_next l = nxt s" "(case p of WriteWait t \<Rightarrow> Some t | Writing \<Rightarrow> Some (cur s) | _ \<Rightarrow> None) = wticket s i"
  moreover from this have "wticket (move s l i p) = wticket s" by (intro ext) (simp add: wticket_move)
  ultimately show ?thesis unfolding writers_inv_def by simp
qed

lemma writing_ticket: "pcs s i = Writing \<Longrightarrow> wticket s i = Some (cur s)"
  by (simp add: wticket_def)

lemma no_writer: "writers_inv s \<Longrightarrow> cur s = nxt s \<Longrightarrow> wticket s i = None"
  by (cases "wticket s i") (auto simp: writers_inv_def)

lemma inv_join:
  assumes "rw_inv s" "pcs s i = Idle" "cur s = nxt s" "rw_readers_active (lk s) + 1 \<noteq> 0"
  shows "rw_inv (move s ((lk s)\<lparr>rw_readers_active := rw_readers_active (lk s) + 1\<rparr>) i Reading)"
proof -
  have "i \<notin> active_readers s" "i \<notin> queued_readers s" using assms(2) by (auto simp: active_readers_def queued_readers_def)
  moreover have "unat (rw_readers_active (lk s) + 1) = Suc (unat (rw_readers_active (lk s)))" using assms(4) by (simp add: unat_plus_one)
  moreover have "pcs s j \<noteq> Writing" for j
    using assms(1,3) no_writer [of s j] writing_ticket [of s j] by (auto simp: rw_inv_def)
  ultimately show ?thesis using assms unfolding rw_inv_def
    by (auto simp: readers_inv_def active_move queued_move wticket_def intro!: writers_keep)
qed

lemma inv_read_queue:
  assumes "rw_inv s" "pcs s i = Idle" "readlock_queue (lk s) = Some (l, t)"
  shows "rw_inv (move s l i (ReadWait t))"
proof -
  let ?l = "lk s"
  have q: "cur s \<noteq> nxt s" "rw_readers_queued ?l \<noteq> 0xff" and t: "t = (if rw_readers_queued ?l = 0 then nxt s else rw_reader ?l)"
    and l: "l = ?l\<lparr>rw_readers_queued := rw_readers_queued ?l + 1, rw_reader := t\<rparr>"
    using assms(3) by (auto simp: readlock_queue_def Let_def split: if_splits)
  have inv: "readers_inv s" "writers_inv s" using assms(1) by (auto simp: rw_inv_def)
  have i: "i \<notin> active_readers s" "i \<notin> queued_readers s" using assms(2) by (auto simp: active_readers_def queued_readers_def)
  have old: "t = rw_reader ?l \<and> t \<noteq> cur s \<and> dist (cur s) t \<le> dist (cur s) (nxt s)" if "rw_readers_queued ?l \<noteq> 0"
  proof -
    have "queued_readers s \<noteq> {}" using that inv(1) by (auto simp: readers_inv_def unat_eq_zero)
    then show ?thesis using that t inv(1) by (auto simp: readers_inv_def queued_readers_def)
  qed
  then have tc: "t \<noteq> cur s" "dist (cur s) t \<le> dist (cur s) (nxt s)" using t q(1) by (cases "rw_readers_queued ?l = 0"; simp)+
  have none: "queued_readers s = {}" if "rw_readers_queued ?l = 0" using that inv(1) by (auto simp: readers_inv_def)
  have "rw_readers_queued ?l + 1 \<noteq> 0" using q(2) eq_neg_iff_add_eq_0 [of "rw_readers_queued ?l" 1] by auto
  then have "unat (rw_readers_queued ?l + 1) = Suc (unat (rw_readers_queued ?l))" by (rule unat_plus_one)
  moreover have "t' = t" if "pcs s j = ReadWait t'" "t' \<noteq> cur s" for j t'
    using that old none inv(1) by (cases "rw_readers_queued ?l = 0") (auto simp: readers_inv_def queued_readers_def)
  ultimately have "readers_inv (move s l i (ReadWait t))"
    using inv(1) i tc unfolding l readers_inv_def by (auto simp: active_move queued_move)
  moreover have "writers_inv (move s l i (ReadWait t))"
    using inv(2) by (rule writers_keep) (simp_all add: l wticket_def assms(2))
  ultimately show ?thesis using assms(1) by (auto simp: rw_inv_def l)
qed

lemma inv_read_enter:
  assumes "rw_inv s" "pcs s i = ReadWait (cur s)"
  shows "rw_inv (move s (lk s) i Reading)"
proof -
  have "i \<in> active_readers s" "i \<notin> queued_readers s" using assms(2) by (auto simp: active_readers_def queued_readers_def)
  then have "active_readers (move s (lk s) i Reading) = active_readers s" "queued_readers (move s (lk s) i Reading) = queued_readers s"
    by (auto simp: active_move queued_move)
  moreover have "writers_inv (move s (lk s) i Reading)"
    using assms by (intro writers_keep) (auto simp: rw_inv_def wticket_def)
  ultimately show ?thesis using assms by (auto simp: rw_inv_def readers_inv_def)
qed

lemma inv_read_unlock:
  assumes "rw_inv s" "pcs s i = Reading"
  shows "rw_inv (move s (wt_readunlock (lk s)) i Idle)"
proof -
  have i: "i \<in> active_readers s" "i \<notin> queued_readers s" using assms(2) by (auto simp: active_readers_def queued_readers_def)
  have inv: "readers_inv s" "writers_inv s" using assms(1) by (auto simp: rw_inv_def)
  then have "rw_readers_active (lk s) \<noteq> 0" using i(1) by (auto simp: readers_inv_def)
  then have "unat (rw_readers_active (lk s) - 1) = unat (rw_readers_active (lk s)) - 1" by (rule unat_minus_one_word)
  then have "readers_inv (move s (wt_readunlock (lk s)) i Idle)"
    using inv(1) i by (auto simp: readers_inv_def wt_readunlock_def active_move queued_move)
  moreover have "writers_inv (move s (wt_readunlock (lk s)) i Idle)"
    using inv(2) by (rule writers_keep) (simp_all add: wt_readunlock_def wticket_def assms(2))
  moreover have "pcs s j \<noteq> Writing" for j using assms(1) \<open>rw_readers_active (lk s) \<noteq> 0\<close> by (auto simp: rw_inv_def)
  ultimately show ?thesis by (auto simp: rw_inv_def)
qed

lemma inv_write_ticket:
  assumes "rw_inv s" "pcs s i = Idle" "cur s \<noteq> nxt s + 1" "p = WriteWait (nxt s) \<or> p = Writing \<and> nxt s = cur s \<and> rw_readers_active (lk s) = 0"
  shows "rw_inv (move s ((lk s)\<lparr>rw_next := nxt s + 1\<rparr>) i p)"
proof -
  let ?s = "move s ((lk s)\<lparr>rw_next := nxt s + 1\<rparr>) i p"
  have inv: "readers_inv s" "writers_inv s" using assms(1) by (auto simp: rw_inv_def)
  have d: "dist (cur s) (nxt s + 1) = Suc (dist (cur s) (nxt s))" using assms(3) by (rule dist_next)
  have w: "wticket ?s j = (if j = i then Some (nxt s) else wticket s j)" for j
    using assms(4) wticket_move [of "(lk s)\<lparr>rw_next := nxt s + 1\<rparr>" s i p j] by auto
  have none: "wticket s i = None" using assms(2) by (simp add: wticket_def)
  have "\<exists>j. wticket ?s j = Some t" if "dist (cur s) t < Suc (dist (cur s) (nxt s))" for t
  proof (cases "t = nxt s")
    case False
    then have "dist (cur s) t < dist (cur s) (nxt s)" using that dist_inj by (metis less_antisym)
    then show ?thesis using inv(2) none unfolding writers_inv_def w by (metis option.distinct(1))
  qed (auto simp: w)
  then have "writers_inv ?s" using inv(2) none unfolding writers_inv_def w by (auto simp: d less_Suc_eq)
  moreover have "i \<notin> active_readers s" "i \<notin> queued_readers s" using assms(2) by (auto simp: active_readers_def queued_readers_def)
  then have "readers_inv ?s" using inv(1) assms(4) unfolding readers_inv_def by (auto simp: active_move queued_move d le_Suc_eq)
  ultimately show ?thesis using assms(1,4) by (auto simp: rw_inv_def)
qed

lemma inv_write_enter:
  assumes "rw_inv s" "pcs s i = WriteWait (cur s)" "rw_readers_active (lk s) = 0"
  shows "rw_inv (move s (lk s) i Writing)"
proof -
  have "i \<notin> active_readers s" "i \<notin> queued_readers s" using assms(2) by (auto simp: active_readers_def queued_readers_def)
  then have "active_readers (move s (lk s) i Writing) = active_readers s" "queued_readers (move s (lk s) i Writing) = queued_readers s"
    by (auto simp: active_move queued_move)
  moreover have "writers_inv (move s (lk s) i Writing)"
    using assms by (intro writers_keep) (auto simp: rw_inv_def wticket_def)
  ultimately show ?thesis using assms by (auto simp: rw_inv_def readers_inv_def)
qed

lemma unat_ucast_8_32: "unat (ucast (q :: u8) :: u32) = unat q"
  using unat_lt8 [of q] by (simp add: unsigned_ucast_eq take_bit_nat_eq_self)

lemma unlock_readers:
  assumes "rw_inv s" "pcs s i = Writing"
  shows "readers_inv (move s (wt_writeunlock (lk s)) i Idle)"
proof -
  let ?s = "move s (wt_writeunlock (lk s)) i Idle"
  have inv: "readers_inv s" "writers_inv s" "rw_readers_active (lk s) = 0" using assms by (auto simp: rw_inv_def)
  have "active_readers s = {}" using inv(1,3) by (auto simp: readers_inv_def)
  then have r: "pcs s j \<noteq> Reading" "pcs s j \<noteq> ReadWait (cur s)" for j by (auto simp: active_readers_def)
  have t: "t = rw_reader (lk s) \<and> t \<noteq> cur s \<and> dist (cur s) t \<le> dist (cur s) (nxt s)" if "pcs s j = ReadWait t" for j t
    using that r inv(1) by (auto simp: readers_inv_def)
  have cn: "cur s \<noteq> nxt s" using inv(2) assms(2) no_writer [of s i] writing_ticket [of s i] by auto
  have c: "cur ?s = cur s + 1" "rw_reader (lk ?s) = rw_reader (lk s)" "nxt ?s = nxt s" by (simp_all add: wt_writeunlock_def Let_def)
  show ?thesis
  proof (cases "cur s + 1 = rw_reader (lk s)")
    case True
    then have "active_readers ?s = queued_readers s" "queued_readers ?s = {}"
      unfolding active_readers_def queued_readers_def c using assms(2) by (auto simp: r dest: t split: if_splits)
    then show ?thesis using inv(1) True t c unfolding readers_inv_def
      by (auto simp: wt_writeunlock_def Let_def unat_ucast_8_32)
  next
    case False
    then have "active_readers ?s = {}" "queued_readers ?s = queued_readers s"
      unfolding active_readers_def queued_readers_def c using assms(2) by (auto simp: r dest: t split: if_splits)
    moreover have "dist (cur s + 1) t \<le> dist (cur s + 1) (nxt s)" if "pcs s j = ReadWait t" for j t
      using t [OF that] cn dist_advance [of "cur s"] by fastforce
    ultimately show ?thesis using inv(1,3) False t c unfolding readers_inv_def by (auto simp: wt_writeunlock_def Let_def)
  qed
qed

lemma unlock_writers:
  assumes "rw_inv s" "pcs s i = Writing"
  shows "writers_inv (move s (wt_writeunlock (lk s)) i Idle)"
proof -
  let ?s = "move s (wt_writeunlock (lk s)) i Idle"
  have inv: "writers_inv s" using assms by (auto simp: rw_inv_def)
  have wi: "wticket s i = Some (cur s)" using assms(2) by (rule writing_ticket)
  have cn: "cur s \<noteq> nxt s" using inv wi no_writer [of s i] by auto
  have c: "cur ?s = cur s + 1" "nxt ?s = nxt s" by (simp_all add: wt_writeunlock_def Let_def)
  have other: "wticket s j = Some t \<Longrightarrow> j \<noteq> i \<Longrightarrow> t \<noteq> cur s" for j t using inv wi by (auto simp: writers_inv_def)
  have w: "wticket ?s j = (if j = i then None else wticket s j)" for j
    using other [of j "cur s"] writing_ticket [of s j] by (auto simp: wticket_def split: rw_pc.split)
  have adv: "dist (cur s) t = Suc (dist (cur s + 1) t)" if "t \<noteq> cur s" for t using that dist_advance by metis
  have "\<exists>j. wticket ?s j = Some t" if "dist (cur s + 1) t < dist (cur s + 1) (nxt s)" for t
  proof -
    have "t \<noteq> cur s"
    proof
      assume "t = cur s"
      have "dist (cur s + 1) (cur s) = 255" by (simp add: dist_def unsigned_minus_1_eq_mask mask_eq_exp_minus_1)
      then show False using that dist_bound [of "cur s + 1" "nxt s"] \<open>t = cur s\<close> by simp
    qed
    then have "dist (cur s) t < dist (cur s) (nxt s)" using that adv [of t] adv [of "nxt s"] cn by auto
    then obtain j where "wticket s j = Some t" using inv by (auto simp: writers_inv_def)
    then show ?thesis using w [of j] wi \<open>t \<noteq> cur s\<close> by (cases "j = i") auto
  qed
  moreover have "dist (cur s + 1) t < dist (cur s + 1) (nxt s)" if "wticket s j = Some t" "j \<noteq> i" for j t
    using that other [OF that] adv [of t] adv [of "nxt s"] cn inv by (fastforce simp: writers_inv_def)
  ultimately show ?thesis using inv unfolding writers_inv_def c w by (auto split: if_splits)
qed

lemma inv_write_unlock:
  assumes "rw_inv s" "pcs s i = Writing"
  shows "rw_inv (move s (wt_writeunlock (lk s)) i Idle)"
proof -
  have "pcs s j \<noteq> Writing" if "j \<noteq> i" for j
    using that assms writing_ticket [of s] unfolding rw_inv_def writers_inv_def by metis
  then show ?thesis using unlock_readers [OF assms] unlock_writers [OF assms] by (auto simp: rw_inv_def)
qed

lemma step_inv: "rw_step s s' \<Longrightarrow> rw_inv s \<Longrightarrow> rw_inv s'"
proof (erule rw_stepE)
  fix i l
  assume "rw_inv s" "s' = move s l i Reading" "pcs s i = Idle" "wt_try_readlock (lk s) = Inr l"
  then show ?thesis using inv_join [of s i] by (auto simp: wt_try_readlock_def Let_def split: if_splits)
next
  fix i l
  assume "rw_inv s" "s' = move s l i Reading" "pcs s i = Idle" "readlock_join (lk s) = Some l"
  then show ?thesis using inv_join [of s i] by (auto simp: readlock_join_def Let_def split: if_splits)
next
  fix i l
  assume a: "rw_inv s" "s' = move s l i Writing" "pcs s i = Idle" "wt_try_writelock (lk s) = Inr l"
  then have "cur s = nxt s" "rw_readers_active (lk s) = 0" "l = (lk s)\<lparr>rw_next := nxt s + 1\<rparr>" by (auto simp: wt_try_writelock_def split: if_splits)
  then show ?thesis using inv_write_ticket [of s i Writing] a by simp
next
  fix i l t
  assume "rw_inv s" "s' = move s l i (WriteWait t)" "pcs s i = Idle" "writelock_ticket (lk s) = Some (l, t)"
  then show ?thesis using inv_write_ticket [of s i "WriteWait t"] by (auto simp: writelock_ticket_def Let_def split: if_splits)
qed (auto simp: read_blocked_def write_blocked_def intro: inv_read_queue inv_read_enter inv_read_unlock inv_write_enter inv_write_unlock)

lemma reach_inv: "rw_reach s \<Longrightarrow> rw_inv s"
  by (induction rule: rw_reach.induct) (auto intro: start_inv step_inv)

subsection \<open>Waiting\<close>

definition waits :: "rw_state \<Rightarrow> nat \<Rightarrow> u8 \<Rightarrow> bool" where
  "waits s i t \<longleftrightarrow> pcs s i = ReadWait t \<or> pcs s i = WriteWait t"

definition holds :: "rw_state \<Rightarrow> nat \<Rightarrow> bool" where
  "holds s i \<longleftrightarrow> pcs s i = Reading \<or> pcs s i = Writing"

definition can_enter :: "rw_state \<Rightarrow> nat \<Rightarrow> bool" where
  "can_enter s i \<longleftrightarrow>
     (\<exists>t. pcs s i = ReadWait t \<and> \<not> read_blocked t (lk s)) \<or> (\<exists>t. pcs s i = WriteWait t \<and> \<not> write_blocked t (lk s))"

text \<open>The readers and writers in front of a ticket.\<close>

definition ahead :: "rw_state \<Rightarrow> u8 \<Rightarrow> nat" where
  "ahead s t = dist (cur s) t * 0x100000000 + unat (rw_readers_active (lk s))"

lemma someone_can: "rw_inv s \<Longrightarrow> cur s \<noteq> nxt s \<or> rw_readers_active (lk s) \<noteq> 0 \<Longrightarrow> \<exists>j. holds s j \<or> can_enter s j"
proof -
  assume inv: "rw_inv s" "cur s \<noteq> nxt s \<or> rw_readers_active (lk s) \<noteq> 0"
  show ?thesis
  proof (cases "rw_readers_active (lk s) = 0")
    case True
    then have "dist (cur s) (cur s) < dist (cur s) (nxt s)" using inv(2) dist_0 [of "cur s" "nxt s"] by (auto simp del: dist_0)
    then obtain j where "wticket s j = Some (cur s)" using inv(1) unfolding rw_inv_def writers_inv_def by blast
    then have "pcs s j = WriteWait (cur s) \<or> pcs s j = Writing" by (auto simp: wticket_def split: rw_pc.splits)
    then show ?thesis using True by (auto simp: holds_def can_enter_def write_blocked_def)
  next
    case False
    then have "card (active_readers s) \<noteq> 0" using inv(1) by (simp add: rw_inv_def readers_inv_def unat_eq_zero)
    then obtain j where "j \<in> active_readers s" by fastforce
    then show ?thesis by (auto simp: active_readers_def holds_def can_enter_def read_blocked_def)
  qed
qed

text \<open>A thread that waits and is not let in keeps others from joining without a ticket.\<close>

lemma waits_busy: "rw_inv s \<Longrightarrow> waits s i t \<Longrightarrow> \<not> can_enter s i \<Longrightarrow> cur s \<noteq> nxt s"
proof -
  assume a: "rw_inv s" "waits s i t" "\<not> can_enter s i"
  show ?thesis
  proof (cases "pcs s i = ReadWait t")
    case True
    then have "t \<noteq> cur s" "dist (cur s) t \<le> dist (cur s) (nxt s)" using a by (auto simp: can_enter_def read_blocked_def rw_inv_def readers_inv_def)
    then show ?thesis by auto
  next
    case False
    then have "wticket s i = Some t" using a(2) by (simp add: waits_def wticket_def)
    then show ?thesis using a(1) no_writer [of s i] by (auto simp: rw_inv_def)
  qed
qed

lemma active_less: "unat (a :: u32) < 0x100000000"
  using unsigned_less [of a, where ?'a = nat] by simp

lemma waits_move: "waits s i t \<Longrightarrow> i \<noteq> j \<Longrightarrow> waits (move s l j p) i t"
  by (simp add: waits_def)

lemma unlock_ahead:
  assumes "t \<noteq> cur s"
  shows "ahead (move s (wt_writeunlock (lk s)) j p) t < ahead s t"
proof -
  have "dist (cur s) t = Suc (dist (cur s + 1) t)" using assms dist_advance [of "cur s" t] by auto
  moreover have "rw_current (wt_writeunlock (lk s)) = cur s + 1" by (simp add: wt_writeunlock_def Let_def)
  ultimately show ?thesis using active_less [of "rw_readers_active (wt_writeunlock (lk s))"] by (simp add: ahead_def)
qed

lemma step_ahead:
  assumes "rw_inv s" "rw_step s s'" "waits s i t" "\<not> can_enter s i"
  shows "waits s' i t \<and> ahead s' t \<le> ahead s t \<and> (\<forall>j. holds s j \<and> \<not> holds s' j \<longrightarrow> ahead s' t < ahead s t)"
proof -
  have busy: "cur s \<noteq> nxt s" by (rule waits_busy [OF assms(1,3,4)])
  from assms(2) show ?thesis
  proof cases
    case (read_queue j l t')
    then have "j \<noteq> i" "rw_current l = cur s" "rw_readers_active l = rw_readers_active (lk s)"
      using assms(3) by (auto simp: waits_def readlock_queue_def Let_def split: if_splits)
    then show ?thesis using read_queue assms(3) by (auto simp: ahead_def holds_def waits_move)
  next
    case (read_enter j t')
    then have "j \<noteq> i" using assms(4) by (auto simp: can_enter_def)
    then show ?thesis using read_enter assms(3) by (auto simp: ahead_def holds_def waits_move)
  next
    case (read_unlock j)
    then have "j \<noteq> i" "j \<in> active_readers s" using assms(3) by (auto simp: waits_def active_readers_def)
    then have "rw_readers_active (lk s) \<noteq> 0" using assms(1) by (auto simp: rw_inv_def readers_inv_def)
    then have "unat (rw_readers_active (lk s) - 1) < unat (rw_readers_active (lk s))" using unat_minus_one_word by (metis diff_less unat_eq_zero zero_less_one not_gr_zero)
    then show ?thesis using read_unlock assms(3) \<open>j \<noteq> i\<close> by (auto simp: ahead_def wt_readunlock_def waits_move)
  next
    case (write_ticket j l t')
    then have "j \<noteq> i" "rw_current l = cur s" "rw_readers_active l = rw_readers_active (lk s)"
      using assms(3) by (auto simp: waits_def writelock_ticket_def Let_def split: if_splits)
    then show ?thesis using write_ticket assms(3) by (auto simp: ahead_def holds_def waits_move)
  next
    case (write_enter j t')
    then have "j \<noteq> i" using assms(4) by (auto simp: can_enter_def)
    then show ?thesis using write_enter assms(3) by (auto simp: ahead_def holds_def waits_move)
  next
    case (write_unlock j)
    then have "j \<noteq> i" using assms(3) by (auto simp: waits_def)
    have "t \<noteq> cur s"
    proof
      assume "t = cur s"
      then have "pcs s i = WriteWait (cur s)" using assms(3,4) by (auto simp: waits_def can_enter_def read_blocked_def)
      then have "wticket s i = Some (cur s)" by (simp add: wticket_def)
      then show False using \<open>j \<noteq> i\<close> writing_ticket [OF write_unlock(2)] assms(1) by (auto simp: rw_inv_def writers_inv_def)
    qed
    then show ?thesis using write_unlock assms(3) \<open>j \<noteq> i\<close> unlock_ahead [of t s j Idle] by (auto simp: waits_move)
  qed (use busy in \<open>auto simp: wt_try_readlock_def readlock_join_def wt_try_writelock_def split: if_splits\<close>)
qed

text \<open>Infinite runs; a run may also stay where it is, as threads do other things.\<close>

definition rw_run :: "(nat \<Rightarrow> rw_state) \<Rightarrow> bool" where
  "rw_run f \<longleftrightarrow> rw_reach (f 0) \<and> (\<forall>n. rw_step (f n) (f (Suc n)) \<or> f (Suc n) = f n)"

lemma run_reach: "rw_run f \<Longrightarrow> rw_reach (f n)"
  by (induction n) (auto simp: rw_run_def intro: rw_reach.step)

lemma run_waits:
  assumes "rw_run f" "n \<le> m" "waits (f n) i t" "\<And>k. n \<le> k \<Longrightarrow> \<not> can_enter (f k) i"
  shows "waits (f m) i t \<and> ahead (f m) t \<le> ahead (f n) t"
  using assms(2)
proof (induction m rule: nat_induct_at_least)
  case base
  then show ?case using assms(3) by simp
next
  case (Suc m)
  have inv: "rw_inv (f m)" using reach_inv [OF run_reach [OF assms(1)]] .
  have "rw_step (f m) (f (Suc m)) \<or> f (Suc m) = f m" using assms(1) by (simp add: rw_run_def)
  then show ?case using step_ahead [OF inv, of "f (Suc m)" i t] Suc assms(4) [of m] by (auto intro: order_trans)
qed

lemma run_release:
  assumes "rw_run f" "n \<le> m" "waits (f n) i t" "\<And>k. n \<le> k \<Longrightarrow> \<not> can_enter (f k) i" "holds (f m) j" "m \<le> m'" "\<not> holds (f m') j"
  shows "\<exists>k \<ge> n. waits (f k) i t \<and> ahead (f k) t < ahead (f n) t"
proof -
  define k where "k = (LEAST k. m \<le> k \<and> \<not> holds (f k) j)"
  have k: "m \<le> k" "\<not> holds (f k) j" using LeastI [of "\<lambda>k. m \<le> k \<and> \<not> holds (f k) j" m'] assms(6,7) by (auto simp: k_def)
  then obtain k' where k': "k = Suc k'" using assms(5) by (cases k) auto
  have "m \<le> k'" using k assms(5) k' by (metis le_Suc_eq)
  then have "holds (f k') j" using not_less_Least [of k' "\<lambda>k. m \<le> k \<and> \<not> holds (f k) j"] by (auto simp: k_def [symmetric] k')
  have w: "waits (f k') i t" "ahead (f k') t \<le> ahead (f n) t" using run_waits [OF assms(1) _ assms(3,4), of k'] assms(2) \<open>m \<le> k'\<close> by auto
  have "rw_step (f k') (f k) \<or> f k = f k'" using assms(1) by (simp add: rw_run_def k')
  then have "rw_step (f k') (f k)" using k(2) \<open>holds (f k') j\<close> by auto
  from step_ahead [OF reach_inv [OF run_reach [OF assms(1)]] this w(1) assms(4)] \<open>holds (f k') j\<close> k(2) w(2) assms(2) \<open>m \<le> k'\<close>
  have "waits (f k) i t" "ahead (f k) t < ahead (f n) t" by (auto intro: less_le_trans)
  then show ?thesis using assms(2) k(1) by (intro exI [of _ k]) auto
qed

lemma run_enters:
  assumes "rw_run f" "\<And>n j. holds (f n) j \<Longrightarrow> \<exists>m \<ge> n. \<not> holds (f m) j" "\<And>n j. can_enter (f n) j \<Longrightarrow> \<exists>m \<ge> n. holds (f m) j"
  shows "waits (f n) i t \<Longrightarrow> \<exists>m \<ge> n. holds (f m) i"
proof (induction "ahead (f n) t" arbitrary: n rule: less_induct)
  case less
  show ?case
  proof (cases "\<exists>k \<ge> n. can_enter (f k) i")
    case True
    then show ?thesis using assms(3) by (meson order_trans)
  next
    case False
    then have no: "\<And>k. n \<le> k \<Longrightarrow> \<not> can_enter (f k) i" by auto
    have inv: "rw_inv (f n)" using reach_inv [OF run_reach [OF assms(1)]] .
    obtain j where "holds (f n) j \<or> can_enter (f n) j" using someone_can [OF inv] waits_busy [OF inv less.prems no] by auto
    then obtain m where m: "n \<le> m" "holds (f m) j" using assms(3) by (meson order_refl)
    obtain m' where "m \<le> m'" "\<not> holds (f m') j" using assms(2) [OF m(2)] by auto
    from run_release [OF assms(1) m(1) less.prems no m(2) this] obtain k where k: "n \<le> k" "waits (f k) i t" "ahead (f k) t < ahead (f n) t" by auto
    then show ?thesis using less.hyps by (meson order_trans)
  qed
qed

subsection \<open>Properties\<close>

text \<open>
  C3: Mutual exclusion. However threads interleave, a thread that has the lock for writing is the only one that has it, and the lock value
  agrees: a writer is active and no reader is.
\<close>

theorem rwlock_mutual_exclusion:
  assumes "rw_reach s" "pcs s i = Writing"
  shows "(pcs s j = Writing \<longrightarrow> j = i) \<and> pcs s j \<noteq> Reading \<and> rw_current (lk s) \<noteq> rw_next (lk s) \<and> rw_readers_active (lk s) = 0"
proof -
  have inv: "rw_inv s" using assms(1) by (rule reach_inv)
  then have a: "rw_readers_active (lk s) = 0" using assms(2) by (auto simp: rw_inv_def)
  then have "active_readers s = {}" using inv by (auto simp: rw_inv_def readers_inv_def)
  moreover have "wticket s i = Some (cur s)" using assms(2) by (rule writing_ticket)
  ultimately show ?thesis using a inv writing_ticket [of s j] no_writer [of s i]
    by (auto simp: rw_inv_def writers_inv_def active_readers_def)
qed

definition run_lock :: "nat \<Rightarrow> wt_rwlock" where
  "run_lock n =
     [wt_rwlock_init, wt_rwlock_init\<lparr>rw_next := 1\<rparr>, wt_rwlock_init\<lparr>rw_next := 2\<rparr>,
      wt_rwlock_init\<lparr>rw_next := 2, rw_current := 1\<rparr>, wt_rwlock_init\<lparr>rw_next := 2, rw_current := 1\<rparr>,
      wt_rwlock_init\<lparr>rw_next := 2, rw_current := 2\<rparr>] ! min n 5"

text \<open>Thread 0 writes, thread 1 waits for it, writes and leaves.\<close>

definition run_pcs :: "nat \<Rightarrow> nat \<Rightarrow> rw_pc" where
  "run_pcs n =
     [(\<lambda>_. Idle), (\<lambda>_. Idle)(0 := Writing), (\<lambda>_. Idle)(0 := Writing, 1 := WriteWait 1), (\<lambda>_. Idle)(1 := WriteWait 1),
      (\<lambda>_. Idle)(1 := Writing), (\<lambda>_. Idle)] ! min n 5"

definition example_run :: "nat \<Rightarrow> rw_state" where
  "example_run n = \<lparr>lk = run_lock n, pcs = run_pcs n\<rparr>"

lemmas example_run_defs = example_run_def run_lock_def run_pcs_def wt_rwlock_init_def move_def

lemma five_cases: "n = 0 \<or> n = 1 \<or> n = 2 \<or> n = 3 \<or> n = 4 \<or> (n :: nat) \<ge> 5"
  by arith

lemma example_steps:
  "rw_step (example_run 0) (example_run 1)" "rw_step (example_run 1) (example_run 2)" "rw_step (example_run 2) (example_run 3)"
  "rw_step (example_run 3) (example_run 4)" "rw_step (example_run 4) (example_run 5)"
proof -
  show "rw_step (example_run 0) (example_run 1)"
    using rw_step.try_write [of "example_run 0" 0 "run_lock 1"] by (simp add: example_run_defs wt_try_writelock_def)
  show "rw_step (example_run 1) (example_run 2)"
    using rw_step.write_ticket [of "example_run 1" 1 "run_lock 2" 1] by (simp add: example_run_defs writelock_ticket_def numeral_2_eq_2)
  show "rw_step (example_run 2) (example_run 3)"
    using rw_step.write_unlock [of "example_run 2" 0] by (simp add: example_run_defs wt_writeunlock_def fun_upd_twist fun_upd_idem)
  show "rw_step (example_run 3) (example_run 4)"
    using rw_step.write_enter [of "example_run 3" 1 1] by (simp add: example_run_defs write_blocked_def)
  show "rw_step (example_run 4) (example_run 5)"
    using rw_step.write_unlock [of "example_run 4" 1] by (simp add: example_run_defs wt_writeunlock_def fun_upd_idem)
qed

lemma example_stays: "5 \<le> n \<Longrightarrow> example_run n = example_run 5"
  by (simp add: example_run_def run_lock_def run_pcs_def)

lemma example_is_run: "rw_run example_run"
proof -
  have "rw_step (example_run n) (example_run (Suc n)) \<or> example_run (Suc n) = example_run n" for n
    using five_cases [of n] example_steps example_stays [of n] example_stays [of "Suc n"] by (auto simp: eval_nat_numeral)
  moreover have "example_run 0 = rw_start" by (simp add: example_run_defs rw_start_def)
  ultimately show ?thesis using rw_reach.start by (simp add: rw_run_def)
qed

theorem rwlock_mutual_exclusion_witness: "pcs (example_run 2) 0 = Writing \<and> pcs (example_run 2) 1 \<noteq> Writing \<and> pcs (example_run 2) 1 \<noteq> Reading"
proof -
  have "pcs (example_run 2) 0 = Writing" by (simp add: example_run_defs)
  then show ?thesis using rwlock_mutual_exclusion [OF run_reach [OF example_is_run], of 2 0 1] by auto
qed

text \<open>
  C12: No starvation. In every infinite run in which each thread that has the lock releases it and each waiting thread whose turn has come
  notices it, every thread that has a ticket, for reading or for writing, gets the lock.
\<close>

theorem rwlock_no_starvation:
  assumes "rw_run f" "\<And>n j. holds (f n) j \<Longrightarrow> \<exists>m \<ge> n. \<not> holds (f m) j" "\<And>n j. can_enter (f n) j \<Longrightarrow> \<exists>m \<ge> n. holds (f m) j"
    "pcs (f n) i = WriteWait t \<or> pcs (f n) i = ReadWait t"
  shows "\<exists>m \<ge> n. holds (f m) i"
  using run_enters [OF assms(1-3), of n i t] assms(4) by (auto simp: waits_def)

theorem rwlock_no_starvation_witness: "\<exists>m \<ge> 2. holds (example_run m) 1"
proof (rule rwlock_no_starvation [OF example_is_run])
  show "\<exists>m \<ge> n. \<not> holds (example_run m) j" if "holds (example_run n) j" for n j
    by (rule exI [of _ "max n 5"]) (simp add: holds_def example_run_def run_pcs_def)
  show "\<exists>m \<ge> n. holds (example_run m) j" if "can_enter (example_run n) j" for n j
  proof -
    have "n = 3 \<and> j = 1" using that five_cases [of n]
      by (auto simp: can_enter_def write_blocked_def read_blocked_def example_run_defs split: if_splits)
    then show ?thesis by (intro exI [of _ 4]) (simp add: holds_def example_run_def run_pcs_def)
  qed
  show "pcs (example_run 2) 1 = WriteWait 1 \<or> pcs (example_run 2) 1 = ReadWait 1" by (simp add: example_run_def run_pcs_def)
qed



end
