(* ===== verification/Txn_Sort.thy ===== *)
theory Txn_Sort
  imports Prelude "HOL-Library.Multiset"
begin

text \<open>
  The sort and the search of transaction snapshots: \<^verbatim>\<open>__snapsort\<close> of \<^verbatim>\<open>src/src/txn/txn.c\<close>, a quick sort that stops at short
  sections followed by an insertion sort, and the macros \<^verbatim>\<open>WT_INSERTION_SORT\<close> and \<^verbatim>\<open>WT_BINARY_SEARCH\<close> of
  \<^verbatim>\<open>src/src/include/misc.h\<close>. Arrays are lists, indexes natural numbers; \<open>None\<close> and \<open>OOB_READ\<close> are accesses outside an array.
\<close>

subsection \<open>Insertion sort\<close>

text \<open>The inner loop moves larger elements up; the hole is at \<^verbatim>\<open>__j + 1\<close>.\<close>

fun ins_shift :: "'a :: linorder \<Rightarrow> 'a list \<Rightarrow> nat \<Rightarrow> 'a list" where
  "ins_shift v a 0 = a[0 := v]"
| "ins_shift v a (Suc j) = (if v < a ! j then ins_shift v (a[Suc j := a ! j]) j else a[Suc j := v])"

definition WT_INSERTION_SORT :: "'a :: linorder list \<Rightarrow> 'a list" where
  "WT_INSERTION_SORT a =
     (let n = length a in
      if n = 2 then if a ! 1 < a ! 0 then a[1 := a ! 0, 0 := a ! 1] else a
      else if n > 2 then foldl (\<lambda>a i. ins_shift (a ! i) a i) a [1..<n]
      else a)"

subsection \<open>Partition\<close>

text \<open>
  The inner loops of the partition. \<open>scan_down\<close> gets the old \<^verbatim>\<open>j\<close>, \<open>scan_up\<close> the index after the old \<^verbatim>\<open>i\<close>, which
  starts one below the array.
\<close>

fun scan_down :: "'a :: linorder list \<Rightarrow> 'a \<Rightarrow> nat \<Rightarrow> nat option" where
  "scan_down a pivot 0 = None"
| "scan_down a pivot (Suc j) =
     (if length a \<le> j then None else if pivot < a ! j then scan_down a pivot j else Some j)"

function scan_up :: "'a :: linorder list \<Rightarrow> 'a \<Rightarrow> nat \<Rightarrow> nat option" where
  "scan_up a pivot i = (if length a \<le> i then None else if a ! i < pivot then scan_up a pivot (Suc i) else Some i)"
  by pat_completeness auto
termination
  by (relation "measure (\<lambda>(a, pivot, i). length a - i)") auto

lemma scan_down_less: "scan_down a pivot j = Some k \<Longrightarrow> k < j"
  by (induction j) (auto split: if_splits simp: less_Suc_eq)

function snapsort_partition :: "'a :: linorder list \<Rightarrow> nat \<Rightarrow> nat \<Rightarrow> 'a \<Rightarrow> ('a list \<times> nat) option" where
  "snapsort_partition a i j pivot =
     (case scan_down a pivot j of
        None \<Rightarrow> None
      | Some j' \<Rightarrow>
          (case scan_up a pivot i of
             None \<Rightarrow> None
           | Some i' \<Rightarrow>
               if i' < j' then snapsort_partition (a[i' := a ! j', j' := a ! i']) (Suc i') j' pivot
               else Some (a, j')))"
  by pat_completeness auto
termination
  by (relation "measure (\<lambda>(a, i, j, pivot). j)") (auto dest: scan_down_less)

declare scan_up.simps [simp del] snapsort_partition.simps [simp del]

definition median :: "'a :: linorder \<Rightarrow> 'a \<Rightarrow> 'a \<Rightarrow> 'a" where
  "median v1 v2 v3 =
     (if v1 < v2 then if v3 < v1 then v1 else min v2 v3 else if v3 < v2 then v2 else min v1 v3)"

text \<open>The recursion of \<^verbatim>\<open>__snapsort_impl\<close>, its loop being the second call; at most \<open>n\<close> nested calls.\<close>

fun snapsort_impl :: "nat \<Rightarrow> 'a :: linorder list \<Rightarrow> nat \<Rightarrow> nat \<Rightarrow> 'a list option" where
  "snapsort_impl 0 a f l = None"
| "snapsort_impl (Suc n) a f l =
     (if f + 16 < l then
        if length a \<le> l then None
        else (case snapsort_partition a f (Suc l) (median (a ! f) (a ! l) (a ! ((f + l) div 2))) of
                None \<Rightarrow> None
              | Some (a, m) \<Rightarrow>
                  (case snapsort_impl n a f m of
                     None \<Rightarrow> None
                   | Some a \<Rightarrow> snapsort_impl n a (Suc m) l))
      else Some a)"

definition snapsort :: "'a :: linorder list \<Rightarrow> 'a list option" where
  "snapsort a = map_option WT_INSERTION_SORT (snapsort_impl (length a) a 0 (length a - 1))"

subsection \<open>Search\<close>

function WT_BINARY_SEARCH :: "'a :: linorder \<Rightarrow> 'a list \<Rightarrow> nat \<Rightarrow> nat \<Rightarrow> bool result" where
  "WT_BINARY_SEARCH key a base limit =
     (if limit = 0 then Inr False
      else let indx = base + limit div 2 in
           if length a \<le> indx then Inl OOB_READ
           else if a ! indx < key then WT_BINARY_SEARCH key a (indx + 1) ((limit - 1) div 2)
           else if a ! indx = key then Inr True
           else WT_BINARY_SEARCH key a base (limit div 2))"
  by pat_completeness auto
termination
  by (relation "measure (\<lambda>(key, a, base, limit). limit)") auto

declare WT_BINARY_SEARCH.simps [simp del]

subsection \<open>Insertion sort is correct\<close>

lemma insort_last: "sorted (xs @ [v]) \<Longrightarrow> insort v xs = xs @ [v]"
  by (induction xs) (auto simp: insort_is_Cons)

lemma insort_snoc: "sorted (xs @ [y]) \<Longrightarrow> v < y \<Longrightarrow> insort v (xs @ [y]) = insort v xs @ [y]"
  by (induction xs) auto

lemma ins_shift_insort: "sorted xs \<Longrightarrow> ins_shift v (xs @ h # zs) (length xs) = insort v xs @ zs"
proof (induction xs arbitrary: h zs rule: rev_induct)
  case (snoc y ys)
  show ?case
  proof (cases "v < y")
    case True
    have "ins_shift v (ys @ y # y # zs) (length ys) = insort v ys @ y # zs" using snoc by (simp add: sorted_append)
    then show ?thesis using True snoc.prems by (simp add: nth_append list_update_append insort_snoc)
  next
    case False
    then have "sorted ((ys @ [y]) @ [v])" using snoc.prems by (auto simp: sorted_append)
    then show ?thesis using False insort_last [of "ys @ [y]" v] by (simp add: nth_append list_update_append)
  qed
qed simp

lemma sort_snoc: "sort (xs @ [x]) = insort x (sort xs)"
  by (rule properties_for_sort) (simp_all add: sorted_insort)

lemma insertion_loop: "1 \<le> k \<Longrightarrow> k \<le> length a \<Longrightarrow> foldl (\<lambda>a i. ins_shift (a ! i) a i) a [1..<k] = sort (take k a) @ drop k a"
proof (induction k rule: nat_induct_at_least)
  case base
  then show ?case by (cases a) simp_all
next
  case (Suc k)
  let ?a = "sort (take k a) @ drop k a"
  have d: "drop k a = a ! k # drop (Suc k) a" using Suc.prems by (simp add: Cons_nth_drop_Suc)
  have l: "length (sort (take k a)) = k" using Suc.prems by simp
  have "foldl (\<lambda>a i. ins_shift (a ! i) a i) a [1..<Suc k] = ins_shift (?a ! k) ?a k" using Suc by simp
  also have "?a ! k = a ! k" using l d by (simp add: nth_append)
  also have "ins_shift (a ! k) ?a k = insort (a ! k) (sort (take k a)) @ drop (Suc k) a"
    unfolding d using ins_shift_insort [of "sort (take k a)" "a ! k" "a ! k"] l by simp
  also have "insort (a ! k) (sort (take k a)) = sort (take (Suc k) a)"
    using Suc.prems sort_snoc [of "take k a" "a ! k"] by (simp add: take_Suc_conv_app_nth)
  finally show ?case .
qed

lemma insertion_sort: "WT_INSERTION_SORT a = sort a"
proof -
  consider "length a < 2" | "length a = 2" | "length a > 2" by linarith
  then show ?thesis
  proof cases
    case 1
    then show ?thesis by (cases a) (auto simp: WT_INSERTION_SORT_def)
  next
    case 2
    then obtain x y where "a = [x, y]" by (auto simp: numeral_2_eq_2 length_Suc_conv)
    then show ?thesis by (auto simp: WT_INSERTION_SORT_def)
  next
    case 3
    then show ?thesis using insertion_loop [of "length a" a] by (simp add: WT_INSERTION_SORT_def Let_def)
  qed
qed

subsection \<open>The partition stays in its section\<close>

lemma scan_down_ok:
  assumes "\<exists>k. f \<le> k \<and> k < j \<and> \<not> pivot < a ! k" "j \<le> length a"
  shows "\<exists>k. scan_down a pivot j = Some k \<and> f \<le> k \<and> k < j \<and> \<not> pivot < a ! k \<and> (\<forall>m. k < m \<and> m < j \<longrightarrow> pivot < a ! m)"
  using assms
proof (induction j)
  case (Suc j)
  show ?case
  proof (cases "pivot < a ! j")
    case True
    then have "\<exists>k. f \<le> k \<and> k < j \<and> \<not> pivot < a ! k" using Suc.prems(1) by (metis less_Suc_eq)
    with Suc.IH Suc.prems(2) obtain k where "scan_down a pivot j = Some k" "f \<le> k" "k < j" "\<not> pivot < a ! k" "\<forall>m. k < m \<and> m < j \<longrightarrow> pivot < a ! m"
      by auto
    then show ?thesis using True Suc.prems(2) by (auto simp: less_Suc_eq intro!: exI [of _ k])
  next
    case False
    then show ?thesis using Suc.prems by (auto simp: less_Suc_eq_le)
  qed
qed simp

lemma scan_up_ok:
  assumes "\<exists>k. i \<le> k \<and> k \<le> l \<and> \<not> a ! k < pivot" "l < length a"
  shows "\<exists>k. scan_up a pivot i = Some k \<and> i \<le> k \<and> k \<le> l \<and> \<not> a ! k < pivot \<and> (\<forall>m. i \<le> m \<and> m < k \<longrightarrow> a ! m < pivot)"
  using assms
proof (induction a pivot i rule: scan_up.induct)
  case (1 a pivot i)
  show ?case
  proof (cases "a ! i < pivot")
    case True
    then have "\<exists>k. Suc i \<le> k \<and> k \<le> l \<and> \<not> a ! k < pivot" using 1(2) by (metis le_antisym not_less_eq_eq)
    moreover have il: "\<not> length a \<le> i" using 1(2,3) by auto
    ultimately obtain k where k: "scan_up a pivot (Suc i) = Some k" "Suc i \<le> k" "k \<le> l" "\<not> a ! k < pivot"
      and below: "\<forall>m. Suc i \<le> m \<and> m < k \<longrightarrow> a ! m < pivot"
      using 1(1) [OF _ True] 1(3) by auto
    have "scan_up a pivot i = Some k" using True il k(1) scan_up.simps [of a pivot i] by simp
    moreover have "a ! m < pivot" if "i \<le> m" "m < k" for m using that below True by (cases "m = i") auto
    ultimately show ?thesis using k by auto
  next
    case False
    then show ?thesis using 1(2,3) scan_up.simps [of a pivot i] by auto
  qed
qed

text \<open>
  What holds of the section from \<open>f\<close> to \<open>l\<close> before every round: everything left of \<open>i\<close> is at most the pivot, everything from \<open>j\<close> on
  at least the pivot, and both scans meet an element that stops them inside the section.
\<close>

definition part_inv :: "'a :: linorder list \<Rightarrow> nat \<Rightarrow> nat \<Rightarrow> 'a \<Rightarrow> nat \<Rightarrow> nat \<Rightarrow> bool" where
  "part_inv a f l pivot i j \<longleftrightarrow>
     l < length a \<and> f \<le> i \<and> i \<le> j \<and> j \<le> Suc l \<and>
     (\<forall>m. f \<le> m \<and> m < i \<longrightarrow> a ! m \<le> pivot) \<and> (\<forall>m. j \<le> m \<and> m \<le> l \<longrightarrow> pivot \<le> a ! m) \<and>
     (\<exists>k. f \<le> k \<and> k < j \<and> a ! k \<le> pivot) \<and> (\<exists>k. i \<le> k \<and> k \<le> l \<and> pivot \<le> a ! k) \<and>
     (j = Suc l \<longrightarrow> i = f \<and> (\<exists>k. f \<le> k \<and> k < l \<and> pivot \<le> a ! k))"

definition same_outside :: "nat \<Rightarrow> nat \<Rightarrow> 'a list \<Rightarrow> 'a list \<Rightarrow> bool" where
  "same_outside f l a b \<longleftrightarrow> length b = length a \<and> mset b = mset a \<and> (\<forall>m < length a. m < f \<or> l < m \<longrightarrow> b ! m = a ! m)"

lemma same_outside_refl: "same_outside f l a a"
  by (simp add: same_outside_def)

lemma same_outside_trans: "same_outside f l a b \<Longrightarrow> same_outside f l b c \<Longrightarrow> same_outside f l a c"
  by (simp add: same_outside_def)

lemma same_outside_mono: "same_outside f l a b \<Longrightarrow> f' \<le> f \<Longrightarrow> l \<le> l' \<Longrightarrow> same_outside f' l' a b"
  by (auto simp: same_outside_def)

lemma same_outside_swap: "i < length a \<Longrightarrow> j < length a \<Longrightarrow> f \<le> i \<Longrightarrow> i \<le> l \<Longrightarrow> f \<le> j \<Longrightarrow> j \<le> l \<Longrightarrow> same_outside f l a (a[i := a ! j, j := a ! i])"
  by (auto simp: same_outside_def mset_swap nth_list_update)

lemma part_swap:
  assumes inv: "part_inv a f l pivot i j"
    and down: "f \<le> j'" "j' < j" "\<not> pivot < a ! j'" "\<forall>m. j' < m \<and> m < j \<longrightarrow> pivot < a ! m"
    and up: "i \<le> i'" "i' \<le> l" "\<not> a ! i' < pivot" "\<forall>m. i \<le> m \<and> m < i' \<longrightarrow> a ! m < pivot"
    and lt: "i' < j'"
  shows "part_inv (a[i' := a ! j', j' := a ! i']) f l pivot (Suc i') j'"
proof -
  let ?b = "a[i' := a ! j', j' := a ! i']"
  have len: "l < length a" "j' < length a" "i' < length a" "j' \<le> l" "f \<le> i'" using inv down up lt by (auto simp: part_inv_def)
  have b: "?b ! i' = a ! j'" "?b ! j' = a ! i'" "\<And>m. m \<noteq> i' \<Longrightarrow> m \<noteq> j' \<Longrightarrow> ?b ! m = a ! m"
    using len lt by (auto simp: nth_list_update)
  have "?b ! m \<le> pivot" if "f \<le> m" "m < Suc i'" for m
    using that b lt inv down(3) up(4) unfolding part_inv_def by (cases "m = i'"; cases "m < i") (auto simp: less_imp_le)
  moreover have "pivot \<le> ?b ! m" if "j' \<le> m" "m \<le> l" for m
    using that b lt inv down(4) up(3) unfolding part_inv_def by (cases "m = j'"; cases "m < j") (auto simp: less_imp_le)
  moreover have "?b ! i' \<le> pivot" "pivot \<le> ?b ! j'" using b down(3) up(3) by auto
  ultimately show ?thesis unfolding part_inv_def using len lt inv by (auto intro: exI [of _ i'] exI [of _ j'])
qed

lemma part_done:
  assumes inv: "part_inv a f l pivot i j"
    and down: "f \<le> j'" "j' < j" "\<not> pivot < a ! j'" "\<forall>m. j' < m \<and> m < j \<longrightarrow> pivot < a ! m"
    and up: "i \<le> i'" "i' \<le> l" "\<not> a ! i' < pivot" "\<forall>m. i \<le> m \<and> m < i' \<longrightarrow> a ! m < pivot"
    and ge: "\<not> i' < j'"
  shows "j' < l" "\<And>m. f \<le> m \<Longrightarrow> m \<le> j' \<Longrightarrow> a ! m \<le> pivot" "\<And>m. j' < m \<Longrightarrow> m \<le> l \<Longrightarrow> pivot \<le> a ! m"
proof -
  show "j' < l"
  proof (cases "j = Suc l")
    case True
    then have "i = f" using inv by (simp add: part_inv_def)
    obtain k where k: "f \<le> k" "k < l" "pivot \<le> a ! k" using True inv by (auto simp: part_inv_def)
    show ?thesis
    proof (rule ccontr)
      assume "\<not> j' < l"
      then have "i' = l" using down(2) up(2) ge True by auto
      then have "a ! m < pivot" if "f \<le> m" "m < l" for m using that up(4) \<open>i = f\<close> by simp
      then show False using k by fastforce
    qed
  qed (use inv down(2) in \<open>auto simp: part_inv_def\<close>)
  show "a ! m \<le> pivot" if "f \<le> m" "m \<le> j'" for m
    using that inv ge down(3) up(4) unfolding part_inv_def by (cases "m < i"; cases "m = j'") (auto simp: less_imp_le)
  show "pivot \<le> a ! m" if "j' < m" "m \<le> l" for m
    using that inv down(4) unfolding part_inv_def by (cases "m < j") (auto simp: less_imp_le)
qed

lemma partition_spec:
  assumes "part_inv a f l pivot i j"
  shows "\<exists>b m. snapsort_partition a i j pivot = Some (b, m) \<and> f \<le> m \<and> m < l \<and> same_outside f l a b \<and>
    (\<forall>k. f \<le> k \<and> k \<le> m \<longrightarrow> b ! k \<le> pivot) \<and> (\<forall>k. m < k \<and> k \<le> l \<longrightarrow> pivot \<le> b ! k)"
  using assms
proof (induction a i j pivot rule: snapsort_partition.induct)
  case (1 a i j pivot)
  have "\<exists>k. f \<le> k \<and> k < j \<and> \<not> pivot < a ! k" "j \<le> length a" using 1(2) by (auto simp: part_inv_def not_less)
  from scan_down_ok [OF this] obtain j' where d: "scan_down a pivot j = Some j'" "f \<le> j'" "j' < j" "\<not> pivot < a ! j'" "\<forall>m. j' < m \<and> m < j \<longrightarrow> pivot < a ! m"
    by blast
  have "\<exists>k. i \<le> k \<and> k \<le> l \<and> \<not> a ! k < pivot" "l < length a" using 1(2) by (auto simp: part_inv_def not_less)
  from scan_up_ok [OF this] obtain i' where u: "scan_up a pivot i = Some i'" "i \<le> i'" "i' \<le> l" "\<not> a ! i' < pivot" "\<forall>m. i \<le> m \<and> m < i' \<longrightarrow> a ! m < pivot"
    by blast
  show ?case
  proof (cases "i' < j'")
    case True
    let ?b = "a[i' := a ! j', j' := a ! i']"
    note s = part_swap [OF 1(2) d(2-5) u(2-5) True]
    have "same_outside f l a ?b" using 1(2) d u True by (intro same_outside_swap) (auto simp: part_inv_def)
    with 1(1) [OF d(1) u(1) True s] show ?thesis
      by (subst snapsort_partition.simps) (auto simp: d(1) u(1) True intro: same_outside_trans)
  next
    case False
    from part_done [OF 1(2) d(2-5) u(2-5) False] show ?thesis
      by (subst snapsort_partition.simps) (auto simp: d(1,2) u(1) False same_outside_refl)
  qed
qed

lemma median_start:
  assumes "f + 1 < l" "l < length a"
  shows "part_inv a f l (median (a ! f) (a ! l) (a ! ((f + l) div 2))) f (Suc l)"
proof -
  let ?k = "(f + l) div 2" and ?m = "median (a ! f) (a ! l) (a ! ((f + l) div 2))"
  have k: "f \<le> ?k" "?k < l" using assms by auto
  have "?m \<le> a ! f \<or> ?m \<le> a ! ?k" "a ! f \<le> ?m \<or> a ! ?k \<le> ?m" unfolding median_def by (auto simp: min_def)
  then show ?thesis using k assms unfolding part_inv_def by (auto 0 3 dest: less_imp_le)
qed

subsection \<open>The whole sort\<close>

lemma snapsort_impl_total:
  assumes "l < length a" "f \<le> l" "l < f + n"
  shows "\<exists>b. snapsort_impl n a f l = Some b \<and> same_outside f l a b"
  using assms
proof (induction n arbitrary: a f l)
  case (Suc n)
  show ?case
  proof (cases "f + 16 < l")
    case True
    let ?p = "median (a ! f) (a ! l) (a ! ((f + l) div 2))"
    have "part_inv a f l ?p f (Suc l)" by (rule median_start) (use True Suc.prems in auto)
    from partition_spec [OF this] obtain b m where p: "snapsort_partition a f (Suc l) ?p = Some (b, m)" "f \<le> m" "m < l" "same_outside f l a b"
      by blast
    then have b: "length b = length a" by (simp add: same_outside_def)
    obtain c where c: "snapsort_impl n b f m = Some c" "same_outside f m b c"
      using Suc.IH [of m b f] p b Suc.prems by auto
    then have "length c = length a" by (simp add: same_outside_def b)
    then obtain d where d: "snapsort_impl n c (Suc m) l = Some d" "same_outside (Suc m) l c d"
      using Suc.IH [of l c "Suc m"] p Suc.prems by auto
    have "same_outside f l a d"
      using p c(2) d(2) by (meson same_outside_trans same_outside_mono le_refl less_imp_le le_SucI)
    then show ?thesis using True p c d Suc.prems by simp
  next
    case False
    then show ?thesis by (simp add: same_outside_refl)
  qed
qed simp

lemma snapsort_sort: "a \<noteq> [] \<Longrightarrow> snapsort a = Some (sort a)"
proof -
  assume "a \<noteq> []"
  then obtain b where "snapsort_impl (length a) a 0 (length a - 1) = Some b" "same_outside 0 (length a - 1) a b"
    using snapsort_impl_total [of "length a - 1" a 0 "length a"] by auto
  then show ?thesis by (simp add: snapsort_def insertion_sort same_outside_def properties_for_sort)
qed

subsection \<open>Binary search is correct\<close>

lemma binary_search_section:
  assumes "sorted a" "base + limit \<le> length a" "\<And>m. m < base \<Longrightarrow> a ! m < key" "\<And>m. base + limit \<le> m \<Longrightarrow> m < length a \<Longrightarrow> key < a ! m"
  shows "WT_BINARY_SEARCH key a base limit = Inr (key \<in> set a)"
  using assms
proof (induction key a base limit rule: WT_BINARY_SEARCH.induct)
  case (1 key a base limit)
  let ?i = "base + limit div 2"
  show ?case
  proof (cases "limit = 0")
    case True
    have "a ! m \<noteq> key" if "m < length a" for m using 1(5) [of m] 1(6) [of m] that True by (cases "m < base") force+
    then show ?thesis using True by (subst WT_BINARY_SEARCH.simps) (auto simp: in_set_conv_nth)
  next
    case False
    then have i: "\<not> length a \<le> ?i" "?i < base + limit" using 1(4) by linarith+
    consider "a ! ?i < key" | "a ! ?i = key" | "key < a ! ?i" by (rule linorder_cases)
    then show ?thesis
    proof cases
      case 1
      have "WT_BINARY_SEARCH key a (?i + 1) ((limit - 1) div 2) = Inr (key \<in> set a)"
      proof (rule "1.IH"(1) [OF False refl i(1) 1])
        show "a ! m < key" if "m < ?i + 1" for m
          using sorted_nth_mono [OF "1.prems"(1), of m ?i] that i 1 by (auto intro: le_less_trans)
      qed (use "1.prems" False in auto)
      then show ?thesis using 1 False i(1) by (subst WT_BINARY_SEARCH.simps) (simp add: Let_def)
    next
      case 2
      then show ?thesis using False i(1) by (subst WT_BINARY_SEARCH.simps) (auto simp: Let_def)
    next
      case 3
      have "WT_BINARY_SEARCH key a base (limit div 2) = Inr (key \<in> set a)"
      proof (rule "1.IH"(2) [OF False refl i(1)])
        show "key < a ! m" if "base + limit div 2 \<le> m" "m < length a" for m
          using sorted_nth_mono [OF "1.prems"(1), of ?i m] that 3 by (auto intro: less_le_trans)
      qed (use "1.prems" 3 in auto)
      then show ?thesis using 3 False i(1) by (subst WT_BINARY_SEARCH.simps) (auto simp: Let_def)
    qed
  qed
qed

lemma binary_search_sorted: "sorted a \<Longrightarrow> WT_BINARY_SEARCH key a 0 (length a) = Inr (key \<in> set a)"
  by (rule binary_search_section) auto

text \<open>The search stays in the array, sorted or not.\<close>

lemma binary_search_in_bounds: "base + limit \<le> length a \<Longrightarrow> \<exists>b. WT_BINARY_SEARCH key a base limit = Inr b"
proof (induction key a base limit rule: WT_BINARY_SEARCH.induct)
  case (1 key a base limit)
  show ?case
  proof (cases "limit = 0")
    case False
    then have i: "\<not> length a \<le> base + limit div 2" using "1.prems" by linarith
    note IH = "1.IH" [OF False refl i]
    have "base + limit div 2 + 1 + (limit - 1) div 2 \<le> length a" "base + limit div 2 \<le> length a" using False "1.prems" by auto
    then show ?thesis using IH i False by (subst WT_BINARY_SEARCH.simps) (auto simp: Let_def)
  qed (auto simp: WT_BINARY_SEARCH.simps)
qed

end
