(* ===== verification/Modify.thy ===== *)
theory Modify
  imports Struct_Roundtrip
begin

text \<open>
  Partial updates: \<^verbatim>\<open>src/src/support/modify.c\<close>. A modify operation is a list of byte replacements, packed as the number of entries, three
  sizes per entry and the replacement data. Applying it first tries replacements in place, then one pass from the end of the value
  to its start, and otherwise works entry by entry. The theorems show that all three agree with the plain meaning of the entries.

  Sizes and offsets (\<^verbatim>\<open>size_t\<close>) are natural numbers; sums and differences that applications can make wrap around are written with
  \<open>sz_add\<close> and \<open>sz_sub\<close>. Growing a buffer is assumed to find memory; what is in the memory is the parameter \<open>mem\<close>.
\<close>

subsection \<open>Data\<close>

definition size_lim :: nat where
  "size_lim = 0x10000000000000000"

definition sz_add :: "nat \<Rightarrow> nat \<Rightarrow> nat" where
  "sz_add a b = (a + b) mod size_lim"

definition sz_sub :: "nat \<Rightarrow> nat \<Rightarrow> nat" where
  "sz_sub a b = (a + size_lim - b) mod size_lim"

record wt_modify =
  mod_data :: bytes
  mod_offset :: nat
  mod_size :: nat

definition memcpy :: "bytes \<Rightarrow> nat \<Rightarrow> bytes \<Rightarrow> bytes result" where
  "memcpy buf to d =
     (if length buf < to + length d then Inl OOB_READ else Inr (take to buf @ d @ drop (to + length d) buf))"

definition memmove :: "bytes \<Rightarrow> nat \<Rightarrow> nat \<Rightarrow> nat \<Rightarrow> bytes result" where
  "memmove buf to from n =
     (if length buf < to + n \<or> length buf < from + n then Inl OOB_READ
      else Inr (take to buf @ take n (drop from buf) @ drop (to + n) buf))"

subsection \<open>Packing\<close>

definition wt_modify_pack :: "wt_modify list \<Rightarrow> bytes" where
  "wt_modify_pack entries =
     le_bytes (word_of_nat (length entries)) @
     concat (map (\<lambda>m. le_bytes (word_of_nat (length (mod_data m))) @ le_bytes (word_of_nat (mod_offset m)) @
                      le_bytes (word_of_nat (mod_size m))) entries) @
     concat (map mod_data entries)"

text \<open>The \<open>i\<close>-th \<^verbatim>\<open>size_t\<close> of a buffer.\<close>

definition read_size :: "bytes \<Rightarrow> nat \<Rightarrow> nat result" where
  "read_size buf i =
     (if length buf < 8 * i + 8 then Inl OOB_READ else Inr (unat (le_value (take 8 (drop (8 * i) buf)))))"

definition read_entries :: "bytes \<Rightarrow> int result" where
  "read_entries buf = WT_RET (read_size buf 0) (\<lambda>tmp. Inr (sint (word_of_nat tmp :: u32)))"

text \<open>The entry whose three sizes start at index \<open>p\<close> and whose data is at \<open>data\<close>.\<close>

definition read_modify :: "bytes \<Rightarrow> nat \<Rightarrow> (nat \<Rightarrow> nat) \<Rightarrow> (wt_modify \<times> nat) result" where
  "read_modify buf p place =
     WT_RET (read_size buf p) (\<lambda>dsz.
     WT_RET (read_size buf (p + 1)) (\<lambda>off.
     WT_RET (read_size buf (p + 2)) (\<lambda>sz.
     let data = place dsz in
     if length buf < data + dsz then Inl OOB_READ
     else Inr (\<lparr>mod_data = take dsz (drop data buf), mod_offset = off, mod_size = sz\<rparr>, data))))"

text \<open>The entries a forward loop and a reverse loop visit; a loop body is a function of them.\<close>

fun modify_foreach :: "bytes \<Rightarrow> nat \<Rightarrow> nat \<Rightarrow> nat \<Rightarrow> wt_modify list result" where
  "modify_foreach buf p data 0 = Inr []"
| "modify_foreach buf p data (Suc n) =
     WT_RET (read_modify buf p (\<lambda>_. data)) (\<lambda>(m, _).
     WT_RET (modify_foreach buf (p + 3) (data + length (mod_data m)) n) (\<lambda>ms. Inr (m # ms)))"

definition WT_MODIFY_FOREACH_BEGIN :: "bytes \<Rightarrow> int \<Rightarrow> wt_modify list result" where
  "WT_MODIFY_FOREACH_BEGIN buf nentries = modify_foreach buf 1 (8 + 24 * nat nentries) (nat nentries)"

fun modify_foreach_reverse :: "bytes \<Rightarrow> nat \<Rightarrow> nat \<Rightarrow> nat \<Rightarrow> wt_modify list result" where
  "modify_foreach_reverse buf p data 0 = Inr []"
| "modify_foreach_reverse buf p data (Suc n) =
     WT_RET (read_modify buf (p - 3) (\<lambda>dsz. data - dsz)) (\<lambda>(m, data).
     WT_RET (modify_foreach_reverse buf (p - 3) data n) (\<lambda>ms. Inr (m # ms)))"

definition WT_MODIFY_FOREACH_REVERSE :: "bytes \<Rightarrow> int \<Rightarrow> nat \<Rightarrow> nat \<Rightarrow> wt_modify list result" where
  "WT_MODIFY_FOREACH_REVERSE buf nentries napplied datasz =
     modify_foreach_reverse buf (1 + 3 * nat nentries) (8 + 24 * nat nentries + datasz) (nat nentries - napplied)"

definition wt_modify_idempotent :: "bytes \<Rightarrow> bool result" where
  "wt_modify_idempotent modify =
     WT_RET (read_entries modify) (\<lambda>nentries.
     WT_RET (WT_MODIFY_FOREACH_BEGIN modify nentries) (\<lambda>ms.
     Inr (list_all (\<lambda>m. mod_size m = length (mod_data m)) ms)))"

subsection \<open>Application\<close>

definition modify_apply_one :: "bool \<Rightarrow> bytes \<Rightarrow> wt_modify \<Rightarrow> bytes result" where
  "modify_apply_one sformat v m =
     (let d = mod_data m; data_size = length d; offset = mod_offset m; sz = mod_size m in
      if sz_add offset data_size < length v \<and> data_size = sz then memcpy v offset d
      else if length v \<le> offset then
        if size_lim \<le> offset + data_size + 1 then Inl OOB_READ
        else Inr (v @ replicate (offset - length v) (if sformat then 32 else 0) @ d)
      else
        let sz = (if length v < sz_add offset sz then length v - offset else sz) in
        if data_size = sz then Inr (take offset v @ d)
        else Inr (take offset v @ d @ drop (sz_add offset sz) v))"

text \<open>
  \<^verbatim>\<open>__modify_fast_path\<close>: the value, the number of entries applied in place, and unless the entries may overlap the total size of the
  data and the size of the result. \<open>prev\<close> is \<open>None\<close> while \<^verbatim>\<open>first\<close> is set.
\<close>

fun modify_fast_loop ::
  "bytes \<Rightarrow> nat \<Rightarrow> bool \<Rightarrow> wt_modify option \<Rightarrow> nat \<Rightarrow> nat \<Rightarrow> wt_modify \<Rightarrow> wt_modify list \<Rightarrow> (bytes \<times> nat \<times> (nat \<times> nat) option) result" where
  "modify_fast_loop value napplied fastpath prev datasz destoff current [] =
     Inr (value, napplied,
       Some (datasz, sz_add destoff (sz_sub (length value) (sz_add (mod_offset current) (mod_size current)))))"
| "modify_fast_loop value napplied fastpath prev datasz destoff _ (current # ms) =
     (let datasz = sz_add datasz (length (mod_data current));
          off = mod_offset current; src_end = sz_add off (mod_size current) in
      if fastpath \<and> length (mod_data current) = mod_size current \<and> src_end \<le> length value then
        WT_RET (memcpy value off (mod_data current)) (\<lambda>value.
        modify_fast_loop value (napplied + 1) fastpath prev datasz destoff current ms)
      else
        let destoff' = (case prev of None \<Rightarrow> off | Some pv \<Rightarrow> sz_add destoff (sz_sub off (sz_add (mod_offset pv) (mod_size pv)))) in
        if (case prev of
              None \<Rightarrow> False
            | Some pv \<Rightarrow> off < sz_add (mod_offset pv) (mod_size pv) \<or> off < sz_add (mod_offset pv) (length (mod_data pv)))
        then Inr (value, napplied, None)
        else if src_end > length value then Inr (value, napplied, None)
        else if mod_size current \<noteq> length (mod_data current) \<and> src_end > destoff' then Inr (value, napplied, None)
        else modify_fast_loop value napplied False (Some current) datasz (sz_add destoff' (length (mod_data current))) current ms)"

definition modify_fast_path :: "bytes \<Rightarrow> wt_modify list \<Rightarrow> (bytes \<times> nat \<times> (nat \<times> nat) option) result" where
  "modify_fast_path value ms =
     modify_fast_loop value 0 True None 0 0 \<lparr>mod_data = [], mod_offset = 0, mod_size = 0\<rparr> ms"

text \<open>The loop of \<^verbatim>\<open>__modify_apply_no_overlap\<close> over the entries in reverse order; \<open>from\<close> and \<open>to\<close> are offsets in the buffer.\<close>

fun no_overlap_loop :: "bytes \<Rightarrow> nat \<Rightarrow> nat \<Rightarrow> wt_modify list \<Rightarrow> bytes result" where
  "no_overlap_loop buf from to [] = Inr buf"
| "no_overlap_loop buf from to (current # ms) =
     (let sz = sz_sub to (sz_add (mod_offset current) (length (mod_data current)));
          from = sz_sub from sz; to = sz_sub to sz in
      WT_RET (if to \<noteq> from then memmove buf to from sz else Inr buf) (\<lambda>buf.
      let from = sz_sub from (mod_size current); to = sz_sub to (length (mod_data current)) in
      WT_RET (memcpy buf to (mod_data current)) (\<lambda>buf. no_overlap_loop buf from to ms)))"

definition modify_apply_no_overlap :: "(nat \<Rightarrow> u8) \<Rightarrow> bytes \<Rightarrow> bytes \<Rightarrow> int \<Rightarrow> nat \<Rightarrow> nat \<Rightarrow> nat \<Rightarrow> bytes result" where
  "modify_apply_no_overlap mem v modify nentries napplied datasz destsz =
     WT_RET (WT_MODIFY_FOREACH_REVERSE modify nentries napplied datasz) (\<lambda>ms.
     WT_RET (no_overlap_loop (v @ map mem [0..<destsz - length v]) (length v) destsz ms) (\<lambda>buf.
     Inr (take destsz buf)))"

fun apply_each :: "bool \<Rightarrow> bytes \<Rightarrow> wt_modify list \<Rightarrow> bytes result" where
  "apply_each sformat v [] = Inr v"
| "apply_each sformat v (m # ms) = WT_RET (modify_apply_one sformat v m) (\<lambda>v. apply_each sformat v ms)"

definition wt_modify_apply_item :: "(nat \<Rightarrow> u8) \<Rightarrow> bool \<Rightarrow> bytes \<Rightarrow> bytes \<Rightarrow> bytes result" where
  "wt_modify_apply_item mem sformat value modify =
     WT_RET (read_entries modify) (\<lambda>nentries.
     if sformat \<and> value = [] then Inl OOB_READ
     else WT_RET (WT_MODIFY_FOREACH_BEGIN modify nentries) (\<lambda>ms.
          WT_RET (modify_fast_path (if sformat then butlast value else value) ms) (\<lambda>(v, napplied, r).
          WT_RET (if int napplied = nentries then Inr v
                  else case r of
                         Some (datasz, destsz) \<Rightarrow> modify_apply_no_overlap mem v modify nentries napplied datasz destsz
                       | None \<Rightarrow> apply_each sformat v (drop napplied ms)) (\<lambda>v.
          Inr (if sformat then v @ [0] else v)))))"

definition wt_modify_apply_api :: "(nat \<Rightarrow> u8) \<Rightarrow> bool \<Rightarrow> bytes \<Rightarrow> wt_modify list \<Rightarrow> bytes result" where
  "wt_modify_apply_api mem sformat value entries = wt_modify_apply_item mem sformat value (wt_modify_pack entries)"

subsection \<open>The plain meaning of an entry\<close>

definition replace_bytes :: "u8 \<Rightarrow> bytes \<Rightarrow> wt_modify \<Rightarrow> bytes" where
  "replace_bytes pad v m =
     take (mod_offset m) v @ replicate (mod_offset m - length v) pad @ mod_data m @ drop (mod_offset m + mod_size m) v"

definition mod_ok :: "wt_modify \<Rightarrow> bool" where
  "mod_ok m \<longleftrightarrow> mod_offset m + mod_size m < size_lim \<and> mod_offset m + length (mod_data m) + 1 < size_lim"

lemma sz_add_eq: "a + b < size_lim \<Longrightarrow> sz_add a b = a + b"
  by (simp add: sz_add_def)

lemma sz_sub_eq: "b \<le> a \<Longrightarrow> a < size_lim \<Longrightarrow> sz_sub a b = a - b"
proof -
  assume a: "b \<le> a" "a < size_lim"
  then have "a + size_lim - b = (a - b) + size_lim" by simp
  then have "sz_sub a b = (a - b) mod size_lim" unfolding sz_sub_def by (simp only: mod_add_self2)
  then show ?thesis using a by simp
qed

lemma apply_one_correct: "mod_ok m \<Longrightarrow> modify_apply_one sformat v m = Inr (replace_bytes (if sformat then 32 else 0) v m)"
  by (auto simp: modify_apply_one_def mod_ok_def replace_bytes_def memcpy_def Let_def sz_add_eq)

lemma apply_each_correct:
  "list_all mod_ok ms \<Longrightarrow> apply_each sformat v ms = Inr (foldl (replace_bytes (if sformat then 32 else 0)) v ms)"
  by (induction ms arbitrary: v) (simp_all add: apply_one_correct)

subsection \<open>Reading a packed list back\<close>

abbreviation entry_bytes :: "wt_modify \<Rightarrow> bytes" where
  "entry_bytes m \<equiv> le_bytes (word_of_nat (length (mod_data m))) @ le_bytes (word_of_nat (mod_offset m)) @ le_bytes (word_of_nat (mod_size m))"

lemma read_size_at: "length xs = 8 * i \<Longrightarrow> n < size_lim \<Longrightarrow> read_size (xs @ le_bytes (word_of_nat n) @ ys) i = Inr n"
  by (simp add: read_size_def le_value_bytes unat_of_nat size_lim_def)

lemma entry_length: "length (entry_bytes m) = 24"
  by simp

lemma entries_length: "length (concat (map (\<lambda>m. entry_bytes m) ms)) = 24 * length ms"
  by (induction ms) simp_all

lemma read_modify_at:
  assumes "mod_ok m" "length xs = 8 * p" "place (length (mod_data m)) = 8 * p + 24 + length zs"
  shows "read_modify (xs @ entry_bytes m @ zs @ mod_data m @ ys) p place = Inr (m, 8 * p + 24 + length zs)"
proof -
  have lt: "length (mod_data m) < size_lim" "mod_offset m < size_lim" "mod_size m < size_lim" using assms(1) by (auto simp: mod_ok_def)
  let ?b = "xs @ entry_bytes m @ zs @ mod_data m @ ys"
  have "read_size ?b p = Inr (length (mod_data m))" using read_size_at [OF assms(2) lt(1)] by simp
  moreover have "read_size ?b (p + 1) = Inr (mod_offset m)"
    using read_size_at [of "xs @ le_bytes (word_of_nat (length (mod_data m)))" "p + 1", OF _ lt(2)] assms(2) by simp
  moreover have "read_size ?b (p + 2) = Inr (mod_size m)"
    using read_size_at [of "xs @ le_bytes (word_of_nat (length (mod_data m))) @ le_bytes (word_of_nat (mod_offset m))" "p + 2", OF _ lt(3)] assms(2)
    by simp
  moreover have "drop (24 + (8 * p + length zs)) ?b = mod_data m @ ys" using assms(2) by simp
  ultimately show ?thesis using assms(2,3) by (simp add: read_modify_def Let_def add.assoc add.left_commute add.commute)
qed

lemma foreach_packed:
  "list_all mod_ok ms \<Longrightarrow> length xs = 8 * p \<Longrightarrow>
   modify_foreach (xs @ concat (map (\<lambda>m. entry_bytes m) ms) @ zs @ concat (map mod_data ms) @ ys) p (8 * p + 24 * length ms + length zs) (length ms) = Inr ms"
proof (induction ms arbitrary: xs p zs)
  case (Cons m ms)
  let ?hs = "concat (map (\<lambda>m. entry_bytes m) ms)" and ?ds = "concat (map mod_data ms)"
  let ?b = "xs @ concat (map (\<lambda>m. entry_bytes m) (m # ms)) @ zs @ concat (map mod_data (m # ms)) @ ys"
  have l: "length (?hs @ zs) = 24 * length ms + length zs" by (simp add: entries_length)
  define data where "data = 8 * p + 24 * length (m # ms) + length zs"
  have r: "read_modify ?b p (\<lambda>_. data) = Inr (m, data)"
    using read_modify_at [of m xs p "\<lambda>_. data" "?hs @ zs" "?ds @ ys"] Cons.prems l by (simp add: data_def)
  have "modify_foreach ?b (p + 3) (8 * (p + 3) + 24 * length ms + length (zs @ mod_data m)) (length ms) = Inr ms"
    using Cons.IH [of "xs @ entry_bytes m" "p + 3" "zs @ mod_data m"] Cons.prems by simp
  moreover have "8 * (p + 3) + 24 * length ms + length (zs @ mod_data m) = data + length (mod_data m)" by (simp add: data_def)
  ultimately have f: "modify_foreach ?b (p + 3) (data + length (mod_data m)) (length ms) = Inr ms" by (simp only:)
  show ?case unfolding data_def [symmetric] using r f by simp
qed simp

lemma foreach_reverse_packed:
  "list_all mod_ok ms \<Longrightarrow> length xs = 8 * p \<Longrightarrow>
   modify_foreach_reverse (xs @ concat (map (\<lambda>m. entry_bytes m) ms) @ zs @ concat (map mod_data ms) @ ys) (p + 3 * length ms)
     (8 * p + 24 * length ms + length zs + length (concat (map mod_data ms))) (length ms) = Inr (rev ms)"
proof (induction ms arbitrary: zs ys rule: rev_induct)
  case (snoc m ms)
  let ?hs = "concat (map (\<lambda>m. entry_bytes m) ms)" and ?ds = "concat (map mod_data ms)"
  let ?b = "xs @ concat (map (\<lambda>m. entry_bytes m) (ms @ [m])) @ zs @ concat (map mod_data (ms @ [m])) @ ys"
  let ?data = "8 * p + 24 * length ms + 24 + length zs + length ?ds"
  have "read_modify ?b (p + 3 * length ms) (\<lambda>dsz. ?data + length (mod_data m) - dsz) = Inr (m, ?data)"
    using read_modify_at [of m "xs @ ?hs" "p + 3 * length ms" "\<lambda>dsz. ?data + length (mod_data m) - dsz" "zs @ ?ds" ys] snoc.prems
    by (simp add: entries_length algebra_simps)
  moreover have "modify_foreach_reverse ?b (p + 3 * length ms) ?data (length ms) = Inr (rev ms)"
    using snoc.IH [of "entry_bytes m @ zs" "mod_data m @ ys"] snoc.prems by (simp add: algebra_simps)
  ultimately show ?case by (simp add: algebra_simps)
qed simp

lemma pack_read_entries:
  assumes "length ms < 0x80000000"
  shows "read_entries (wt_modify_pack ms) = Inr (int (length ms))"
proof -
  have "read_size (wt_modify_pack ms) 0 = Inr (length ms)"
    using read_size_at [of "[]" 0 "length ms"] assms by (simp add: wt_modify_pack_def size_lim_def)
  moreover have "sint (word_of_nat (length ms) :: u32) = int (length ms)"
    using assms by (simp add: signed_of_nat signed_take_bit_int_eq_self)
  ultimately show ?thesis by (simp add: read_entries_def)
qed

lemma pack_foreach:
  "list_all mod_ok ms \<Longrightarrow> WT_MODIFY_FOREACH_BEGIN (wt_modify_pack ms) (int (length ms)) = Inr ms"
  using foreach_packed [of ms "le_bytes (word_of_nat (length ms))" 1 "[]" "[]"]
  by (simp add: WT_MODIFY_FOREACH_BEGIN_def wt_modify_pack_def)

lemma pack_foreach_reverse:
  assumes "list_all mod_ok ms" "n \<le> length ms"
  shows "WT_MODIFY_FOREACH_REVERSE (wt_modify_pack ms) (int (length ms)) n (length (concat (map mod_data ms))) = Inr (rev (drop n ms))"
proof -
  let ?a = "take n ms" and ?b = "drop n ms"
  have cat: "concat (map f ms) = concat (map f ?a) @ concat (map f ?b)" for f :: "wt_modify \<Rightarrow> bytes"
    by (metis append_take_drop_id concat_append map_append)
  have l: "length ?a = n" "length ?b = length ms - n" using assms(2) by simp_all
  have "list_all mod_ok ?b" using assms(1) by (auto simp: list_all_iff dest: in_set_dropD)
  from foreach_reverse_packed [OF this, of "le_bytes (word_of_nat (length ms)) @ concat (map (\<lambda>m. entry_bytes m) ?a)" "1 + 3 * n" "concat (map mod_data ?a)" "[]"]
  have "modify_foreach_reverse (wt_modify_pack ms) (1 + 3 * n + 3 * length ?b)
     (8 * (1 + 3 * n) + 24 * length ?b + length (concat (map mod_data ms))) (length ?b) = Inr (rev ?b)"
    unfolding wt_modify_pack_def cat [of "\<lambda>m. entry_bytes m"] cat [of mod_data] using l by (simp add: entries_length add.assoc)
  moreover have "8 * (1 + 3 * n) + 24 * length ?b = 8 + 24 * length ms" "1 + 3 * n + 3 * length ?b = 1 + 3 * length ms" using l assms(2) by simp_all
  ultimately have "modify_foreach_reverse (wt_modify_pack ms) (1 + 3 * length ms) (8 + 24 * length ms + length (concat (map mod_data ms))) (length ?b) = Inr (rev ?b)"
    by (simp only:)
  then show ?thesis using l by (simp add: WT_MODIFY_FOREACH_REVERSE_def)
qed

subsection \<open>One pass from the end\<close>

text \<open>
  Entries the single pass accepts, after entries that made the value longer by \<open>g\<close> and end at \<open>e\<close>: they follow each other, stay in the
  old value, and never make the value shorter than it was.
\<close>

fun in_order :: "nat \<Rightarrow> nat \<Rightarrow> nat \<Rightarrow> wt_modify list \<Rightarrow> bool" where
  "in_order n g e [] = True"
| "in_order n g e (m # ms) =
     (e \<le> mod_offset m \<and> mod_offset m + mod_size m \<le> n \<and> (mod_size m = length (mod_data m) \<or> mod_size m \<le> g) \<and>
      in_order n (g + length (mod_data m) - mod_size m) (mod_offset m + length (mod_data m)) ms)"

definition growth :: "nat \<Rightarrow> wt_modify list \<Rightarrow> nat" where
  "growth g ms = foldl (\<lambda>g m. g + length (mod_data m) - mod_size m) g ms"

definition last_end :: "nat \<Rightarrow> wt_modify list \<Rightarrow> nat" where
  "last_end e ms = foldl (\<lambda>e m. mod_offset m + length (mod_data m)) e ms"

lemma growth_snoc: "growth g (ms @ [m]) = growth g ms + length (mod_data m) - mod_size m"
  by (simp add: growth_def)

lemma last_end_snoc: "last_end e (ms @ [m]) = mod_offset m + length (mod_data m)"
  by (simp add: last_end_def)

lemma in_order_snoc:
  "in_order n g e (ms @ [m]) \<longleftrightarrow> in_order n g e ms \<and>
     last_end e ms \<le> mod_offset m \<and> mod_offset m + mod_size m \<le> n \<and> (mod_size m = length (mod_data m) \<or> mod_size m \<le> growth g ms)"
  by (induction ms arbitrary: g e) (auto simp: growth_def last_end_def)

lemma growth_le_end: "in_order n g e ms \<Longrightarrow> g \<le> e \<Longrightarrow> growth g ms \<le> last_end e ms"
  by (induction ms arbitrary: g e) (auto simp: growth_def last_end_def)

lemma replace_inside:
  "mod_offset m \<le> length v \<Longrightarrow> replace_bytes pad v m = take (mod_offset m) v @ mod_data m @ drop (mod_offset m + mod_size m) v"
  by (simp add: replace_bytes_def)

text \<open>Behind the last entry the new value is the old one, moved.\<close>

lemma in_order_tail:
  assumes "in_order (length v) 0 0 ms"
  shows "length (foldl (replace_bytes pad) v ms) = length v + growth 0 ms \<and>
    (\<forall>j \<ge> last_end 0 ms. drop j (foldl (replace_bytes pad) v ms) = drop (j - growth 0 ms) v)"
  using assms
proof (induction ms rule: rev_induct)
  case Nil
  then show ?case by (simp add: growth_def last_end_def)
next
  case (snoc m ms)
  let ?V = "foldl (replace_bytes pad) v ms" and ?g = "growth 0 ms" and ?d = "length (mod_data m)"
  have o: "in_order (length v) 0 0 ms" "last_end 0 ms \<le> mod_offset m" "mod_offset m + mod_size m \<le> length v" "mod_size m = ?d \<or> mod_size m \<le> ?g"
    using snoc.prems by (auto simp: in_order_snoc)
  have ge: "?g \<le> last_end 0 ms" using growth_le_end [OF o(1)] by simp
  have V: "length ?V = length v + ?g" "\<And>j. last_end 0 ms \<le> j \<Longrightarrow> drop j ?V = drop (j - ?g) v" using snoc.IH [OF o(1)] by auto
  have r: "replace_bytes pad ?V m = take (mod_offset m) ?V @ mod_data m @ drop (mod_offset m + mod_size m) ?V"
    using o V(1) by (intro replace_inside) simp
  have "drop j (replace_bytes pad ?V m) = drop (j - (?g + ?d - mod_size m)) v" if j: "mod_offset m + ?d \<le> j" for j
  proof -
    have "drop j (replace_bytes pad ?V m) = drop (j - (mod_offset m + ?d) + (mod_offset m + mod_size m)) ?V"
      unfolding r using j o V(1) by (simp add: min_def)
    also have "\<dots> = drop (j - (mod_offset m + ?d) + (mod_offset m + mod_size m) - ?g) v" using o by (intro V(2)) simp
    also have "j - (mod_offset m + ?d) + (mod_offset m + mod_size m) - ?g = j - (?g + ?d - mod_size m)" using j o ge by linarith
    finally show ?thesis .
  qed
  moreover have "length (replace_bytes pad ?V m) = length v + (?g + ?d - mod_size m)" unfolding r using o V(1) by (auto simp: min_def)
  ultimately show ?case by (simp add: growth_snoc last_end_snoc)
qed

lemma take_middle: "take i b @ take n (drop i b) @ drop (i + n) b = b"
  by (metis append_take_drop_id drop_drop add.commute)

lemma section_same: "i + n = k \<Longrightarrow> take k b = take k c \<Longrightarrow> take n (drop i b) = take n (drop i c)"
  by (metis add.commute take_drop)

lemma memcpy_before: "to + length d \<le> length b \<Longrightarrow> memcpy (take (to + length d) b @ xs) to d = Inr (take to b @ d @ xs)"
  by (simp add: memcpy_def)

lemma no_overlap_step:
  fixes m b src to
  defines "d \<equiv> length (mod_data m)" and "n \<equiv> to - (mod_offset m + length (mod_data m))"
  assumes "mod_offset m + d \<le> to" "to \<le> length b" "src \<le> length b" "length b < size_lim" "n \<le> src" "mod_size m \<le> src - n"
  shows "no_overlap_loop b src to (m # ms) =
    no_overlap_loop (take (mod_offset m) b @ mod_data m @ take n (drop (src - n) b) @ drop to b) (src - n - mod_size m) (mod_offset m) ms"
proof -
  let ?o = "mod_offset m"
  have n: "?o + d + n = to" "n \<le> to" using assms by simp_all
  have sub: "sz_sub to (sz_add ?o d) = n" "sz_sub src n = src - n" "sz_sub to n = ?o + d" "sz_sub (src - n) (mod_size m) = src - n - mod_size m"
    "sz_sub (?o + d) d = ?o" using assms n by (simp_all add: sz_add_eq sz_sub_eq)
  have move: "(if ?o + d \<noteq> src - n then memmove b (?o + d) (src - n) n else Inr b) = Inr (take (?o + d) b @ take n (drop (src - n) b) @ drop to b)"
  proof (cases "?o + d = src - n")
    case True
    then show ?thesis using take_middle [of "?o + d" b n] n(1) by simp
  next
    case False
    then show ?thesis using n assms(3-8) by (simp add: memmove_def)
  qed
  have "memcpy (take (?o + d) b @ take n (drop (src - n) b) @ drop to b) ?o (mod_data m) =
    Inr (take ?o b @ mod_data m @ take n (drop (src - n) b) @ drop to b)"
    using memcpy_before [of ?o "mod_data m" b] assms(3,4) by (simp add: d_def)
  then show ?thesis using move sub unfolding d_def by (simp add: Let_def cong: if_cong split del: if_split)
qed

lemma no_overlap_correct:
  assumes "in_order (length v) 0 0 ms" "src \<le> length v" "last_end 0 ms \<le> src + growth 0 ms" "src + growth 0 ms \<le> length b"
    "take src b = take src v" "length v \<le> length b" "length b < size_lim"
  shows "\<exists>b'. no_overlap_loop b src (src + growth 0 ms) (rev ms) = Inr b' \<and> length b' = length b \<and>
    take (src + growth 0 ms) b' = take (src + growth 0 ms) (foldl (replace_bytes pad) v ms) \<and>
    drop (src + growth 0 ms) b' = drop (src + growth 0 ms) b"
  using assms
proof (induction ms arbitrary: src b rule: rev_induct)
  case Nil
  then show ?case by (simp add: growth_def)
next
  case (snoc m ms)
  let ?V = "foldl (replace_bytes pad) v ms" and ?g = "growth 0 ms" and ?d = "length (mod_data m)" and ?o = "mod_offset m" and ?s = "mod_size m"
  let ?to = "src + (?g + ?d - ?s)"
  have o: "in_order (length v) 0 0 ms" "last_end 0 ms \<le> ?o" "?o + ?s \<le> length v" "?s = ?d \<or> ?s \<le> ?g"
    using snoc.prems(1) by (auto simp: in_order_snoc)
  have ge: "?g \<le> ?o" using growth_le_end [OF o(1)] o(2) by simp
  have e: "?o + ?d \<le> ?to" "?to \<le> length b" using snoc.prems(3,4) by (simp_all add: growth_snoc last_end_snoc)
  define n where "n = ?to - (?o + ?d)"
  have n: "src - n = ?o + ?s - ?g" "n \<le> src" "?o + ?s - ?g + n = src" "?o + ?d + n = ?to" using e o ge by (auto simp: n_def)
  define blk where "blk = take n (drop (?o + ?s - ?g) b)"
  define b2 where "b2 = take ?o b @ mod_data m @ blk @ drop ?to b"
  have lb: "length blk = n" using n snoc.prems by (simp add: blk_def)
  have l2: "length b2 = length b" using e n lb by (simp add: b2_def)
  have step: "no_overlap_loop b src ?to (m # rev ms) = no_overlap_loop b2 (?o - ?g) ?o (rev ms)"
    using no_overlap_step [of m ?to b src "rev ms"] e n o ge snoc.prems(2,6,7) unfolding b2_def blk_def n_def [symmetric] by simp
  have "\<exists>b'. no_overlap_loop b2 (?o - ?g) (?o - ?g + ?g) (rev ms) = Inr b' \<and> length b' = length b2 \<and>
    take (?o - ?g + ?g) b' = take (?o - ?g + ?g) ?V \<and> drop (?o - ?g + ?g) b' = drop (?o - ?g + ?g) b2"
  proof (rule snoc.IH [OF o(1)])
    have "?o - ?g \<le> src" using n o by linarith
    moreover have "take (?o - ?g) b2 = take (?o - ?g) b" using e n by (simp add: b2_def min_def)
    ultimately show "take (?o - ?g) b2 = take (?o - ?g) v" using snoc.prems(5) by (metis min.absorb1 take_take)
  qed (use o ge e l2 snoc.prems in auto)
  then obtain b' where b': "no_overlap_loop b2 (?o - ?g) ?o (rev ms) = Inr b'" "length b' = length b" "take ?o b' = take ?o ?V" "drop ?o b' = drop ?o b2"
    using ge l2 by auto
  have "blk = take n (drop (?o + ?s - ?g) v)" unfolding blk_def by (rule section_same [OF n(3) snoc.prems(5)])
  also have "drop (?o + ?s - ?g) v = drop (?o + ?s) ?V" using in_order_tail [OF o(1), of pad] o by simp
  finally have blk: "blk = take n (drop (?o + ?s) ?V)" .
  have "replace_bytes pad ?V m = take ?o ?V @ mod_data m @ drop (?o + ?s) ?V"
    using o in_order_tail [OF o(1), of pad] by (intro replace_inside) simp
  moreover have "length (take ?o ?V) = ?o" using o in_order_tail [OF o(1), of pad] by simp
  ultimately have V: "take ?to (replace_bytes pad ?V m) = take ?o ?V @ mod_data m @ blk" unfolding n(4) [symmetric] by (simp add: blk)
  have "b' = take ?o ?V @ drop ?o b2" using b'(3,4) by (metis append_take_drop_id)
  also have "drop ?o b2 = mod_data m @ blk @ drop ?to b" using e by (simp add: b2_def)
  finally have "b' = (take ?o ?V @ mod_data m @ blk) @ drop ?to b" by simp
  moreover have "length (take ?o ?V @ mod_data m @ blk) = ?to" using \<open>length (take ?o ?V) = ?o\<close> lb n by simp
  ultimately have "take ?to b' = take ?to (replace_bytes pad ?V m)" "drop ?to b' = drop ?to b" using V by (metis append_eq_conv_conj)+
  then show ?case using step b'(1,2) by (simp add: growth_snoc)
qed

subsection \<open>The fast path chooses rightly\<close>

abbreviation data_len :: "wt_modify list \<Rightarrow> nat" where
  "data_len ms \<equiv> length (concat (map mod_data ms))"

lemma fast_loop_sorted:
  assumes "list_all mod_ok ms" "mod_ok p" "mod_offset p + mod_size p \<le> length v" "destoff = mod_offset p + mod_size p + g" "g \<le> datasz"
    "length v + datasz + data_len ms < size_lim"
  shows "\<exists>r. modify_fast_loop v k False (Some p) datasz destoff p ms = Inr (v, k, r) \<and>
    (\<forall>ds de. r = Some (ds, de) \<longrightarrow> in_order (length v) g (mod_offset p + length (mod_data p)) ms \<and> ds = datasz + data_len ms \<and> de = length v + growth g ms)"
  using assms
proof (induction ms arbitrary: p destoff g datasz)
  case Nil
  then show ?case by (simp add: sz_add_eq sz_sub_eq growth_def)
next
  case (Cons m ms)
  let ?o = "mod_offset m" and ?s = "mod_size m" and ?d = "length (mod_data m)"
  have p: "sz_add (mod_offset p) (mod_size p) = mod_offset p + mod_size p" "sz_add (mod_offset p) (length (mod_data p)) = mod_offset p + length (mod_data p)"
    "sz_add ?o ?s = ?o + ?s" using Cons.prems(1,2) by (auto simp: mod_ok_def sz_add_eq)
  have ds: "sz_add datasz ?d = datasz + ?d" using Cons.prems(6) by (simp add: sz_add_eq)
  show ?case
  proof (cases "?o < mod_offset p + mod_size p \<or> ?o < mod_offset p + length (mod_data p) \<or> length v < ?o + ?s")
    case True
    then show ?thesis by (auto simp: p Let_def)
  next
    case False
    have "sz_add destoff (sz_sub ?o (mod_offset p + mod_size p)) = ?o + g"
      using False Cons.prems(3-6) by (simp add: sz_add_eq sz_sub_eq)
    then have loop: "modify_fast_loop v k False (Some p) datasz destoff p (m # ms) =
      (if ?s \<noteq> ?d \<and> ?s > g then Inr (v, k, None) else modify_fast_loop v k False (Some m) (datasz + ?d) (?o + g + ?d) m ms)"
      using False Cons.prems(5,6) by (simp add: p ds Let_def sz_add_eq)
    show ?thesis
    proof (cases "?s \<noteq> ?d \<and> ?s > g")
      case True
      then show ?thesis unfolding loop by simp
    next
      case f: False
      have "\<exists>r. modify_fast_loop v k False (Some m) (datasz + ?d) (?o + g + ?d) m ms = Inr (v, k, r) \<and>
        (\<forall>ds de. r = Some (ds, de) \<longrightarrow> in_order (length v) (g + ?d - ?s) (?o + ?d) ms \<and> ds = datasz + ?d + data_len ms \<and>
          de = length v + growth (g + ?d - ?s) ms)"
        by (rule Cons.IH) (use f False Cons.prems in auto)
      then show ?thesis unfolding loop using f False by (auto simp: growth_def)
    qed
  qed
qed

lemma memcpy_replace:
  "mod_offset m + mod_size m \<le> length v \<Longrightarrow> length (mod_data m) = mod_size m \<Longrightarrow> memcpy v (mod_offset m) (mod_data m) = Inr (replace_bytes pad v m)"
  by (simp add: memcpy_def replace_bytes_def)

lemma fast_loop_correct:
  assumes "list_all mod_ok ms" "length v + datasz + data_len ms < size_lim"
  shows "\<exists>j r. modify_fast_loop v k True None datasz destoff cur ms = Inr (foldl (replace_bytes pad) v (take j ms), k + j, r) \<and> j \<le> length ms \<and>
    length (foldl (replace_bytes pad) v (take j ms)) = length v \<and>
    (j < length ms \<longrightarrow> (\<forall>ds de. r = Some (ds, de) \<longrightarrow>
       in_order (length v) 0 0 (drop j ms) \<and> ds = datasz + data_len ms \<and> de = length v + growth 0 (drop j ms)))"
  using assms
proof (induction ms arbitrary: v k datasz destoff cur)
  case (Cons m ms)
  let ?o = "mod_offset m" and ?s = "mod_size m" and ?d = "length (mod_data m)"
  have p: "sz_add ?o ?s = ?o + ?s" "sz_add datasz ?d = datasz + ?d" "sz_add ?o ?d = ?o + ?d" using Cons.prems by (auto simp: mod_ok_def sz_add_eq)
  show ?case
  proof (cases "?d = ?s \<and> ?o + ?s \<le> length v")
    case True
    let ?w = "replace_bytes pad v m"
    have w: "length ?w = length v" using True by (simp add: replace_bytes_def)
    obtain j r where "modify_fast_loop ?w (k + 1) True None (datasz + ?d) destoff m ms = Inr (foldl (replace_bytes pad) ?w (take j ms), k + 1 + j, r)"
      "j \<le> length ms" "length (foldl (replace_bytes pad) ?w (take j ms)) = length v"
      "j < length ms \<longrightarrow> (\<forall>ds de. r = Some (ds, de) \<longrightarrow>
         in_order (length v) 0 0 (drop j ms) \<and> ds = datasz + ?d + data_len ms \<and> de = length v + growth 0 (drop j ms))"
      using Cons.IH [of ?w "datasz + ?d" "k + 1" destoff m] Cons.prems w by auto
    then show ?thesis using True p by (intro exI [of _ "Suc j"] exI [of _ r]) (auto simp: memcpy_replace [of m v pad] Let_def)
  next
    case False
    have loop: "modify_fast_loop v k True None datasz destoff cur (m # ms) =
      (if length v < ?o + ?s \<or> ?s \<noteq> ?d \<and> ?s > 0 then Inr (v, k, None) else modify_fast_loop v k False (Some m) (datasz + ?d) (?o + ?d) m ms)"
      using False p by (auto simp: Let_def)
    show ?thesis
    proof (cases "length v < ?o + ?s \<or> ?s \<noteq> ?d \<and> ?s > 0")
      case True
      then show ?thesis unfolding loop by (intro exI [of _ 0] exI [of _ None]) simp
    next
      case f: False
      have "\<exists>r. modify_fast_loop v k False (Some m) (datasz + ?d) (?o + ?d) m ms = Inr (v, k, r) \<and>
        (\<forall>ds de. r = Some (ds, de) \<longrightarrow> in_order (length v) (0 + ?d - ?s) (?o + ?d) ms \<and> ds = datasz + ?d + data_len ms \<and>
          de = length v + growth (0 + ?d - ?s) ms)"
        by (rule fast_loop_sorted) (use f Cons.prems in auto)
      then show ?thesis unfolding loop using f by (intro exI [of _ 0]) (auto simp: growth_def)
    qed
  qed
qed simp

text \<open>Entries and a value of sizes that fit a \<^verbatim>\<open>size_t\<close> and a number of entries that fits an \<^verbatim>\<open>int\<close>.\<close>

definition modifies_ok :: "bytes \<Rightarrow> wt_modify list \<Rightarrow> bool" where
  "modifies_ok v ms \<longleftrightarrow> list_all mod_ok ms \<and> length ms < 0x80000000 \<and> length v + data_len ms < size_lim"

lemma growth_le: "growth g ms \<le> g + data_len ms"
proof (induction ms arbitrary: g)
  case (Cons m ms)
  have "growth (g + length (mod_data m) - mod_size m) ms \<le> g + length (mod_data m) - mod_size m + data_len ms" by (rule Cons.IH)
  then show ?case by (simp add: growth_def)
qed (simp add: growth_def)

lemma no_overlap_whole:
  assumes "in_order (length v) 0 0 (drop j ms)" "list_all mod_ok ms" "j \<le> length ms" "length v + data_len ms < size_lim"
  shows "modify_apply_no_overlap mem v (wt_modify_pack ms) (int (length ms)) j (data_len ms) (length v + growth 0 (drop j ms)) =
    Inr (foldl (replace_bytes pad) v (drop j ms))"
proof -
  let ?ns = "drop j ms" and ?g = "growth 0 (drop j ms)"
  let ?b = "v @ map mem [0..<length v + ?g - length v]"
  have "data_len (drop j ms) \<le> data_len ms"
    using length_append [of "concat (map mod_data (take j ms))" "concat (map mod_data ?ns)"] by (metis append_take_drop_id concat_append le_add2 map_append)
  then have g: "length v + ?g < size_lim" using growth_le [of 0 ?ns] assms(4) by simp
  have le: "last_end 0 ?ns \<le> length v + ?g"
  proof (cases ?ns rule: rev_cases)
    case (snoc ns m)
    then have "mod_offset m + mod_size m \<le> length v" "mod_size m = length (mod_data m) \<or> mod_size m \<le> growth 0 ns"
      using assms(1) by (auto simp: in_order_snoc)
    then show ?thesis by (auto simp: snoc last_end_snoc growth_snoc)
  qed (simp add: last_end_def)
  have "\<exists>b'. no_overlap_loop ?b (length v) (length v + ?g) (rev ?ns) = Inr b' \<and> length b' = length ?b \<and>
    take (length v + ?g) b' = take (length v + ?g) (foldl (replace_bytes pad) v ?ns) \<and> drop (length v + ?g) b' = drop (length v + ?g) ?b"
    by (rule no_overlap_correct) (use assms le g in auto)
  moreover have "length (foldl (replace_bytes pad) v ?ns) = length v + ?g" using in_order_tail [OF assms(1)] by simp
  ultimately show ?thesis using pack_foreach_reverse [OF assms(2,3)] by (auto simp: modify_apply_no_overlap_def)
qed

lemma apply_item_correct:
  assumes "modifies_ok v ms" "sformat \<longrightarrow> v \<noteq> []"
  shows "wt_modify_apply_item mem sformat v (wt_modify_pack ms) =
    Inr (if sformat then foldl (replace_bytes 32) (butlast v) ms @ [0] else foldl (replace_bytes 0) v ms)"
proof -
  define u where "u = (if sformat then butlast v else v)"
  define pad :: u8 where "pad = (if sformat then 32 else 0)"
  have ok: "list_all mod_ok ms" "length ms < 0x80000000" "length u + 0 + data_len ms < size_lim" using assms(1) by (auto simp: modifies_ok_def u_def)
  obtain j r where f: "modify_fast_path u ms = Inr (foldl (replace_bytes pad) u (take j ms), j, r)" "j \<le> length ms"
      "length (foldl (replace_bytes pad) u (take j ms)) = length u"
      "j < length ms \<longrightarrow> (\<forall>ds de. r = Some (ds, de) \<longrightarrow>
         in_order (length u) 0 0 (drop j ms) \<and> ds = data_len ms \<and> de = length u + growth 0 (drop j ms))"
    using fast_loop_correct [OF ok(1,3), of 0 0 "\<lparr>mod_data = [], mod_offset = 0, mod_size = 0\<rparr>" pad]
    unfolding modify_fast_path_def add_0 by blast
  let ?w = "foldl (replace_bytes pad) u (take j ms)"
  have fin: "foldl (replace_bytes pad) ?w (drop j ms) = foldl (replace_bytes pad) u ms" by (metis append_take_drop_id foldl_append)
  have "(if int j = int (length ms) then Inr ?w
         else case r of Some (ds, de) \<Rightarrow> modify_apply_no_overlap mem ?w (wt_modify_pack ms) (int (length ms)) j ds de
              | None \<Rightarrow> apply_each sformat ?w (drop j ms)) = Inr (foldl (replace_bytes pad) u ms)"
  proof (cases "j = length ms")
    case False
    then have lt: "j < length ms" using f(2) by simp
    have "apply_each sformat ?w (drop j ms) = Inr (foldl (replace_bytes pad) ?w (drop j ms))"
      using ok(1) unfolding pad_def by (intro apply_each_correct) (auto simp: list_all_iff dest: in_set_dropD)
    moreover have "modify_apply_no_overlap mem ?w (wt_modify_pack ms) (int (length ms)) j ds de = Inr (foldl (replace_bytes pad) ?w (drop j ms))"
      if "r = Some (ds, de)" for ds de
      using that f lt ok no_overlap_whole [of ?w j ms mem pad] by auto
    ultimately show ?thesis unfolding fin using False by (auto split: option.split)
  qed simp
  then have "wt_modify_apply_item mem sformat v (wt_modify_pack ms) =
    Inr (if sformat then foldl (replace_bytes pad) u ms @ [0] else foldl (replace_bytes pad) u ms)"
    using assms(2) pack_read_entries [OF ok(2)] pack_foreach [OF ok(1)] f(1) unfolding wt_modify_apply_item_def u_def [symmetric] by simp
  then show ?thesis by (simp add: u_def pad_def)
qed

subsection \<open>Entries that do not move bytes\<close>

fun last_written :: "wt_modify list \<Rightarrow> nat \<Rightarrow> u8 option" where
  "last_written [] p = None"
| "last_written (m # ms) p =
     (case last_written ms p of
        Some x \<Rightarrow> Some x
      | None \<Rightarrow> if mod_offset m \<le> p \<and> p < mod_offset m + length (mod_data m) then Some (mod_data m ! (p - mod_offset m)) else None)"

abbreviation same_size :: "wt_modify \<Rightarrow> bool" where
  "same_size m \<equiv> mod_size m = length (mod_data m)"

lemma last_written_None:
  "last_written ms p = None \<longleftrightarrow> (\<forall>m \<in> set ms. \<not> (mod_offset m \<le> p \<and> p < mod_offset m + length (mod_data m)))"
  by (induction ms) (auto split: option.split)

lemma replace_same_size:
  assumes "same_size m"
  shows "length (replace_bytes pad v m) = max (length v) (mod_offset m + length (mod_data m))"
    "mod_offset m \<le> p \<Longrightarrow> p < mod_offset m + length (mod_data m) \<Longrightarrow> replace_bytes pad v m ! p = mod_data m ! (p - mod_offset m)"
    "\<not> (mod_offset m \<le> p \<and> p < mod_offset m + length (mod_data m)) \<Longrightarrow> p < length v \<Longrightarrow> replace_bytes pad v m ! p = v ! p"
proof -
  define hd' where "hd' = take (mod_offset m) v @ replicate (mod_offset m - length v) pad"
  have l: "length hd' = mod_offset m" by (simp add: hd'_def)
  have r: "replace_bytes pad v m = hd' @ mod_data m @ drop (mod_offset m + length (mod_data m)) v"
    using assms by (simp add: replace_bytes_def hd'_def)
  show "length (replace_bytes pad v m) = max (length v) (mod_offset m + length (mod_data m))" unfolding r using l by simp
  show "replace_bytes pad v m ! p = mod_data m ! (p - mod_offset m)" if "mod_offset m \<le> p" "p < mod_offset m + length (mod_data m)"
    unfolding r using that l by (simp add: nth_append less_diff_conv2)
  show "replace_bytes pad v m ! p = v ! p" if "\<not> (mod_offset m \<le> p \<and> p < mod_offset m + length (mod_data m))" "p < length v"
    unfolding r using that l by (auto simp: nth_append hd'_def)
qed

lemma foldl_same_size:
  "list_all same_size ms \<Longrightarrow>
   length v \<le> length (foldl (replace_bytes pad) v ms) \<and>
   (\<forall>m \<in> set ms. mod_offset m + length (mod_data m) \<le> length (foldl (replace_bytes pad) v ms)) \<and>
   (\<forall>p x. last_written ms p = Some x \<longrightarrow> foldl (replace_bytes pad) v ms ! p = x) \<and>
   (\<forall>p < length v. last_written ms p = None \<longrightarrow> foldl (replace_bytes pad) v ms ! p = v ! p)"
proof (induction ms arbitrary: v)
  case (Cons m ms)
  have m: "same_size m" using Cons.prems by simp
  note IH = Cons.IH [of "replace_bytes pad v m"]
  have "foldl (replace_bytes pad) (replace_bytes pad v m) ms ! p = x"
    if "last_written ms p = None" "mod_offset m \<le> p" "p < mod_offset m + length (mod_data m)" "x = mod_data m ! (p - mod_offset m)" for p x
    using IH that Cons.prems replace_same_size [OF m] by auto
  moreover have "foldl (replace_bytes pad) (replace_bytes pad v m) ms ! p = v ! p"
    if "last_written ms p = None" "\<not> (mod_offset m \<le> p \<and> p < mod_offset m + length (mod_data m))" "p < length v" for p
    using IH that Cons.prems replace_same_size [OF m] by auto
  ultimately show ?case
    using IH Cons.prems replace_same_size(1) [OF m, of pad v] by (auto split: option.splits if_splits)
qed simp

lemma foldl_same_size_length:
  "list_all same_size ms \<Longrightarrow> (\<forall>m \<in> set ms. mod_offset m + length (mod_data m) \<le> length v) \<Longrightarrow>
   length (foldl (replace_bytes pad) v ms) = length v"
proof (induction ms arbitrary: v)
  case (Cons m ms)
  then have "length (replace_bytes pad v m) = length v" using replace_same_size(1) [of m pad v] by simp
  then show ?case using Cons.IH [of "replace_bytes pad v m"] Cons.prems by simp
qed simp

lemma foldl_same_size_twice:
  assumes "list_all same_size ms"
  shows "foldl (replace_bytes pad) (foldl (replace_bytes pad) v ms) ms = foldl (replace_bytes pad) v ms"
proof (rule nth_equalityI)
  let ?w = "foldl (replace_bytes pad) v ms"
  note w = foldl_same_size [OF assms, of v pad] and ww = foldl_same_size [OF assms, of ?w pad]
  show l: "length (foldl (replace_bytes pad) ?w ms) = length ?w" using w by (intro foldl_same_size_length [OF assms]) simp
  show "foldl (replace_bytes pad) ?w ms ! p = ?w ! p" if "p < length (foldl (replace_bytes pad) ?w ms)" for p
    using w ww that l by (cases "last_written ms p") auto
qed

subsection \<open>Properties\<close>

text \<open>
  C5: Modify operations. However a list of entries is applied, in place, in one pass from the end or entry by entry, the result is the value
  with each entry's bytes replaced in turn; a string keeps its terminating NUL and is padded with blanks. The contents of the
  memory the buffer grows into do not matter.
\<close>

theorem modify_apply_correct:
  assumes "modifies_ok v ms" "sformat \<longrightarrow> v \<noteq> []"
  shows "wt_modify_apply_api mem sformat v ms =
    Inr (if sformat then foldl (replace_bytes 32) (butlast v) ms @ [0] else foldl (replace_bytes 0) v ms)"
  unfolding wt_modify_apply_api_def by (rule apply_item_correct [OF assms])

definition example_modifies :: "wt_modify list" where
  "example_modifies =
     [\<lparr>mod_data = [9], mod_offset = 0, mod_size = 1\<rparr>, \<lparr>mod_data = [7, 7], mod_offset = 1, mod_size = 0\<rparr>,
      \<lparr>mod_data = [8], mod_offset = 4, mod_size = 1\<rparr>]"

theorem modify_apply_correct_witness:
  "wt_modify_apply_api (\<lambda>_. 1) False [1, 2, 3, 4, 5] example_modifies = Inr [9, 7, 7, 2, 8, 4, 5]"
proof -
  have "modifies_ok [1, 2, 3, 4, 5] example_modifies"
    by (simp add: modifies_ok_def example_modifies_def mod_ok_def size_lim_def)
  then show ?thesis using modify_apply_correct [of "[1, 2, 3, 4, 5]" example_modifies False "\<lambda>_. 1"]
    by (simp add: example_modifies_def replace_bytes_def)
qed

text \<open>
  C37: Idempotent modify operations. An operation that is reported as idempotent can be applied again to its own result without changing it.
\<close>

theorem modify_idempotent_correct:
  assumes "modifies_ok v ms" "sformat \<longrightarrow> v \<noteq> []" "wt_modify_idempotent (wt_modify_pack ms) = Inr True"
    "wt_modify_apply_api mem sformat v ms = Inr w" "modifies_ok w ms"
  shows "wt_modify_apply_api mem' sformat w ms = Inr w"
proof -
  have "list_all mod_ok ms" "length ms < 0x80000000" using assms(1) by (auto simp: modifies_ok_def)
  then have same: "list_all same_size ms" using assms(3) by (simp add: wt_modify_idempotent_def pack_read_entries pack_foreach)
  have w: "w = (if sformat then foldl (replace_bytes 32) (butlast v) ms @ [0] else foldl (replace_bytes 0) v ms)"
    using assms(4) apply_item_correct [OF assms(1,2)] by (simp add: wt_modify_apply_api_def)
  then have "sformat \<longrightarrow> w \<noteq> []" by simp
  from apply_item_correct [OF assms(5) this] show ?thesis
    by (simp add: wt_modify_apply_api_def w foldl_same_size_twice [OF same])
qed

theorem modify_idempotent_correct_witness:
  "wt_modify_apply_api (\<lambda>_. 0) False [9, 2, 8, 8] [\<lparr>mod_data = [9], mod_offset = 0, mod_size = 1\<rparr>, \<lparr>mod_data = [8, 8], mod_offset = 2, mod_size = 2\<rparr>] =
   Inr [9, 2, 8, 8]"
proof -
  let ?ms = "[\<lparr>mod_data = [9], mod_offset = 0, mod_size = 1\<rparr>, \<lparr>mod_data = [8, 8], mod_offset = 2, mod_size = 2\<rparr>]"
  have ok: "modifies_ok [1, 2, 3] ?ms" "modifies_ok [9, 2, 8, 8] ?ms" by (simp_all add: modifies_ok_def mod_ok_def size_lim_def)
  have "wt_modify_idempotent (wt_modify_pack ?ms) = Inr True" by code_simp
  moreover have "wt_modify_apply_api (\<lambda>_. 0) False [1, 2, 3] ?ms = Inr [9, 2, 8, 8]"
    using apply_item_correct [OF ok(1), of False "\<lambda>_. 0"] by (simp add: wt_modify_apply_api_def replace_bytes_def)
  ultimately show ?thesis using modify_idempotent_correct [OF ok(1) _ _ _ ok(2)] by blast
qed



end
