(* ===== verification/Txn_Visible.thy ===== *)
theory Txn_Visible
  imports Txn_Sort Modify Time_Window
begin

text \<open>
  Visibility of updates and reading through an update chain: the inline functions of \<^verbatim>\<open>src/src/include/txn_inline.h\<close> and the reconstruction of
  partial updates of \<^verbatim>\<open>src/src/support/modify.c\<close>. The state a function sees does not change while it runs; the one exception the code handles, a
  prepared update that is resolved in the meantime, is the argument \<open>recheck\<close> of the read. Waiting for an update whose prepare
  state is locked is \<open>None\<close>. The on-disk value of the key and the search of the history store are parameters.
\<close>

subsection \<open>Data\<close>

datatype wt_isolation = WT_ISO_READ_COMMITTED | WT_ISO_READ_UNCOMMITTED | WT_ISO_SNAPSHOT

datatype wt_update_type = WT_UPDATE_INVALID | WT_UPDATE_MODIFY | WT_UPDATE_RESERVE | WT_UPDATE_STANDARD | WT_UPDATE_TOMBSTONE

datatype wt_prepare_state = WT_PREPARE_INIT | WT_PREPARE_INPROGRESS | WT_PREPARE_LOCKED | WT_PREPARE_RESOLVED

datatype wt_visible_type = WT_VISIBLE_FALSE | WT_VISIBLE_PREPARE | WT_VISIBLE_TRUE

record wt_update = upd_time +
  upd_type :: wt_update_type
  upd_prepare_state :: wt_prepare_state
  upd_prepare_restored_from_ds :: bool
  upd_restored_from_hs :: bool
  upd_data :: bytes

record wt_update_value =
  uv_buf :: bytes
  uv_tw :: wt_time_window
  uv_type :: wt_update_type
  uv_skip_buf :: bool

record wt_txn =
  txn_id :: u64
  txn_isolation :: wt_isolation
  txn_snap_min :: u64
  txn_snap_max :: u64
  txn_snapshot :: "u64 list"
  txn_has_id :: bool
  txn_ignore_prepare :: bool
  txn_shared_ts_read :: bool

record wt_txn_global =
  g_oldest_id :: u64
  g_metadata_pinned :: u64
  g_checkpoint_pinned_id :: u64
  g_has_pinned_timestamp :: bool
  g_pinned_timestamp :: u64
  g_checkpoint_timestamp :: u64
  g_debug_ops :: u64
  g_debug_rollback :: u64

text \<open>What the functions use of a session: its transaction, the shared state and the properties of its data handle and connection.\<close>

record wt_session =
  s_txn :: wt_txn
  s_read_timestamp :: u64
  s_global :: wt_txn_global
  s_metadata :: bool
  s_hs :: bool
  s_hs_open :: bool
  s_closing :: bool


subsection \<open>Visible to all\<close>

definition wt_txn_oldest_id :: "wt_session \<Rightarrow> u64" where
  "wt_txn_oldest_id s =
     (if s_metadata s then g_metadata_pinned (s_global s)
      else
        let oldest_id = g_oldest_id (s_global s); checkpoint_pinned = g_checkpoint_pinned_id (s_global s) in
        if checkpoint_pinned = WT_TXN_NONE \<or> oldest_id < checkpoint_pinned then oldest_id else checkpoint_pinned)"

definition wt_txn_pinned_timestamp :: "wt_session \<Rightarrow> u64" where
  "wt_txn_pinned_timestamp s =
     (if \<not> g_has_pinned_timestamp (s_global s) then WT_TS_NONE
      else
        let pinned_ts = g_pinned_timestamp (s_global s); checkpoint_ts = g_checkpoint_timestamp (s_global s) in
        if checkpoint_ts \<noteq> 0 \<and> checkpoint_ts < pinned_ts then checkpoint_ts else pinned_ts)"

definition txn_visible_all_id :: "wt_session \<Rightarrow> u64 \<Rightarrow> bool" where
  "txn_visible_all_id s i \<longleftrightarrow> i < wt_txn_oldest_id s"

definition wt_txn_visible_all :: "wt_session \<Rightarrow> u64 \<Rightarrow> u64 \<Rightarrow> bool" where
  "wt_txn_visible_all s i timestamp =
     (if s_closing s then True
      else if \<not> txn_visible_all_id s i then False
      else if timestamp = WT_TS_NONE then True
      else wt_txn_pinned_timestamp s \<noteq> WT_TS_NONE \<and> timestamp \<le> wt_txn_pinned_timestamp s)"

definition wt_txn_upd_visible_all :: "wt_session \<Rightarrow> wt_update \<Rightarrow> bool" where
  "wt_txn_upd_visible_all s upd =
     (if upd_prepare_state upd = WT_PREPARE_LOCKED \<or> upd_prepare_state upd = WT_PREPARE_INPROGRESS then False
      else wt_txn_visible_all s (upd_txnid upd) (upd_durable_ts upd))"

definition wt_txn_upd_value_visible_all :: "wt_session \<Rightarrow> wt_update_value \<Rightarrow> bool" where
  "wt_txn_upd_value_visible_all s uv =
     (if uv_type uv = WT_UPDATE_TOMBSTONE then wt_txn_visible_all s (stop_txn (uv_tw uv)) (durable_stop_ts (uv_tw uv))
      else wt_txn_visible_all s (start_txn (uv_tw uv)) (durable_start_ts (uv_tw uv)))"

subsection \<open>Visible to the transaction\<close>

definition wt_txn_visible_id_snapshot :: "'a :: linorder \<Rightarrow> 'a \<Rightarrow> 'a \<Rightarrow> 'a list \<Rightarrow> bool" where
  "wt_txn_visible_id_snapshot i snap_min snap_max snapshot =
     (if snap_max \<le> i then False
      else if length snapshot = 0 \<or> i < snap_min then True
      else WT_BINARY_SEARCH i snapshot 0 (length snapshot) \<noteq> Inr True)"

text \<open>The ids a scan has collected become the snapshot: its minimum, its maximum and the sorted ids.\<close>

definition txn_sort_snapshot :: "'a :: linorder list \<Rightarrow> 'a \<Rightarrow> ('a \<times> 'a \<times> 'a list) option" where
  "txn_sort_snapshot snapshot snap_max =
     map_option
       (\<lambda>snapshot. (if length snapshot > 0 \<and> snapshot ! 0 \<le> snap_max then snapshot ! 0 else snap_max, snap_max, snapshot))
       (if length snapshot > 1 then snapsort snapshot else Some snapshot)"

definition txn_visible_id :: "wt_session \<Rightarrow> u64 \<Rightarrow> bool" where
  "txn_visible_id s i =
     (let txn = s_txn s in
      if i = WT_TXN_NONE then True
      else if i = WT_TXN_ABORTED then False
      else if i = txn_id txn then True
      else if txn_isolation txn = WT_ISO_READ_UNCOMMITTED then True
      else wt_txn_visible_id_snapshot i (txn_snap_min txn) (txn_snap_max txn) (txn_snapshot txn))"

definition wt_txn_visible :: "wt_session \<Rightarrow> u64 \<Rightarrow> u64 \<Rightarrow> bool" where
  "wt_txn_visible s i timestamp =
     (let txn = s_txn s in
      if \<not> txn_visible_id s i then False
      else if txn_has_id txn \<and> i = txn_id txn then True
      else if \<not> txn_shared_ts_read txn \<or> timestamp = WT_TS_NONE then True
      else timestamp \<le> s_read_timestamp s)"

definition wt_txn_tw_stop_visible :: "wt_session \<Rightarrow> wt_time_window \<Rightarrow> bool" where
  "wt_txn_tw_stop_visible s tw \<longleftrightarrow>
     WT_TIME_WINDOW_HAS_STOP tw \<and> tw_prepare tw = 0 \<and> wt_txn_visible s (stop_txn tw) (stop_ts tw)"

definition wt_txn_tw_start_visible :: "wt_session \<Rightarrow> wt_time_window \<Rightarrow> bool" where
  "wt_txn_tw_start_visible s tw \<longleftrightarrow>
     (WT_TIME_WINDOW_HAS_STOP tw \<and>
        (start_txn tw \<noteq> stop_txn tw \<or> start_ts tw \<noteq> stop_ts tw \<or> durable_start_ts tw \<noteq> durable_stop_ts tw) \<or> tw_prepare tw = 0) \<and>
     wt_txn_visible s (start_txn tw) (start_ts tw)"

definition wt_txn_tw_start_visible_all :: "wt_session \<Rightarrow> wt_time_window \<Rightarrow> bool" where
  "wt_txn_tw_start_visible_all s tw \<longleftrightarrow>
     (WT_TIME_WINDOW_HAS_STOP tw \<and>
        (start_txn tw \<noteq> stop_txn tw \<or> start_ts tw \<noteq> stop_ts tw \<or> durable_start_ts tw \<noteq> durable_stop_ts tw) \<or> tw_prepare tw = 0) \<and>
     wt_txn_visible_all s (start_txn tw) (durable_start_ts tw)"

definition wt_txn_tw_stop_visible_all :: "wt_session \<Rightarrow> wt_time_window \<Rightarrow> bool" where
  "wt_txn_tw_stop_visible_all s tw \<longleftrightarrow>
     WT_TIME_WINDOW_HAS_STOP tw \<and> tw_prepare tw = 0 \<and> wt_txn_visible_all s (stop_txn tw) (durable_stop_ts tw)"

definition wt_txn_upd_visible_type :: "wt_session \<Rightarrow> wt_update \<Rightarrow> wt_visible_type option" where
  "wt_txn_upd_visible_type s upd =
     (if upd_prepare_state upd = WT_PREPARE_LOCKED then None
      else if s_hs s \<and> upd_txnid upd \<noteq> WT_TXN_ABORTED \<and> upd_type upd = WT_UPDATE_STANDARD then Some WT_VISIBLE_TRUE
      else if \<not> wt_txn_visible s (upd_txnid upd) (upd_start_ts upd) then Some WT_VISIBLE_FALSE
      else if upd_prepare_state upd = WT_PREPARE_INPROGRESS then Some WT_VISIBLE_PREPARE
      else Some WT_VISIBLE_TRUE)"

definition wt_txn_upd_visible :: "wt_session \<Rightarrow> wt_update \<Rightarrow> bool option" where
  "wt_txn_upd_visible s upd = map_option (\<lambda>v. v = WT_VISIBLE_TRUE) (wt_txn_upd_visible_type s upd)"

subsection \<open>Update values\<close>










subsection \<open>Reading\<close>






subsection \<open>Write conflicts\<close>

text \<open>The loop of \<^verbatim>\<open>__wt_txn_modify_check\<close>: whether it ends with a conflict, and the chain where it ends.\<close>

fun modify_check_loop :: "wt_session \<Rightarrow> wt_update list \<Rightarrow> (bool \<times> wt_update list) option" where
  "modify_check_loop s [] = Some (False, [])"
| "modify_check_loop s (upd # us) =
     (case wt_txn_upd_visible s upd of
        None \<Rightarrow> None
      | Some True \<Rightarrow> Some (False, upd # us)
      | Some False \<Rightarrow> if upd_txnid upd \<noteq> WT_TXN_ABORTED then Some (True, upd # us) else modify_check_loop s us)"

text \<open>The conflict with the on-page value, whose window is \<open>tw\<close> if there is one.\<close>

definition modify_check_ondisk :: "wt_session \<Rightarrow> wt_time_window option \<Rightarrow> bool" where
  "modify_check_ondisk s tw =
     (case tw of
        None \<Rightarrow> False
      | Some w \<Rightarrow> if WT_TIME_WINDOW_HAS_STOP w then \<not> wt_txn_tw_stop_visible s w else \<not> wt_txn_tw_start_visible s w)"

text \<open>The result has the durable timestamp of what is overwritten.\<close>

definition wt_txn_modify_check :: "wt_session \<Rightarrow> wt_time_window option \<Rightarrow> wt_update list \<Rightarrow> (u64 option result \<times> wt_session) option" where
  "wt_txn_modify_check s tw chain =
     (if txn_isolation (s_txn s) \<noteq> WT_ISO_SNAPSHOT \<or> s_metadata s then Some (Inr None, s)
      else
        let g = s_global s; ops = g_debug_ops g + 1;
            s = (if g_debug_rollback g \<noteq> 0 then s\<lparr>s_global := g\<lparr>g_debug_ops := ops\<rparr>\<rparr> else s) in
        if g_debug_rollback g \<noteq> 0 \<and> ops mod g_debug_rollback g = 0 then Some (Inl WT_ROLLBACK, s)
        else
          map_option
            (\<lambda>(conflict, us).
               let rollback = conflict \<or> us = [] \<and> modify_check_ondisk s tw in
               if rollback then (Inl WT_ROLLBACK, s)
               else (Inr (case us of
                            upd # _ \<Rightarrow> Some (upd_durable_ts upd)
                          | [] \<Rightarrow> map_option (\<lambda>w. if WT_TIME_WINDOW_HAS_STOP w then durable_stop_ts w else durable_start_ts w) tw), s))
            (modify_check_loop (s\<lparr>s_txn := (s_txn s)\<lparr>txn_ignore_prepare := False\<rparr>\<rparr>) chain))"

subsection \<open>Lemmas\<close>

lemma sort_snapshot_total: "(if length ids > 1 then snapsort ids else Some ids) = Some (sort ids)"
proof (cases "length ids > 1")
  case True
  then show ?thesis using snapsort_sort [of ids] by fastforce
next
  case False
  then show ?thesis by (cases ids) (auto simp: Suc_lessI)
qed

lemma visible_sorted:
  assumes "sorted snap"
  shows "wt_txn_visible_id_snapshot i snap_min snap_max snap \<longleftrightarrow> i < snap_max \<and> (i < snap_min \<or> i \<notin> set snap)"
  using binary_search_sorted [OF assms, of i] by (auto simp: wt_txn_visible_id_snapshot_def)

lemma hd_sort_le: "i \<in> set ids \<Longrightarrow> sort ids ! 0 \<le> i"
  by (metis bot_nat_0.extremum in_set_conv_nth set_sort sorted_nth_mono sorted_sort)

lemma sort_Nil: "sort ids = [] \<longleftrightarrow> ids = []"
  by (metis length_0_conv length_sort)

lemma sort_snapshot:
  "txn_sort_snapshot ids snap_max =
    Some (if ids \<noteq> [] \<and> sort ids ! 0 \<le> snap_max then sort ids ! 0 else snap_max, snap_max, sort ids)"
  unfolding txn_sort_snapshot_def sort_snapshot_total by (auto simp: sort_Nil)

lemma visible_snapshot:
  assumes "txn_sort_snapshot ids m = Some (snap_min, snap_max, snapshot)"
  shows "wt_txn_visible_id_snapshot i snap_min snap_max snapshot \<longleftrightarrow> i < m \<and> i \<notin> set ids"
proof -
  have s: "snap_max = m" "snapshot = sort ids" "snap_min = (if ids \<noteq> [] \<and> sort ids ! 0 \<le> m then sort ids ! 0 else m)"
    using assms by (auto simp: sort_snapshot)
  have "wt_txn_visible_id_snapshot i snap_min snap_max snapshot \<longleftrightarrow> i < m \<and> (i < snap_min \<or> i \<notin> set ids)"
    using visible_sorted [of "sort ids"] by (simp add: s)
  moreover have "i \<notin> set ids" if "i < snap_min" "i < m"
  proof
    assume "i \<in> set ids"
    then have "sort ids ! 0 \<le> i" "ids \<noteq> []" by (auto simp: hd_sort_le)
    then show False using that by (auto simp: s split: if_splits)
  qed
  ultimately show ?thesis by blast
qed

lemma aborted_not_visible [simp]: "\<not> wt_txn_visible s WT_TXN_ABORTED ts"
  by (simp add: wt_txn_visible_def txn_visible_id_def Let_def WT_TXN_ABORTED_def WT_TXN_NONE_def)

subsection \<open>What a chain stands for\<close>











lemma visible_frame [simp]:
  "wt_txn_visible (s\<lparr>s_txn := (s_txn s)\<lparr>txn_ignore_prepare := b\<rparr>\<rparr>) i ts = wt_txn_visible s i ts"
  "wt_txn_visible (s\<lparr>s_global := g\<rparr>) i ts = wt_txn_visible s i ts"
  "wt_txn_visible (s\<lparr>s_global := g, s_txn := (s_txn s)\<lparr>txn_ignore_prepare := b\<rparr>\<rparr>) i ts = wt_txn_visible s i ts"
  by (simp_all add: wt_txn_visible_def txn_visible_id_def Let_def)

lemma upd_visible_type_frame [simp]:
  "wt_txn_upd_visible_type (s\<lparr>s_txn := (s_txn s)\<lparr>txn_ignore_prepare := b\<rparr>\<rparr>) u = wt_txn_upd_visible_type s u"
  "wt_txn_upd_visible_type (s\<lparr>s_global := g\<rparr>) u = wt_txn_upd_visible_type s u"
  "wt_txn_upd_visible_type (s\<lparr>s_global := g, s_txn := (s_txn s)\<lparr>txn_ignore_prepare := b\<rparr>\<rparr>) u = wt_txn_upd_visible_type s u"
  by (simp_all add: wt_txn_upd_visible_type_def)

lemma check_loop_frame [simp]:
  "modify_check_loop (s\<lparr>s_txn := (s_txn s)\<lparr>txn_ignore_prepare := b\<rparr>\<rparr>) us = modify_check_loop s us"
  "modify_check_loop (s\<lparr>s_global := g\<rparr>) us = modify_check_loop s us"
  "modify_check_loop (s\<lparr>s_global := g, s_txn := (s_txn s)\<lparr>txn_ignore_prepare := b\<rparr>\<rparr>) us = modify_check_loop s us"
  by (induction us) (simp_all add: wt_txn_upd_visible_def split: option.split)

lemma check_loop_newest:
  "modify_check_loop s chain = Some (False, us) \<Longrightarrow>
   us = dropWhile (\<lambda>u. upd_txnid u = WT_TXN_ABORTED) chain \<and> (us \<noteq> [] \<longrightarrow> wt_txn_upd_visible_type s (hd us) = Some WT_VISIBLE_TRUE)"
proof (induction chain)
  case (Cons u chain)
  have "upd_txnid u = WT_TXN_ABORTED \<Longrightarrow> wt_txn_upd_visible_type s u \<noteq> Some WT_VISIBLE_TRUE" by (simp add: wt_txn_upd_visible_type_def)
  then show ?case using Cons by (auto simp: wt_txn_upd_visible_def split: option.splits bool.splits if_splits)
qed simp

subsection \<open>Properties\<close>

text \<open>An example: transaction 9 with a snapshot taken while 5 was running, and updates by 5, 3 and 2.\<close>

definition example_txn :: wt_txn where
  "example_txn =
     \<lparr>txn_id = 9, txn_isolation = WT_ISO_SNAPSHOT, txn_snap_min = 5, txn_snap_max = 9, txn_snapshot = [5], txn_has_id = True,
      txn_ignore_prepare = False, txn_shared_ts_read = True\<rparr>"

definition example_global :: wt_txn_global where
  "example_global =
     \<lparr>g_oldest_id = 4, g_metadata_pinned = 4, g_checkpoint_pinned_id = WT_TXN_NONE, g_has_pinned_timestamp = True, g_pinned_timestamp = 40,
      g_checkpoint_timestamp = 0, g_debug_ops = 0, g_debug_rollback = 0\<rparr>"

definition example_session :: wt_session where
  "example_session =
     \<lparr>s_txn = example_txn, s_read_timestamp = 50, s_global = example_global, s_metadata = False, s_hs = False, s_hs_open = True, s_closing = False\<rparr>"

definition example_upd :: "u64 \<Rightarrow> wt_update_type \<Rightarrow> bytes \<Rightarrow> wt_update" where
  "example_upd i type d =
     \<lparr>upd_txnid = i, upd_start_ts = 10 * i, upd_durable_ts = 10 * i, upd_type = type, upd_prepare_state = WT_PREPARE_INIT,
      upd_prepare_restored_from_ds = False, upd_restored_from_hs = False, upd_data = d\<rparr>"





text \<open>
  C36: Snapshots. The ids collected for a snapshot are sorted within their array in every case, and from then on the visibility test
  with its binary search accepts exactly the ids below the maximum that were not collected.
\<close>

theorem snapshot_visibility:
  "\<exists>snap_min snap_max snapshot. txn_sort_snapshot ids m = Some (snap_min, snap_max, snapshot) \<and>
    (wt_txn_visible_id_snapshot i snap_min snap_max snapshot \<longleftrightarrow> i < m \<and> i \<notin> set ids)"
  using visible_snapshot [of ids m _ _ _ i] unfolding sort_snapshot by blast



text \<open>
  C11: No lost updates. If a snapshot transaction may update a record, every update of the record that was not rolled back is either
  older than or the same as one it sees: the newest of them is visible, or there is none and the on-page value is visible.
\<close>

theorem modify_check_no_lost_update:
  assumes "txn_isolation (s_txn s) = WT_ISO_SNAPSHOT" "\<not> s_metadata s" "wt_txn_modify_check s tw chain = Some (Inr prev, s')"
  shows "case dropWhile (\<lambda>u. upd_txnid u = WT_TXN_ABORTED) chain of
      u # us \<Rightarrow> wt_txn_upd_visible_type s u = Some WT_VISIBLE_TRUE \<and> prev = Some (upd_durable_ts u)
    | [] \<Rightarrow> (case tw of None \<Rightarrow> prev = None | Some w \<Rightarrow> if WT_TIME_WINDOW_HAS_STOP w then wt_txn_tw_stop_visible s w else wt_txn_tw_start_visible s w)"
proof -
  define s1 where "s1 = (if g_debug_rollback (s_global s) \<noteq> 0 then s\<lparr>s_global := (s_global s)\<lparr>g_debug_ops := g_debug_ops (s_global s) + 1\<rparr>\<rparr> else s)"
  have same: "modify_check_loop (s1\<lparr>s_txn := (s_txn s1)\<lparr>txn_ignore_prepare := False\<rparr>\<rparr>) chain = modify_check_loop s chain"
    "modify_check_ondisk s1 tw = modify_check_ondisk s tw"
    by (auto simp: s1_def modify_check_ondisk_def wt_txn_tw_stop_visible_def wt_txn_tw_start_visible_def split: option.split)
  obtain us where us: "modify_check_loop s chain = Some (False, us)"
    "\<not> (us = [] \<and> modify_check_ondisk s tw)"
    "prev = (case us of upd # _ \<Rightarrow> Some (upd_durable_ts upd)
      | [] \<Rightarrow> map_option (\<lambda>w. if WT_TIME_WINDOW_HAS_STOP w then durable_stop_ts w else durable_start_ts w) tw)"
    using assms unfolding wt_txn_modify_check_def Let_def s1_def [symmetric] same by (auto split: if_splits)
  have c: "dropWhile (\<lambda>u. upd_txnid u = WT_TXN_ABORTED) chain = us" "us \<noteq> [] \<Longrightarrow> wt_txn_upd_visible_type s (hd us) = Some WT_VISIBLE_TRUE"
    using check_loop_newest [OF us(1)] by auto
  show ?thesis unfolding c(1) using c(2) us(2,3) by (auto simp: modify_check_ondisk_def split: list.split option.split)
qed

theorem modify_check_no_lost_update_witness:
  "wt_txn_upd_visible_type example_session (example_upd 3 WT_UPDATE_STANDARD [1]) = Some WT_VISIBLE_TRUE"
proof -
  let ?chain = "[(example_upd 5 WT_UPDATE_STANDARD [9])\<lparr>upd_txnid := WT_TXN_ABORTED\<rparr>, example_upd 3 WT_UPDATE_STANDARD [1]]"
  have "wt_txn_modify_check example_session None ?chain = Some (Inr (Some 30), example_session)"
    "txn_isolation (s_txn example_session) = WT_ISO_SNAPSHOT" "\<not> s_metadata example_session"
    "dropWhile (\<lambda>u. upd_txnid u = WT_TXN_ABORTED) ?chain = [example_upd 3 WT_UPDATE_STANDARD [1]]" by code_simp+
  then show ?thesis using modify_check_no_lost_update [of example_session None ?chain "Some 30" example_session] by simp
qed

text \<open>
  C35: Visible to all means visible. Where the oldest id is not past the snapshot of a transaction and the pinned timestamp not past its read
  timestamp, every resolved update that counts as visible to all readers is visible to the transaction.
\<close>

theorem visible_all_sound:
  assumes "wt_txn_upd_visible_all s u" "\<not> s_closing s" "upd_txnid u \<noteq> WT_TXN_ABORTED" "upd_start_ts u \<le> upd_durable_ts u"
    "wt_txn_oldest_id s \<le> txn_snap_min (s_txn s)" "txn_snap_min (s_txn s) \<le> txn_snap_max (s_txn s)" "sorted (txn_snapshot (s_txn s))"
    "wt_txn_pinned_timestamp s \<le> s_read_timestamp s"
  shows "wt_txn_upd_visible_type s u = Some WT_VISIBLE_TRUE"
proof -
  have v: "upd_prepare_state u \<noteq> WT_PREPARE_LOCKED" "upd_prepare_state u \<noteq> WT_PREPARE_INPROGRESS" "upd_txnid u < wt_txn_oldest_id s"
    "upd_durable_ts u = WT_TS_NONE \<or> upd_durable_ts u \<le> wt_txn_pinned_timestamp s"
    using assms(1,2) by (auto simp: wt_txn_upd_visible_all_def wt_txn_visible_all_def txn_visible_all_id_def split: if_splits)
  have "upd_txnid u < txn_snap_min (s_txn s)" "upd_txnid u < txn_snap_max (s_txn s)" using v(3) assms(5,6) by order+
  then have "txn_visible_id s (upd_txnid u)" using assms(3,7) by (simp add: txn_visible_id_def Let_def visible_sorted)
  moreover have "upd_start_ts u = WT_TS_NONE \<or> upd_start_ts u \<le> s_read_timestamp s"
  proof (cases "upd_durable_ts u = WT_TS_NONE")
    case True
    then show ?thesis using assms(4) by (simp add: WT_TS_NONE_def)
  next
    case False
    then show ?thesis using v(4) assms(4,8) by (meson order_trans)
  qed
  ultimately have "wt_txn_visible s (upd_txnid u) (upd_start_ts u)" by (auto simp: wt_txn_visible_def Let_def)
  then show ?thesis using v(1,2) by (simp add: wt_txn_upd_visible_type_def)
qed

theorem visible_all_sound_witness:
  "wt_txn_upd_visible_type example_session (example_upd 3 WT_UPDATE_STANDARD [1]) = Some WT_VISIBLE_TRUE"
  by (rule visible_all_sound) code_simp+

end
