(* ===== verification/Txn_Snapshot.thy ===== *)
theory Txn_Snapshot
  imports Txn_Visible
begin

text \<open>
  How sessions allocate transaction ids and take snapshots at the same time: \<^verbatim>\<open>__wt_txn_id_alloc\<close> of \<^verbatim>\<open>src/src/include/txn_inline.h\<close>, and
  \<^verbatim>\<open>__txn_get_snapshot_int\<close>, \<^verbatim>\<open>__txn_oldest_scan\<close>, \<^verbatim>\<open>__wt_txn_update_oldest\<close> and the release of ids and snapshots of \<^verbatim>\<open>src/src/txn/txn.c\<close>.
  One step of the model is one access to a shared variable, in the order the barriers of the code enforce.
  Scans for snapshots hold the global lock for reading and the update of the oldest id holds it for writing, so these exclude each other;
  the allocation of ids takes no lock. The ids of a running checkpoint and the ids pinned for metadata are left out, and
  ids are natural numbers: the source stops before its 64-bit ids wrap around.
\<close>

subsection \<open>State\<close>

text \<open>The program counter of the allocation; \<open>Added p q\<close> has published \<open>p\<close> and got the id \<open>q\<close>.\<close>

datatype alloc_pc = NoTxn | Flagged | ReadCur nat | Published nat | Added nat nat | Final nat | Running nat

text \<open>
  The program counter of a snapshot: the current and the oldest id that were read, the slot the scan is at and the ids collected; in \<open>Check\<close>
  and \<open>Recheck\<close> also the id that was read from the slot.
\<close>

datatype scan_pc =
    NoSnap
  | Scan nat nat nat "nat list"
  | Check nat nat nat "nat list" nat
  | Recheck nat nat nat "nat list" nat
  | Snap nat "nat list"

text \<open>The program counter of the update of the oldest id: the last running id, the slot and the smallest pinned id so far.\<close>

datatype oldest_pc = OIdle | OScan nat nat nat | OCheck nat nat nat nat | ORecheck nat nat nat nat | OPin nat nat nat

record snap_state =
  g_current :: nat
  g_oldest :: nat
  sh_id :: "nat \<Rightarrow> nat"
  sh_is_allocating :: "nat \<Rightarrow> bool"
  sh_pinned_id :: "nat \<Rightarrow> nat"
  apc :: "nat \<Rightarrow> alloc_pc"
  spc :: "nat \<Rightarrow> scan_pc"
  opc :: oldest_pc
  committed :: "nat list"
  committed_before :: "nat \<Rightarrow> nat list"

definition snap_start :: snap_state where
  "snap_start =
     \<lparr>g_current = 1, g_oldest = 1, sh_id = (\<lambda>_. 0), sh_is_allocating = (\<lambda>_. False), sh_pinned_id = (\<lambda>_. 0),
      apc = (\<lambda>_. NoTxn), spc = (\<lambda>_. NoSnap), opc = OIdle, committed = [], committed_before = (\<lambda>_. [])\<rparr>"

fun scanning :: "scan_pc \<Rightarrow> bool" where
  "scanning (Scan _ _ _ _) = True"
| "scanning (Check _ _ _ _ _) = True"
| "scanning (Recheck _ _ _ _ _) = True"
| "scanning _ = False"

subsection \<open>Allocating an id\<close>

definition alloc_step :: "nat \<Rightarrow> snap_state \<Rightarrow> snap_state option" where
  "alloc_step i s =
     (case apc s i of
        NoTxn \<Rightarrow> Some (s\<lparr>sh_is_allocating := (sh_is_allocating s)(i := True), apc := (apc s)(i := Flagged)\<rparr>)
      | Flagged \<Rightarrow> Some (s\<lparr>apc := (apc s)(i := ReadCur (g_current s))\<rparr>)
      | ReadCur p \<Rightarrow> Some (s\<lparr>sh_id := (sh_id s)(i := p), apc := (apc s)(i := Published p)\<rparr>)
      | Published p \<Rightarrow> Some (s\<lparr>g_current := g_current s + 1, apc := (apc s)(i := Added p (g_current s))\<rparr>)
      | Added p q \<Rightarrow> Some (s\<lparr>sh_id := (sh_id s)(i := q), apc := (apc s)(i := Final q)\<rparr>)
      | Final q \<Rightarrow> Some (s\<lparr>sh_is_allocating := (sh_is_allocating s)(i := False), apc := (apc s)(i := Running q)\<rparr>)
      | Running q \<Rightarrow> None)"

text \<open>The end of a transaction takes its id out of the table.\<close>

definition commit_step :: "nat \<Rightarrow> snap_state \<Rightarrow> snap_state option" where
  "commit_step i s =
     (case apc s i of
        Running q \<Rightarrow> Some (s\<lparr>sh_id := (sh_id s)(i := 0), apc := (apc s)(i := NoTxn), committed := q # committed s\<rparr>)
      | _ \<Rightarrow> None)"

subsection \<open>Taking a snapshot\<close>

definition finish_snapshot :: "nat \<Rightarrow> nat \<Rightarrow> nat list \<Rightarrow> snap_state \<Rightarrow> snap_state" where
  "finish_snapshot i cur acc s =
     s\<lparr>spc := (spc s)(i := Snap cur acc), sh_pinned_id := (sh_pinned_id s)(i := foldl min cur acc)\<rparr>"

text \<open>\<open>n\<close> is the number of sessions. A scan starts with the lock, which the update of the oldest id must not have.\<close>

definition scan_step :: "nat \<Rightarrow> nat \<Rightarrow> snap_state \<Rightarrow> snap_state option" where
  "scan_step n i s =
     (case spc s i of
        NoSnap \<Rightarrow>
          if opc s \<noteq> OIdle then None
          else
            let cur = g_current s; old = g_oldest s; s = s\<lparr>committed_before := (committed_before s)(i := committed s)\<rparr> in
            Some (if old = cur then finish_snapshot i cur [] s else s\<lparr>spc := (spc s)(i := Scan cur old 0 [])\<rparr>)
      | Scan cur old k acc \<Rightarrow>
          if n \<le> k then Some (finish_snapshot i cur acc s)
          else
            let x = sh_id s k in
            Some (s\<lparr>spc := (spc s)(i :=
              if k \<noteq> i \<and> x \<noteq> 0 \<and> old \<le> x \<and> x < cur then Check cur old k acc x else Scan cur old (k + 1) acc)\<rparr>)
      | Check cur old k acc x \<Rightarrow>
          Some (s\<lparr>spc := (spc s)(i := if \<not> sh_is_allocating s k then Recheck cur old k acc x else Scan cur old k acc)\<rparr>)
      | Recheck cur old k acc x \<Rightarrow>
          Some (s\<lparr>spc := (spc s)(i := if x = sh_id s k then Scan cur old (k + 1) (acc @ [x]) else Scan cur old k acc)\<rparr>)
      | Snap _ _ \<Rightarrow> None)"

definition release_step :: "nat \<Rightarrow> snap_state \<Rightarrow> snap_state option" where
  "release_step i s =
     (case spc s i of
        Snap _ _ \<Rightarrow> Some (s\<lparr>spc := (spc s)(i := NoSnap), sh_pinned_id := (sh_pinned_id s)(i := 0)\<rparr>)
      | _ \<Rightarrow> None)"

subsection \<open>Moving the oldest id\<close>

definition oldest_step :: "nat \<Rightarrow> snap_state \<Rightarrow> snap_state option" where
  "oldest_step n s =
     (case opc s of
        OIdle \<Rightarrow> if list_ex (\<lambda>i. scanning (spc s i)) [0..<n] then None else Some (s\<lparr>opc := OScan (g_current s) 0 (g_current s)\<rparr>)
      | OScan lr k pin \<Rightarrow>
          if n \<le> k then
            let v = min lr pin in
            Some (s\<lparr>opc := OIdle, g_oldest := (if g_oldest s < v then v else g_oldest s)\<rparr>)
          else
            let x = sh_id s k in
            Some (s\<lparr>opc := if x \<noteq> 0 \<and> g_oldest s \<le> x \<and> x < lr then OCheck lr k pin x else OPin lr k pin\<rparr>)
      | OCheck lr k pin x \<Rightarrow> Some (s\<lparr>opc := if \<not> sh_is_allocating s k then ORecheck lr k pin x else OScan lr k pin\<rparr>)
      | ORecheck lr k pin x \<Rightarrow> Some (s\<lparr>opc := if x = sh_id s k then OPin x k pin else OScan lr k pin\<rparr>)
      | OPin lr k pin \<Rightarrow>
          let x = sh_pinned_id s k in Some (s\<lparr>opc := OScan lr (k + 1) (if x \<noteq> 0 \<and> x < pin then x else pin)\<rparr>))"

subsection \<open>Runs\<close>

datatype snap_event = Alloc nat | Commit nat | Snapshot nat | Release nat | Oldest

fun is_snap :: "scan_pc \<Rightarrow> bool" where
  "is_snap (Snap _ _) = True"
| "is_snap _ = False"

text \<open>
  With \<open>pinned\<close> a session allocates an id only while it has a snapshot, and keeps it until its transaction has ended. This is what
  transactions with snapshot isolation do, which are the only ones that may write ordinary tables.
\<close>

fun snap_step :: "bool \<Rightarrow> nat \<Rightarrow> snap_state \<Rightarrow> snap_event \<Rightarrow> snap_state option" where
  "snap_step pinned n s (Alloc i) =
     (if i < n \<and> (pinned \<longrightarrow> apc s i = NoTxn \<longrightarrow> is_snap (spc s i)) then alloc_step i s else None)"
| "snap_step pinned n s (Commit i) = (if i < n then commit_step i s else None)"
| "snap_step pinned n s (Snapshot i) = (if i < n then scan_step n i s else None)"
| "snap_step pinned n s (Release i) = (if i < n \<and> (pinned \<longrightarrow> apc s i = NoTxn) then release_step i s else None)"
| "snap_step pinned n s Oldest = oldest_step n s"

fun snap_run :: "bool \<Rightarrow> nat \<Rightarrow> snap_state \<Rightarrow> snap_event list \<Rightarrow> snap_state option" where
  "snap_run pinned n s [] = Some s"
| "snap_run pinned n s (e # es) = (case snap_step pinned n s e of None \<Rightarrow> None | Some s' \<Rightarrow> snap_run pinned n s' es)"

text \<open>The id a session has got and not yet given up.\<close>

definition tid :: "snap_state \<Rightarrow> nat \<Rightarrow> nat option" where
  "tid s i = (case apc s i of Added p q \<Rightarrow> Some q | Final q \<Rightarrow> Some q | Running q \<Rightarrow> Some q | _ \<Rightarrow> None)"

subsection \<open>The invariant\<close>

text \<open>The shared variables of a session at each point of its allocation; \<open>low\<close> is the id it has pinned.\<close>

definition alloc_ok :: "nat \<Rightarrow> nat \<Rightarrow> alloc_pc \<Rightarrow> nat \<Rightarrow> bool \<Rightarrow> bool" where
  "alloc_ok current low a x b =
     (case a of
        NoTxn \<Rightarrow> x = 0 \<and> \<not> b
      | Flagged \<Rightarrow> x = 0 \<and> b
      | ReadCur p \<Rightarrow> x = 0 \<and> b \<and> low \<le> p \<and> p \<le> current
      | Published p \<Rightarrow> x = p \<and> b \<and> low \<le> p \<and> p \<le> current
      | Added p q \<Rightarrow> x = p \<and> b \<and> low \<le> p \<and> p \<le> q \<and> q < current
      | Final q \<Rightarrow> x = q \<and> b \<and> low \<le> q \<and> q < current
      | Running q \<Rightarrow> x = q \<and> \<not> b \<and> low \<le> q \<and> q < current)"

text \<open>A session that was seen not to be allocating is running, or every id it allocates since then is at least \<open>c\<close>.\<close>

definition settled :: "nat \<Rightarrow> alloc_pc \<Rightarrow> bool" where
  "settled c a = (case a of ReadCur p \<Rightarrow> c \<le> p | Published p \<Rightarrow> c \<le> p | Added p q \<Rightarrow> c \<le> p | Final q \<Rightarrow> c \<le> q | _ \<Rightarrow> True)"

definition covered :: "snap_state \<Rightarrow> nat \<Rightarrow> nat \<Rightarrow> (nat \<Rightarrow> bool) \<Rightarrow> nat list \<Rightarrow> bool" where
  "covered s i c P acc \<longleftrightarrow> (\<forall>j q. P j \<and> j \<noteq> i \<and> tid s j = Some q \<longrightarrow> c \<le> q \<or> q \<in> set acc)"

definition acc_ok :: "snap_state \<Rightarrow> nat \<Rightarrow> nat \<Rightarrow> nat list \<Rightarrow> bool" where
  "acc_ok s i c acc \<longleftrightarrow>
     c \<le> g_current s \<and> g_oldest s \<le> c \<and> set (committed_before s i) \<subseteq> set (committed s) \<and>
     (\<forall>q \<in> set (committed_before s i). q < c) \<and>
     (\<forall>x \<in> set acc. x < c \<and> x \<notin> set (committed_before s i))"

definition scan_ok :: "snap_state \<Rightarrow> nat \<Rightarrow> bool" where
  "scan_ok s i =
     (case spc s i of
        NoSnap \<Rightarrow> sh_pinned_id s i = 0
      | Scan c old k acc \<Rightarrow>
          sh_pinned_id s i = 0 \<and> old = g_oldest s \<and> acc_ok s i c acc \<and> (\<forall>x \<in> set acc. old \<le> x) \<and> covered s i c (\<lambda>j. j < k) acc
      | Check c old k acc x \<Rightarrow>
          sh_pinned_id s i = 0 \<and> old = g_oldest s \<and> acc_ok s i c acc \<and> (\<forall>x \<in> set acc. old \<le> x) \<and> covered s i c (\<lambda>j. j < k) acc \<and>
          old \<le> x \<and> x < c
      | Recheck c old k acc x \<Rightarrow>
          sh_pinned_id s i = 0 \<and> old = g_oldest s \<and> acc_ok s i c acc \<and> (\<forall>x \<in> set acc. old \<le> x) \<and> covered s i c (\<lambda>j. j < k) acc \<and>
          old \<le> x \<and> x < c \<and> settled c (apc s k)
      | Snap c acc \<Rightarrow>
          acc_ok s i c acc \<and> covered s i c (\<lambda>_. True) acc \<and> sh_pinned_id s i = foldl min c acc \<and> g_oldest s \<le> sh_pinned_id s i)"

definition pins_ok :: "snap_state \<Rightarrow> nat \<Rightarrow> nat \<Rightarrow> bool" where
  "pins_ok s k pin \<longleftrightarrow> pin \<le> g_current s \<and> (\<forall>j < k. sh_pinned_id s j \<noteq> 0 \<longrightarrow> pin \<le> sh_pinned_id s j)"

definition oldest_ok :: "snap_state \<Rightarrow> bool" where
  "oldest_ok s =
     ((opc s = OIdle \<or> (\<forall>i. \<not> scanning (spc s i))) \<and>
      (case opc s of
         OIdle \<Rightarrow> True
       | OScan lr k pin \<Rightarrow> pins_ok s k pin
       | OCheck lr k pin x \<Rightarrow> pins_ok s k pin
       | ORecheck lr k pin x \<Rightarrow> pins_ok s k pin
       | OPin lr k pin \<Rightarrow> pins_ok s k pin))"

definition ids_ok :: "nat \<Rightarrow> snap_state \<Rightarrow> bool" where
  "ids_ok n s \<longleftrightarrow>
     (\<forall>j. alloc_ok (g_current s) (sh_pinned_id s j) (apc s j) (sh_id s j) (sh_is_allocating s j)) \<and>
     (\<forall>j. apc s j \<noteq> NoTxn \<longrightarrow> is_snap (spc s j)) \<and>
     (\<forall>j \<ge> n. apc s j = NoTxn \<and> spc s j = NoSnap) \<and>
     1 \<le> g_oldest s \<and> g_oldest s \<le> g_current s \<and>
     (\<forall>i j q. tid s i = Some q \<and> tid s j = Some q \<longrightarrow> i = j) \<and>
     (\<forall>q \<in> set (committed s). q < g_current s \<and> (\<forall>j. tid s j \<noteq> Some q))"

definition snap_inv :: "nat \<Rightarrow> snap_state \<Rightarrow> bool" where
  "snap_inv n s \<longleftrightarrow> ids_ok n s \<and> (\<forall>i. scan_ok s i) \<and> oldest_ok s"

lemma start_snap_inv: "snap_inv n snap_start"
  by (simp add: snap_inv_def ids_ok_def scan_ok_def oldest_ok_def snap_start_def alloc_ok_def tid_def)

lemma pinned_le: "scan_ok s i \<Longrightarrow> sh_pinned_id s i \<le> g_current s"
proof -
  have "foldl min c acc \<le> c" for c :: nat and acc 
    by (induction acc arbitrary: c) (simp, metis foldl_Cons min.bounded_iff)
  then show "scan_ok s i \<Longrightarrow> ?thesis" by (auto simp: scan_ok_def acc_ok_def split: scan_pc.splits intro: order_trans)
qed

subsection \<open>Allocation and the end of a transaction keep it\<close>

lemma alloc_tid:
  assumes "alloc_step a s = Some s'"
  shows "tid s' j = tid s j \<or> j = a \<and> tid s j = None \<and> tid s' j = Some (g_current s)"
  using assms by (cases "j = a"; cases "apc s a") (auto simp: alloc_step_def tid_def)

lemma alloc_frame:
  assumes "alloc_step a s = Some s'"
  shows "g_oldest s' = g_oldest s" "sh_pinned_id s' = sh_pinned_id s" "spc s' = spc s" "opc s' = opc s" "committed s' = committed s"
    "committed_before s' = committed_before s" "g_current s \<le> g_current s'" "j \<noteq> a \<Longrightarrow> apc s' j = apc s j \<and> sh_id s' j = sh_id s j \<and> sh_is_allocating s' j = sh_is_allocating s j"
  using assms by (auto simp: alloc_step_def split: alloc_pc.splits)

lemma alloc_later: "alloc_step a s = Some s' \<Longrightarrow> apc s' j \<noteq> NoTxn \<Longrightarrow> apc s j \<noteq> NoTxn \<or> j = a"
  using alloc_frame(8) [of a s s' j] by fastforce

lemma tid_less: "ids_ok n s \<Longrightarrow> tid s j = Some q \<Longrightarrow> q < g_current s"
proof -
  assume "ids_ok n s" "tid s j = Some q"
  then have "alloc_ok (g_current s) (sh_pinned_id s j) (apc s j) (sh_id s j) (sh_is_allocating s j)" by (simp add: ids_ok_def)
  then show ?thesis using \<open>tid s j = Some q\<close> by (auto simp: alloc_ok_def tid_def split: alloc_pc.splits)
qed

lemma alloc_ok_mono: "alloc_ok c low a x b \<Longrightarrow> c \<le> c' \<Longrightarrow> alloc_ok c' low a x b"
  by (auto simp: alloc_ok_def split: alloc_pc.splits)

lemma alloc_keeps_ok:
  assumes "alloc_step a s = Some s'" "alloc_ok (g_current s) low (apc s a) (sh_id s a) (sh_is_allocating s a)" "low \<le> g_current s"
  shows "alloc_ok (g_current s') low (apc s' a) (sh_id s' a) (sh_is_allocating s' a)"
  using assms by (auto simp: alloc_step_def alloc_ok_def split: alloc_pc.splits)

lemma alloc_settled:
  assumes "alloc_step a s = Some s'" "alloc_ok (g_current s) low (apc s a) (sh_id s a) b" "settled c (apc s a)" "c \<le> g_current s"
  shows "settled c (apc s' a)"
  using assms by (auto simp: alloc_step_def alloc_ok_def settled_def split: alloc_pc.splits)

lemma scan_ok_keep:
  assumes "scan_ok s i" "spc s' i = spc s i" "sh_pinned_id s' i = sh_pinned_id s i" "g_oldest s' = g_oldest s"
    and acc: "\<And>c acc. acc_ok s i c acc \<Longrightarrow> acc_ok s' i c acc"
    and cov: "\<And>c P acc. covered s i c P acc \<Longrightarrow> c \<le> g_current s \<Longrightarrow> covered s' i c P acc"
    and set: "\<And>c k. settled c (apc s k) \<Longrightarrow> c \<le> g_current s \<Longrightarrow> settled c (apc s' k)"
  shows "scan_ok s' i"
proof -
  have "acc_ok s i c acc \<Longrightarrow> c \<le> g_current s" for c acc by (simp add: acc_ok_def)
  then show ?thesis using assms(1) unfolding scan_ok_def assms(2-4) by (cases "spc s i") (auto intro: acc cov set)
qed

lemma alloc_scan_ok:
  assumes "alloc_step a s = Some s'" "snap_inv n s"
  shows "scan_ok s' i"
proof -
  note f = alloc_frame [OF assms(1)]
  have cov: "covered s' i c P acc" if "covered s i c P acc" "c \<le> g_current s" for c P acc
    using that alloc_tid [OF assms(1)] unfolding covered_def by (metis option.inject)
  have acc: "acc_ok s' i c acc" if "acc_ok s i c acc" for c acc using that f by (auto simp: acc_ok_def)
  have set: "settled c (apc s' k)" if "settled c (apc s k)" "c \<le> g_current s" for c k
    using that f(8) [of k] alloc_settled [OF assms(1)] assms(2) by (cases "k = a") (auto simp: snap_inv_def ids_ok_def)
  show ?thesis by (rule scan_ok_keep [of s, OF _ _ _ _ acc cov set]) (use assms(2) in \<open>simp_all add: f snap_inv_def\<close>)
qed

lemma ids_okD:
  assumes "ids_ok n s"
  shows "alloc_ok (g_current s) (sh_pinned_id s j) (apc s j) (sh_id s j) (sh_is_allocating s j)"
    and "apc s j \<noteq> NoTxn \<Longrightarrow> is_snap (spc s j)"
    and "n \<le> j \<Longrightarrow> apc s j = NoTxn" "n \<le> j \<Longrightarrow> spc s j = NoSnap"
    and "1 \<le> g_oldest s" "g_oldest s \<le> g_current s"
    and "tid s i = Some q \<Longrightarrow> tid s j = Some q \<Longrightarrow> i = j"
    and "q \<in> set (committed s) \<Longrightarrow> q < g_current s" "q \<in> set (committed s) \<Longrightarrow> tid s j \<noteq> Some q"
  using assms unfolding ids_ok_def by blast+

lemma tid_session: "ids_ok n s \<Longrightarrow> tid s j = Some q \<Longrightarrow> j < n"
  using ids_okD(3) [of n s j] by (cases "n \<le> j") (auto simp: tid_def)

lemma alloc_ids_ok:
  assumes "alloc_step a s = Some s'" "ids_ok n s" "scan_ok s a" "a < n" "apc s a = NoTxn \<longrightarrow> is_snap (spc s a)"
  shows "ids_ok n s'"
  unfolding ids_ok_def
proof (intro conjI allI ballI impI)
  note f = alloc_frame [OF assms(1)] and d = ids_okD [OF assms(2)] and t = alloc_tid [OF assms(1)]
  show "alloc_ok (g_current s') (sh_pinned_id s' j) (apc s' j) (sh_id s' j) (sh_is_allocating s' j)" for j
  proof (cases "j = a")
    case True
    then show ?thesis using alloc_keeps_ok [OF assms(1) d(1)] pinned_le [OF assms(3)] f(2) by simp
  next
    case False
    then show ?thesis using alloc_ok_mono [OF d(1) f(7)] f(2) f(8) [of j] by simp
  qed
  show "is_snap (spc s' j)" if "apc s' j \<noteq> NoTxn" for j
    using that alloc_later [OF assms(1), of j] d(2) assms(5) unfolding f(3) by blast
  show "apc s' j = NoTxn" "spc s' j = NoSnap" if "n \<le> j" for j using that d(3,4) assms(4) f(3) f(8) [of j] by auto
  show "1 \<le> g_oldest s'" "g_oldest s' \<le> g_current s'" using d(5,6) f(1,7) by auto
  show "i = j" if "tid s' i = Some q \<and> tid s' j = Some q" for i j q
    using that t [of i] t [of j] d(7) [of i q j] tid_less [OF assms(2), of i q] tid_less [OF assms(2), of j q] by fastforce
  show "q < g_current s'" "tid s' j \<noteq> Some q" if "q \<in> set (committed s')" for q j
    using that d(8) [of q] d(9) [of q j] t [of j] f(5,7) by auto
qed

lemma alloc_inv:
  assumes "alloc_step a s = Some s'" "snap_inv n s" "a < n" "apc s a = NoTxn \<longrightarrow> is_snap (spc s a)"
  shows "snap_inv n s'"
proof -
  have "oldest_ok s'" using assms(2) alloc_frame [OF assms(1)] unfolding snap_inv_def oldest_ok_def pins_ok_def
    by (auto split: oldest_pc.splits)
  then show ?thesis using alloc_scan_ok [OF assms(1,2)] alloc_ids_ok [OF assms(1) _ _ assms(3,4)] assms(2) by (simp add: snap_inv_def)
qed

lemma commit_inv:
  assumes "commit_step a s = Some s'" "snap_inv n s"
  shows "snap_inv n s'"
proof -
  obtain q where q: "apc s a = Running q"
    and s': "s' = s\<lparr>sh_id := (sh_id s)(a := 0), apc := (apc s)(a := NoTxn), committed := q # committed s\<rparr>"
    using assms(1) by (auto simp: commit_step_def split: alloc_pc.splits)
  note d = ids_okD [of n s]
  have ids: "ids_ok n s" using assms(2) by (simp add: snap_inv_def)
  have t: "tid s' j = (if j = a then None else tid s j)" "tid s a = Some q" for j by (auto simp: s' q tid_def)
  have cov: "covered s i c P acc \<Longrightarrow> covered s' i c P acc" for i c P acc by (auto simp: covered_def t)
  have acc: "acc_ok s i c acc \<Longrightarrow> acc_ok s' i c acc" for i c acc by (auto simp: acc_ok_def s')
  have set: "settled c (apc s k) \<Longrightarrow> settled c (apc s' k)" for c k by (auto simp: settled_def s')
  have "ids_ok n s'" unfolding ids_ok_def
  proof (intro conjI allI ballI impI)
    show "alloc_ok (g_current s') (sh_pinned_id s' j) (apc s' j) (sh_id s' j) (sh_is_allocating s' j)" for j
      using d(1) [OF ids, of j] by (auto simp: s' q alloc_ok_def)
    show "is_snap (spc s' j)" if "apc s' j \<noteq> NoTxn" for j using that d(2) [OF ids, of j] by (auto simp: s' split: if_splits)
    show "i = j" if "tid s' i = Some x \<and> tid s' j = Some x" for i j x using that d(7) [OF ids] by (auto simp: t split: if_splits)
    show "tid s' j \<noteq> Some x" if "x \<in> set (committed s')" for x j
      using that d(9) [OF ids, of x j] d(7) [OF ids t(2), of j] unfolding t by (auto simp: s')
    show "x < g_current s'" if "x \<in> set (committed s')" for x
      using that d(8) [OF ids, of x] tid_less [OF ids t(2)] by (auto simp: s')
  qed (use d(3-6) [OF ids] in \<open>auto simp: s'\<close>)
  moreover have "scan_ok s' i" for i
    by (rule scan_ok_keep [of s, OF _ _ _ _ acc cov set]) (use assms(2) in \<open>simp_all add: snap_inv_def s'\<close>)
  moreover have "oldest_ok s'" using assms(2) by (auto simp: snap_inv_def oldest_ok_def pins_ok_def s' split: oldest_pc.splits)
  ultimately show ?thesis by (simp add: snap_inv_def)
qed

subsection \<open>Taking and releasing a snapshot keeps it\<close>

lemma scan_frame:
  assumes "scan_step n i s = Some s'"
  shows "g_current s' = g_current s" "g_oldest s' = g_oldest s" "sh_id s' = sh_id s" "sh_is_allocating s' = sh_is_allocating s"
    "apc s' = apc s" "opc s' = opc s" "committed s' = committed s" "\<not> is_snap (spc s i)" "scanning (spc s i) \<or> opc s = OIdle"
    "j \<noteq> i \<Longrightarrow> spc s' j = spc s j \<and> sh_pinned_id s' j = sh_pinned_id s j \<and> committed_before s' j = committed_before s j"
  using assms by (auto simp: scan_step_def finish_snapshot_def Let_def split: scan_pc.splits if_splits)

lemma foldl_min: "foldl min c acc \<le> (c :: nat)" "x \<in> set acc \<Longrightarrow> foldl min c acc \<le> x" "m \<le> c \<Longrightarrow> \<forall>x \<in> set acc. m \<le> x \<Longrightarrow> m \<le> foldl min c acc"
proof (induction acc arbitrary: c)
  case (Cons a acc)
  { case 1 show ?case using Cons(1) [of "min c a"] by simp }
  { case 2 then show ?case using Cons(1,2) [of "min c a"] by (auto intro: order_trans) }
  { case 3 then show ?case using Cons(3) [of "min c a"] by simp }
qed auto

lemma covered_cong: "apc s' = apc s \<Longrightarrow> covered s' i c P acc = covered s i c P acc"
  by (simp add: covered_def tid_def)

lemma covered_update [simp]:
  "covered (s\<lparr>spc := v\<rparr>) = covered s" "covered (s\<lparr>sh_pinned_id := w\<rparr>) = covered s" "covered (s\<lparr>committed_before := b\<rparr>) = covered s"
  by (intro ext covered_cong; simp)+

lemma scan_other:
  assumes "scan_step n i s = Some s'" "scan_ok s j" "j \<noteq> i"
  shows "scan_ok s' j"
proof (rule scan_ok_keep [OF assms(2)])
  note f = scan_frame [OF assms(1)]
  show "acc_ok s j c acc \<Longrightarrow> acc_ok s' j c acc" for c acc using f(10) [of j] assms(3) by (auto simp: acc_ok_def f(1-7))
qed (use scan_frame [OF assms(1)] assms(3) in \<open>simp_all add: covered_cong [of s' s]\<close>)

text \<open>A session whose id is not in the window of the scan gets no id in the window any more.\<close>

lemma covered_skip:
  assumes "ids_ok n s" "covered s i c (\<lambda>j. j < k) acc"
    and "k \<noteq> i \<Longrightarrow> sh_id s k = 0 \<or> sh_id s k < g_oldest s \<or> c \<le> sh_id s k" "g_oldest s \<le> sh_pinned_id s k \<or> apc s k = NoTxn"
  shows "covered s i c (\<lambda>j. j < k + 1) acc"
proof -
  have "c \<le> q" if "k \<noteq> i" "tid s k = Some q" for q
    using that assms(3,4) ids_okD(1) [OF assms(1), of k] ids_okD(5) [OF assms(1)]
    by (auto simp: alloc_ok_def tid_def split: alloc_pc.splits)
  then show ?thesis using assms(2) unfolding covered_def by (metis Suc_eq_plus1 less_SucE)
qed

lemma covered_add:
  assumes "ids_ok n s" "covered s i c (\<lambda>j. j < k) acc" "settled c (apc s k)" "g_oldest s \<le> sh_id s k" "sh_id s k < c"
  shows "covered s i c (\<lambda>j. j < k + 1) (acc @ [sh_id s k])" and "tid s k = Some (sh_id s k)"
proof -
  show *: "tid s k = Some (sh_id s k)"
    using assms(3-5) ids_okD(1) [OF assms(1), of k] ids_okD(5) [OF assms(1)]
    by (auto simp: alloc_ok_def tid_def settled_def split: alloc_pc.splits)
  then show "covered s i c (\<lambda>j. j < k + 1) (acc @ [sh_id s k])" using assms(2) unfolding covered_def by (auto simp: less_Suc_eq)
qed

lemma pinned_bound: "snap_inv n s \<Longrightarrow> g_oldest s \<le> sh_pinned_id s k \<or> apc s k = NoTxn"
proof -
  assume "snap_inv n s"
  then have "scan_ok s k" "apc s k \<noteq> NoTxn \<longrightarrow> is_snap (spc s k)" by (auto simp: snap_inv_def ids_ok_def)
  then show ?thesis by (cases "spc s k") (auto simp: scan_ok_def)
qed

lemma tid_ge: "snap_inv n s \<Longrightarrow> tid s j = Some q \<Longrightarrow> g_oldest s \<le> q"
  using pinned_bound [of n s j] ids_okD(1) [of n s j] by (auto simp: snap_inv_def tid_def alloc_ok_def split: alloc_pc.splits)

lemma scan_own:
  assumes "scan_step n i s = Some s'" "snap_inv n s"
  shows "scan_ok s' i"
proof -
  have ids: "ids_ok n s" and ok: "scan_ok s i" using assms(2) by (auto simp: snap_inv_def)
  note f = scan_frame [OF assms(1)] and d = ids_okD [OF ids] and p = pinned_bound [OF assms(2)]
  have all: "covered s i c (\<lambda>j. j < k) acc \<Longrightarrow> n \<le> k \<Longrightarrow> covered s i c (\<lambda>_. True) acc" for c k acc
    using tid_session [OF ids] unfolding covered_def by (meson less_le_trans)
  show ?thesis
  proof (cases "spc s i")
    case NoSnap
    have "g_oldest s = g_current s \<Longrightarrow> covered s i (g_current s) (\<lambda>_. True) []" using tid_ge [OF assms(2)] by (fastforce simp: covered_def)
    moreover have "covered s i c (\<lambda>j. j < 0) []" for c by (simp add: covered_def)
    ultimately show ?thesis using assms(1) d(6) d(8) ok NoSnap
      by (auto simp: scan_step_def finish_snapshot_def Let_def scan_ok_def acc_ok_def split: if_splits)
  next
    case (Scan c old k acc)
    have "covered s i c (\<lambda>j. j < k + 1) acc" if "\<not> (k \<noteq> i \<and> sh_id s k \<noteq> 0 \<and> old \<le> sh_id s k \<and> sh_id s k < c)"
      using that covered_skip [OF ids _ _ p] ok Scan by (auto simp: scan_ok_def)
    then show ?thesis using assms(1) ok Scan all [of c k acc] foldl_min(3) [of old c acc]
      by (auto simp: scan_step_def finish_snapshot_def Let_def scan_ok_def acc_ok_def split: if_splits)
  next
    case (Check c old k acc x)
    have "settled c (apc s k)" if "\<not> sh_is_allocating s k" using that d(1) [of k] by (auto simp: settled_def alloc_ok_def split: alloc_pc.splits)
    then show ?thesis using assms(1) ok Check by (auto simp: scan_step_def scan_ok_def acc_ok_def)
  next
    case (Recheck c old k acc x)
    then have "tid s k = Some x \<Longrightarrow> x \<notin> set (committed_before s i)" using d(9) [of x k] ok by (auto simp: scan_ok_def acc_ok_def)
    then show ?thesis using assms(1) ok Recheck covered_add [OF ids, of i c k acc]
      by (auto simp: scan_step_def scan_ok_def acc_ok_def)
  qed (use f(8) in simp)
qed

lemma scan_inv:
  assumes "scan_step n i s = Some s'" "snap_inv n s" "i < n"
  shows "snap_inv n s'"
proof -
  note f = scan_frame [OF assms(1)]
  have ids: "ids_ok n s" using assms(2) by (simp add: snap_inv_def)
  note d = ids_okD [OF ids]
  have no: "apc s i = NoTxn" using d(2) f(8) by blast
  have "ids_ok n s'" unfolding ids_ok_def
  proof (intro conjI allI ballI impI)
    show "alloc_ok (g_current s') (sh_pinned_id s' j) (apc s' j) (sh_id s' j) (sh_is_allocating s' j)" for j
      using d(1) [of j] f(10) [of j] no by (cases "j = i") (auto simp: f(1-7) alloc_ok_def)
    show "is_snap (spc s' j)" if "apc s' j \<noteq> NoTxn" for j using that d(2) [of j] f(10) [of j] no by (cases "j = i") (auto simp: f(5))
    show "a = j" if "tid s' a = Some x \<and> tid s' j = Some x" for a j x using that d(7) by (simp add: tid_def f(5))
    show "tid s' j \<noteq> Some x" if "x \<in> set (committed s')" for x j using that d(9) by (simp add: tid_def f(5,7))
    show "spc s' j = NoSnap" if "n \<le> j" for j using that d(4) f(10) [of j] assms(3) by auto
  qed (use d(3-8) in \<open>auto simp: f(1-7)\<close>)
  moreover have "oldest_ok s'" using f(6,9) assms(2) by (auto simp: oldest_ok_def snap_inv_def split: oldest_pc.splits)
  moreover have "scan_ok s' j" for j using scan_own [OF assms(1,2)] scan_other [OF assms(1)] assms(2) by (cases "j = i") (auto simp: snap_inv_def)
  ultimately show ?thesis by (simp add: snap_inv_def)
qed

lemma release_inv:
  assumes "release_step i s = Some s'" "snap_inv n s" "apc s i = NoTxn"
  shows "snap_inv n s'"
proof -
  obtain c ids where s: "spc s i = Snap c ids" and s': "s' = s\<lparr>spc := (spc s)(i := NoSnap), sh_pinned_id := (sh_pinned_id s)(i := 0)\<rparr>"
    using assms(1) by (auto simp: release_step_def split: scan_pc.splits)
  have ids: "ids_ok n s" using assms(2) by (simp add: snap_inv_def)
  have t: "tid s' = tid s" by (auto simp: tid_def s')
  have "scan_ok s' j" for j
  proof (cases "j = i")
    case False
    show ?thesis by (rule scan_ok_keep [of s]) (use False assms(2) in \<open>simp_all add: snap_inv_def s' acc_ok_def\<close>)
  qed (simp add: scan_ok_def s')
  moreover have "alloc_ok c low NoTxn x b = (x = 0 \<and> \<not> b)" for c low x b by (simp add: alloc_ok_def)
  then have "ids_ok n s'" using ids assms(3) ids_okD(1) [OF ids, of i] unfolding ids_ok_def t by (auto simp: s')
  moreover have "oldest_ok s'" using assms(2) by (auto simp: snap_inv_def oldest_ok_def pins_ok_def s' split: oldest_pc.splits)
  ultimately show ?thesis by (simp add: snap_inv_def)
qed

subsection \<open>Moving the oldest id keeps it\<close>

lemma oldest_frame:
  assumes "oldest_step n s = Some s'"
  shows "g_current s' = g_current s" "sh_id s' = sh_id s" "sh_is_allocating s' = sh_is_allocating s" "sh_pinned_id s' = sh_pinned_id s"
    "apc s' = apc s" "spc s' = spc s" "committed s' = committed s" "committed_before s' = committed_before s" "g_oldest s \<le> g_oldest s'"
    "g_oldest s' \<noteq> g_oldest s \<Longrightarrow> opc s \<noteq> OIdle"
  using assms by (auto simp: oldest_step_def Let_def split: oldest_pc.splits if_splits)

text \<open>The new oldest id is at most every pinned id.\<close>

lemma oldest_moves:
  assumes "oldest_step n s = Some s'" "snap_inv n s"
  shows "g_oldest s' \<le> g_current s" "j < n \<Longrightarrow> is_snap (spc s j) \<Longrightarrow> g_oldest s' \<le> sh_pinned_id s j"
proof -
  have *: "g_oldest s' = g_oldest s \<or> (\<exists>pin. pins_ok s n pin \<and> g_oldest s' \<le> pin)"
    using assms by (auto simp: oldest_step_def Let_def snap_inv_def oldest_ok_def pins_ok_def split: oldest_pc.splits if_splits) 
  show "g_oldest s' \<le> g_current s" using * assms(2) by (auto simp: snap_inv_def ids_ok_def pins_ok_def)
  have "g_oldest s \<le> sh_pinned_id s j \<and> 1 \<le> g_oldest s" if "is_snap (spc s j)"
    using that assms(2) by (cases "spc s j") (auto simp: snap_inv_def scan_ok_def ids_ok_def dest: spec [of _ j])
  then show "j < n \<Longrightarrow> is_snap (spc s j) \<Longrightarrow> g_oldest s' \<le> sh_pinned_id s j" using * by (fastforce simp: pins_ok_def)
qed

lemma oldest_keeps_pins:
  assumes "oldest_step n s = Some s'" "snap_inv n s"
  shows "oldest_ok s'"
proof -
  note f = oldest_frame [OF assms(1)]
  have "scanning (spc s i) \<Longrightarrow> i < n" for i using assms(2) by (cases "i < n") (auto simp: snap_inv_def ids_ok_def)
  then have "opc s = OIdle \<Longrightarrow> \<forall>i. \<not> scanning (spc s i)" using assms(1) by (auto simp: oldest_step_def list_ex_iff split: if_splits)
  then have no: "\<forall>i. \<not> scanning (spc s i)" using assms(2) by (auto simp: snap_inv_def oldest_ok_def)
  have "pins_ok s' k pin = pins_ok s k pin" for k pin by (simp add: pins_ok_def f)
  then show ?thesis using assms no f(6)
    by (auto simp: oldest_step_def Let_def snap_inv_def oldest_ok_def pins_ok_def less_Suc_eq split: oldest_pc.splits if_splits)
qed

lemma oldest_inv:
  assumes "oldest_step n s = Some s'" "snap_inv n s"
  shows "snap_inv n s'"
proof -
  note f = oldest_frame [OF assms(1)] and m = oldest_moves [OF assms]
  have t: "tid s' = tid s" by (auto simp: tid_def f(5))
  have "scan_ok s' i" for i
  proof (cases "g_oldest s' = g_oldest s")
    case True
    show ?thesis by (rule scan_ok_keep [of s]) (use True assms(2) in \<open>simp_all add: snap_inv_def f acc_ok_def covered_cong [of s' s]\<close>)
  next
    case False
    then have "\<not> scanning (spc s i)" using f(10) assms(2) by (auto simp: snap_inv_def oldest_ok_def)
    moreover have "is_snap (spc s i) \<Longrightarrow> i < n" using assms(2) by (cases "i < n") (auto simp: snap_inv_def ids_ok_def)
    moreover have "scan_ok s i" using assms(2) by (simp add: snap_inv_def)
    ultimately show ?thesis using m(2) [of i] foldl_min(1)
      by (cases "spc s i") (auto simp: scan_ok_def acc_ok_def f covered_cong [of s' s] intro: order_trans)
  qed
  moreover have "ids_ok n s'" using assms(2) m(1) f(9) unfolding snap_inv_def ids_ok_def t f(1-8) by auto
  ultimately show ?thesis using oldest_keeps_pins [OF assms] by (simp add: snap_inv_def)
qed

lemma step_snap_inv:
  assumes "snap_step True n s e = Some s'" "snap_inv n s"
  shows "snap_inv n s'"
  using assms by (cases e) (auto split: if_splits intro: alloc_inv commit_inv scan_inv release_inv oldest_inv)

lemma run_snap_inv: "snap_run True n s es = Some s' \<Longrightarrow> snap_inv n s \<Longrightarrow> snap_inv n s'"
  by (induction es arbitrary: s) (auto split: option.splits dest: step_snap_inv)

subsection \<open>What a snapshot sees\<close>

lemma step_ids:
  assumes "snap_step b n s e = Some s'"
  shows "g_current s \<le> g_current s'" "tid s' j = Some q \<Longrightarrow> tid s j = Some q \<or> g_current s \<le> q"
    "q \<in> set (committed s') \<Longrightarrow> q \<in> set (committed s) \<or> (\<exists>j. tid s j = Some q)"
proof -
  have *: "g_current s \<le> g_current s' \<and> (\<forall>j q. tid s' j = Some q \<longrightarrow> tid s j = Some q \<or> g_current s \<le> q) \<and>
    (\<forall>q \<in> set (committed s'). q \<in> set (committed s) \<or> (\<exists>j. tid s j = Some q))"
  proof (cases e)
    case (Alloc a)
    then have a: "alloc_step a s = Some s'" using assms by (auto split: if_splits)
    show ?thesis using alloc_tid [OF a] alloc_frame(5,7) [OF a] by (metis option.inject order_refl)
  next
    case (Commit a)
    then obtain x where x: "apc s a = Running x"
      and s': "s' = s\<lparr>sh_id := (sh_id s)(a := 0), apc := (apc s)(a := NoTxn), committed := x # committed s\<rparr>"
      using assms by (auto simp: commit_step_def split: if_splits alloc_pc.splits)
    have "tid s a = Some x" "tid s' j = (if j = a then None else tid s j)" for j by (auto simp: tid_def x s')
    then show ?thesis by (auto simp: s' split: if_splits)
  next
    case (Snapshot a)
    then show ?thesis using assms scan_frame(1,5,7) [of n a s s'] by (auto simp: tid_def split: if_splits)
  next
    case (Release a)
    then show ?thesis using assms by (auto simp: release_step_def tid_def split: if_splits scan_pc.splits)
  next
    case Oldest
    then show ?thesis using assms oldest_frame(1,5,7) [of n s s'] by (auto simp: tid_def)
  qed
  then show "g_current s \<le> g_current s'" "tid s' j = Some q \<Longrightarrow> tid s j = Some q \<or> g_current s \<le> q"
    "q \<in> set (committed s') \<Longrightarrow> q \<in> set (committed s) \<or> (\<exists>j. tid s j = Some q)" by blast+
qed

lemma run_committed:
  assumes "snap_run b n s es = Some s'" "q \<in> set (committed s')"
  shows "q \<in> set (committed s) \<or> (\<exists>j. tid s j = Some q) \<or> g_current s \<le> q"
  using assms
proof (induction es arbitrary: s)
  case (Cons e es)
  then obtain t where t: "snap_step b n s e = Some t" "snap_run b n t es = Some s'" by (auto split: option.splits)
  then show ?case using Cons.IH [OF t(2) Cons.prems(2)] step_ids [OF t(1)] by (meson order_trans)
qed simp

lemma snap_facts:
  assumes "snap_run True n snap_start es = Some s" "spc s i = Snap m ids"
  shows "acc_ok s i m ids" "covered s i m (\<lambda>_. True) ids" "g_oldest s \<le> foldl min m ids" "snap_inv n s"
  using run_snap_inv [OF assms(1) start_snap_inv] assms(2) by (auto simp: snap_inv_def scan_ok_def dest: spec [of _ i])

text \<open>Session 0 runs a transaction, and session 1 takes its snapshot meanwhile; session 2 takes one after the end of the transaction.\<close>

definition overlap_events :: "snap_event list" where
  "overlap_events = Snapshot 0 # replicate 6 (Alloc 0) @ replicate 7 (Snapshot 1)"

definition after_events :: "snap_event list" where
  "after_events = overlap_events @ [Commit 0] @ replicate 5 (Snapshot 2)"


text \<open>
  C2: Snapshot isolation. In every interleaving of allocations, commits, snapshots and updates of the oldest id, what commits after a session has
  its snapshot stays invisible to it: no id of another session that was not committed then is ever visible, whether it was
  allocated, being allocated or not yet allocated.
\<close>

theorem snapshot_isolation:
  assumes "snap_run True n snap_start es = Some s" "spc s i = Snap m ids" "txn_sort_snapshot ids m = Some (snap_min, snap_max, snapshot)"
    and "snap_run True n s es' = Some s'" "q \<in> set (committed s')" "q \<notin> set (committed s)" "tid s i \<noteq> Some q"
  shows "\<not> wt_txn_visible_id_snapshot q snap_min snap_max snapshot"
proof -
  note f = snap_facts [OF assms(1,2)]
  have "m \<le> q \<or> q \<in> set ids"
    using run_committed [OF assms(4,5)] assms(6,7) f(1,2) unfolding acc_ok_def covered_def by (metis order_trans)
  then show ?thesis using visible_snapshot [OF assms(3), of q] by auto
qed

theorem snapshot_isolation_witness:
  "\<exists>s. snap_run True 3 snap_start overlap_events = Some s \<and> spc s 1 = Snap 2 [1] \<and> tid s 0 = Some 1 \<and>
    \<not> wt_txn_visible_id_snapshot 1 1 2 [1 :: nat]"
proof -
  have "case snap_run True 3 snap_start overlap_events of None \<Rightarrow> False
    | Some s \<Rightarrow> spc s 1 = Snap 2 [1] \<and> tid s 0 = Some 1 \<and> tid s 1 \<noteq> Some 1 \<and> 1 \<notin> set (committed s) \<and>
      (case snap_run True 3 s [Commit 0] of None \<Rightarrow> False | Some s' \<Rightarrow> 1 \<in> set (committed s'))"
    by code_simp
  then obtain s s' where s: "snap_run True 3 snap_start overlap_events = Some s" "spc s 1 = Snap 2 [1]" "tid s 0 = Some 1"
    "snap_run True 3 s [Commit 0] = Some s'" "1 \<in> set (committed s')" "1 \<notin> set (committed s)" "tid s 1 \<noteq> Some 1"
    by (auto split: option.splits)
  have "txn_sort_snapshot [1 :: nat] 2 = Some (1, 2, [1])" by code_simp
  then show ?thesis using snapshot_isolation [OF s(1,2) _ s(4-7)] s(1-3) by blast
qed

text \<open>C13: Read what was committed. A transaction that ended before a session began to take its snapshot is visible to it.\<close>

theorem snapshot_sees_committed:
  assumes "snap_run True n snap_start es = Some s" "spc s i = Snap m ids" "txn_sort_snapshot ids m = Some (snap_min, snap_max, snapshot)"
    and "q \<in> set (committed_before s i)"
  shows "wt_txn_visible_id_snapshot q snap_min snap_max snapshot"
  using snap_facts(1) [OF assms(1,2)] assms(4) visible_snapshot [OF assms(3), of q] by (auto simp: acc_ok_def)

theorem snapshot_sees_committed_witness:
  "\<exists>s. snap_run True 3 snap_start after_events = Some s \<and> spc s 2 = Snap 2 [] \<and> wt_txn_visible_id_snapshot 1 2 2 ([] :: nat list)"
proof -
  have "case snap_run True 3 snap_start after_events of None \<Rightarrow> False | Some s \<Rightarrow> spc s 2 = Snap 2 [] \<and> 1 \<in> set (committed_before s 2)"
    by code_simp
  then obtain s where s: "snap_run True 3 snap_start after_events = Some s" "spc s 2 = Snap 2 []" "1 \<in> set (committed_before s 2)"
    by (auto split: option.splits)
  have "txn_sort_snapshot ([] :: nat list) 2 = Some (2, 2, [])" by code_simp
  then show ?thesis using snapshot_sees_committed [OF s(1,2) _ s(3)] s(1,2) by blast
qed




end
