(* ===== verification/Spec2Isabelle.thy ===== *)
theory Spec2Isabelle
  imports Extlist_Walk Extlist_Disk Extlist_Block Hex Cell_Unpack Struct_Order Rwlock Txn_Snapshot
begin

text \<open>
  A verification development for the storage engine under \<^verbatim>\<open>src/src\<close>.

  \<^bold>\<open>The program and its parts.\<close> The engine keeps tables as B-trees of pages. A table's file is managed by the block manager, which
  allocates and frees ranges of the file and records them in extent lists; a block is named by an address cookie. A page is a
  sequence of cells, each with a time window that says which transactions may see it. Keys and values of applications are packed from
  typed fields, and keys are compared bytewise. Updates of a record form a chain in memory, newest first; partial updates (modify
  operations) are applied to the value below them. A transaction reads through a snapshot of the running transaction ids, and all
  sessions share tables of ids that are protected by a read/write lock.

  \<^bold>\<open>Theories.\<close> Each theory models one part in the order of its source, and proves its properties.

  \<^item> \<open>Prelude\<close>: types (words, bytes, \<open>error + 'a\<close> results with \<^verbatim>\<open>WT_RET\<close>), the reference byte order \<open>lexcmp\<close>, lemmas on lists, words
    and results, and the locales for encoders that the codecs below interpret.
  \<^item> \<open>Intpack\<close> (\<^verbatim>\<open>include/intpack_inline.h\<close>): variable-length integers: round trips, order preservation, size limits, reads in bounds.
  \<^item> \<open>Lexcmp\<close> (\<^verbatim>\<open>include/btree_cmp_inline.h\<close>): the comparison routines for the SSE2, NEON and portable builds compute \<open>lexcmp\<close>.
  \<^item> \<open>Block_Addr\<close> (\<^verbatim>\<open>block/block_addr.c\<close>, \<^verbatim>\<open>include/block_inline.h\<close>): address and checkpoint cookies and extent pairs: round trips.
  \<^item> \<open>Skiplist\<close>, \<open>Extlist\<close>, \<open>Extlist_Inv\<close>, \<open>Extlist_Ops\<close>, \<open>Extlist_Walk\<close>, \<open>Extlist_Disk\<close>, \<open>Extlist_Block\<close> (\<^verbatim>\<open>block/block_ext.c\<close>): extent lists with
    their offset and size indexes. The skip lists are interpreted for both keys; merge, removal, allocation and freeing refine operations
    on sets of offsets; the overlap walk between two lists terminates and moves every common range once; the image on disk is read back.
  \<^item> \<open>Hex\<close> (\<^verbatim>\<open>support/hex.c\<close>, \<^verbatim>\<open>support/timestamp.c\<close>, \<^verbatim>\<open>txn/txn_timestamp.c\<close>): hexadecimal text of bytes and timestamps.
  \<^item> \<open>Time_Window\<close> (\<^verbatim>\<open>include/timestamp_inline.h\<close>, \<^verbatim>\<open>support/timestamp.c\<close>): time windows, aggregates, validation.
  \<^item> \<open>Cell\<close>, \<open>Cell_Unpack\<close> (\<^verbatim>\<open>include/cell_inline.h\<close>): packing and unpacking of cells, copy cells, dictionary matching, the clearing of
    windows from before a restart.
  \<^item> \<open>Struct_Pack\<close>, \<open>Struct_Roundtrip\<close>, \<open>Struct_Order\<close> (\<^verbatim>\<open>include/packing_inline.h\<close>, \<^verbatim>\<open>packing/pack_impl.c\<close>): typed structures: round trip,
    order, and the behaviour at full buffers.
  \<^item> \<open>Modify\<close> (\<^verbatim>\<open>support/modify.c\<close>): modify operations: all ways of applying them agree.
  \<^item> \<open>Txn_Sort\<close>, \<open>Txn_Visible\<close> (\<^verbatim>\<open>include/misc.h\<close>, \<^verbatim>\<open>include/txn_inline.h\<close>): sorting and searching of snapshots, visibility, reads through
    the update chain, the on-disk value and the history store, write conflicts.
  \<^item> \<open>Txn_Snapshot\<close> (\<^verbatim>\<open>txn/txn.c\<close>, \<^verbatim>\<open>include/txn_inline.h\<close>): interleaved allocation of ids, snapshots and updates of the oldest id:
    snapshot isolation as an invariant of all runs.
  \<^item> \<open>Rwlock\<close> (\<^verbatim>\<open>support/mtx_rw.c\<close>): the ticket lock as a step relation: mutual exclusion, no starvation.
  \<^bold>\<open>How the code is represented.\<close> Functions that fail return \<open>Inl\<close> of an error; reading or writing outside a buffer is the error
  \<open>OOB_READ\<close>, so that a theorem with an \<open>Inr\<close> result also shows that all accesses are in bounds. C integers are words of their width
  where they can wrap around, and natural numbers or integers elsewhere: extents are bounded by the size limit of files, transaction
  ids in \<open>Txn_Snapshot\<close> by the check for exhausted ids. Pointers into skip lists are represented by the list behind them. Code outside the
  sources that are read here is a parameter: the collator of an application, the search of the history store, the random depth of skip list elements.
  Assertions of diagnostic builds, statistics and verbose messages are left out.

  \<^bold>\<open>Bounds and fuel.\<close> Loops are total functions with termination proofs. Fuel is used in the quicksort of \<open>Txn_Sort\<close> and in the walks of the extent
  lists; the length of the array and of the lists is shown to be enough, and the theorems state that a result is produced. A visibility
  test that spins on a locked prepared update is \<open>None\<close>, and the theorems about reads show when there is a result.

  \<^bold>\<open>Concurrency.\<close> \<open>Rwlock\<close> and \<open>Txn_Snapshot\<close> take one access to shared memory as one step and quantify over all interleavings. All other
  theories model one thread; the properties of them hold between the points where the engine synchronises.

  \<^bold>\<open>Not modelled.\<close> Eviction, reconciliation, checkpoints, recovery, rollback to stable, logging, the LSM trees, tiered storage, cursors, sessions,
  the connection and the schema layer are long-running procedures over the whole engine state with I/O, and are not modelled; neither are the operating
  system layer, memory allocation, statistics, the utilities, language bindings and test programs. \<^verbatim>\<open>checksum\<close> and the
  hash functions are tables and mixing steps without a contract beyond being deterministic.
\<close>

end
